(* ===== verification/Muduo_Prelude.thy ===== *)
theory Muduo_Prelude
  imports Main "HOL-Library.Word" "HOL-Library.Monad_Syntax" "HOL-Library.Sublist"
    "HOL-Library.Product_Lexorder" "HOL-Library.Signed_Division"
begin

text \<open>
  What every component shares.  A C++ operation that may hit a failed \<open>assert\<close>, a
  \<open>LOG_FATAL\<close>, an uncaught exception or an access outside a container is a function into
  \<^typ>\<open>'a option\<close>: \<open>None\<close> is "the process stops here", and the \<open>do\<close> notation of
  \<open>Monad_Syntax\<close> sequences the statements.

  The theory holds: assertions; \<open>size_t\<close> arithmetic with its wrap-around; the parts of the
  C++ standard library the sources use (\<open>std::vector\<close> resize and copy, \<open>std::set\<close> as a
  strictly sorted list, \<open>std::find\<close>, \<open>std::search\<close>); and the lemmas on them that the
  component theories rely on, collected in \<open>size_simps\<close> and \<open>std_simps\<close>.
\<close>

named_theorems size_simps \<open>size_t arithmetic that does not wrap\<close>
named_theorems std_simps \<open>the standard library's containers and algorithms\<close>

section \<open>Assertions\<close>

definition assert_that :: "bool \<Rightarrow> unit option" where
  "assert_that b = (if b then Some () else None)"

lemma assert_that_simps [simp]:
  "assert_that True = Some ()" "assert_that False = None"
  by (simp_all add: assert_that_def)

lemma assert_that_eq_Some [simp]: "assert_that b = Some u \<longleftrightarrow> b"
  by (simp add: assert_that_def)

lemma assert_that_bind_eq_Some [simp]:
  "(assert_that b \<bind> f) = Some y \<longleftrightarrow> b \<and> f () = Some y"
  by (cases b) simp_all

lemma assert_that_bind_True: "b \<Longrightarrow> (assert_that b \<bind> f) = f ()"
  by simp

section \<open>Sizes: 64-bit unsigned arithmetic on natural numbers\<close>

definition size_limit :: nat where
  "size_limit = 2 ^ 64"

definition uadd :: "nat \<Rightarrow> nat \<Rightarrow> nat" where
  "uadd a b = (a + b) mod size_limit"

definition usub :: "nat \<Rightarrow> nat \<Rightarrow> nat" where
  "usub a b = (a + (size_limit - b mod size_limit)) mod size_limit"

lemma size_limit_pos [simp]: "0 < size_limit"
  by (simp add: size_limit_def)

lemma uadd_exact [size_simps]: "a + b < size_limit \<Longrightarrow> uadd a b = a + b"
  by (simp add: uadd_def)

lemma usub_exact [size_simps]:
  assumes "b \<le> a" and "a < size_limit"
  shows "usub a b = a - b"
proof -
  from assms have "b mod size_limit = b" by simp
  with assms have "a + (size_limit - b mod size_limit) = (a - b) + size_limit" by simp
  then have "usub a b = (a - b) mod size_limit" by (simp add: usub_def)
  with assms show ?thesis by simp
qed

lemma uadd_less [simp]: "uadd a b < size_limit"
  by (simp add: uadd_def)

lemma usub_less [simp]: "usub a b < size_limit"
  by (simp add: usub_def)

text \<open>A narrowing cast to \<open>int\<close> and the conversion of an \<open>int\<close> back to \<open>size_t\<close>.\<close>

definition to_int32 :: "nat \<Rightarrow> int" where
  "to_int32 n = sint (word_of_nat n :: 32 word)"

definition of_int32 :: "int \<Rightarrow> nat" where
  "of_int32 i = nat (i mod int size_limit)"

lemma to_int32_exact [size_simps]: "n < 2 ^ 31 \<Longrightarrow> to_int32 n = int n"
  by (simp add: to_int32_def signed_of_nat signed_take_bit_int_eq_self)

lemma of_int32_exact [size_simps]: "n < size_limit \<Longrightarrow> of_int32 (int n) = n"
  by (simp add: of_int32_def)

section \<open>std::vector\<close>

text \<open>
  \<open>max_size()\<close> of a vector of characters; \<open>resize\<close> beyond it throws.  Writing outside the
  vector is undefined behaviour, hence \<open>None\<close>.
\<close>

definition vec_max :: nat where
  "vec_max = 2 ^ 63 - 1"

definition vec_resize :: "'a \<Rightarrow> 'a list \<Rightarrow> nat \<Rightarrow> 'a list option" where
  "vec_resize d v n = (if n \<le> vec_max then Some (take n v @ replicate (n - length v) d) else None)"

definition vec_write :: "'a list \<Rightarrow> nat \<Rightarrow> 'a list \<Rightarrow> 'a list option" where
  "vec_write v i xs =
     (if i + length xs \<le> length v then Some (take i v @ xs @ drop (i + length xs) v) else None)"

definition vec_range :: "'a list \<Rightarrow> nat \<Rightarrow> nat \<Rightarrow> 'a list" where
  "vec_range v i j = take (j - i) (drop i v)"

lemma vec_max_less [simp]: "vec_max < size_limit" "Suc vec_max < size_limit"
  by (simp_all add: vec_max_def size_limit_def)

lemma vec_max_double: "a \<le> vec_max \<Longrightarrow> b \<le> vec_max \<Longrightarrow> a + b < size_limit"
  by (simp add: vec_max_def size_limit_def)

lemma vec_max_ge: "2 ^ 32 \<le> vec_max"
  by (simp add: vec_max_def)

lemma length_vec_range [simp]: "j \<le> length v \<Longrightarrow> length (vec_range v i j) = j - i"
  by (simp add: vec_range_def)

lemma vec_range_empty [simp]: "vec_range v i i = []"
  by (simp add: vec_range_def)

lemma vec_range_drop:
  "vec_range v (i + k) j = drop k (vec_range v i j)"
  by (simp add: vec_range_def drop_take add.commute)

lemma vec_range_take:
  "k \<le> j - i \<Longrightarrow> vec_range v i (i + k) = take k (vec_range v i j)"
  by (simp add: vec_range_def min_def)

lemma vec_range_take_end:
  "i + k \<le> j \<Longrightarrow> vec_range v i (j - k) = take (j - i - k) (vec_range v i j)"
  by (simp add: vec_range_def min_def add.commute)

lemma vec_range_resize:
  "j \<le> length v \<Longrightarrow> vec_range (v @ xs) i j = vec_range v i j"
  by (simp add: vec_range_def)

lemma vec_range_write_end:
  assumes "i \<le> w" and "w + length xs \<le> length v"
  shows "vec_range (take w v @ xs @ drop (w + length xs) v) i (w + length xs) = vec_range v i w @ xs"
  using assms by (simp add: vec_range_def drop_take)

lemma vec_range_write_front:
  assumes "length xs \<le> i" and "i \<le> j" and "j \<le> length v"
  shows "vec_range (take (i - length xs) v @ xs @ drop i v) (i - length xs) j
         = xs @ vec_range v i j"
  using assms by (simp add: vec_range_def)

lemma vec_range_write_in:
  assumes "i + length xs \<le> length v"
  shows "vec_range (take i v @ xs @ drop (i + length xs) v) i (i + length xs) = xs"
  using assms by (simp add: vec_range_def)

lemma length_vec_write:
  "i + length xs \<le> length v \<Longrightarrow> length (take i v @ xs @ drop (i + length xs) v) = length v"
  by simp

section \<open>std::set as a strictly sorted list\<close>

text \<open>
  Iteration order is the list order.  \<open>insert\<close> returns whether an element was added,
  \<open>erase\<close> how many were removed.
\<close>

abbreviation strictly_sorted :: "'a::linorder list \<Rightarrow> bool" where
  "strictly_sorted \<equiv> sorted_wrt (<)"

fun set_insert :: "'a::linorder \<Rightarrow> 'a list \<Rightarrow> 'a list \<times> bool" where
  "set_insert x [] = ([x], True)"
| "set_insert x (y # ys) =
     (if x < y then (x # y # ys, True)
      else if x = y then (y # ys, False)
      else apfst ((#) y) (set_insert x ys))"

definition set_erase :: "'a::linorder \<Rightarrow> 'a list \<Rightarrow> 'a list \<times> nat" where
  "set_erase x xs = (removeAll x xs, if x \<in> set xs then 1 else 0)"

definition lower_bound :: "'a::linorder \<Rightarrow> 'a list \<Rightarrow> nat" where
  "lower_bound x xs = length (takeWhile (\<lambda>y. y < x) xs)"

lemma set_set_insert [simp]: "set (fst (set_insert x xs)) = insert x (set xs)"
  by (induction xs) auto

lemma set_insert_flag: "strictly_sorted xs \<Longrightarrow> snd (set_insert x xs) \<longleftrightarrow> x \<notin> set xs"
  by (induction xs) auto

lemma strictly_sorted_set_insert [simp]:
  "strictly_sorted xs \<Longrightarrow> strictly_sorted (fst (set_insert x xs))"
  by (induction xs) auto

lemma set_set_erase [simp]: "set (fst (set_erase x xs)) = set xs - {x}"
  by (simp add: set_erase_def)

lemma strictly_sorted_filter:
  "strictly_sorted xs \<Longrightarrow> strictly_sorted (filter P xs)"
  by (induction xs) auto

lemma strictly_sorted_set_erase [simp]:
  "strictly_sorted xs \<Longrightarrow> strictly_sorted (fst (set_erase x xs))"
  by (simp add: set_erase_def removeAll_filter_not_eq strictly_sorted_filter)

lemma strictly_sorted_distinct: "strictly_sorted xs \<Longrightarrow> distinct xs"
  by (simp add: strict_sorted_iff)

lemma strictly_sorted_length: "strictly_sorted xs \<Longrightarrow> length xs = card (set xs)"
  by (simp add: distinct_card strictly_sorted_distinct)

lemma strictly_sorted_hd_least:
  "strictly_sorted xs \<Longrightarrow> y \<in> set xs \<Longrightarrow> hd xs \<le> y"
  by (cases xs) auto

lemma takeWhile_less_filter:
  "strictly_sorted xs \<Longrightarrow> takeWhile (\<lambda>y. y < x) xs = filter (\<lambda>y. y < x) xs"
proof (induction xs)
  case Nil
  then show ?case by simp
next
  case (Cons y ys)
  show ?case
  proof (cases "y < x")
    case True
    with Cons show ?thesis by simp
  next
    case False
    with Cons.prems have "\<not> z < x" if "z \<in> set ys" for z
      using that by fastforce
    with False show ?thesis by simp
  qed
qed

lemma dropWhile_less_filter:
  "strictly_sorted xs \<Longrightarrow> dropWhile (\<lambda>y. y < x) xs = filter (\<lambda>y. \<not> y < x) xs"
proof (induction xs)
  case Nil
  then show ?case by simp
next
  case (Cons y ys)
  show ?case
  proof (cases "y < x")
    case True
    with Cons show ?thesis by simp
  next
    case False
    with Cons.prems have "\<not> z < x" if "z \<in> set ys" for z
      using that by fastforce
    with False show ?thesis by simp
  qed
qed

lemma take_lower_bound: "strictly_sorted xs \<Longrightarrow> take (lower_bound x xs) xs = filter (\<lambda>y. y < x) xs"
  unfolding lower_bound_def takeWhile_eq_take[symmetric] by (rule takeWhile_less_filter)

lemma drop_lower_bound: "strictly_sorted xs \<Longrightarrow> drop (lower_bound x xs) xs = filter (\<lambda>y. \<not> y < x) xs"
  unfolding lower_bound_def dropWhile_eq_drop[symmetric] by (rule dropWhile_less_filter)

lemma lower_bound_nth:
  "lower_bound x xs < length xs \<Longrightarrow> \<not> xs ! lower_bound x xs < x"
  unfolding lower_bound_def by (rule nth_length_takeWhile)

lemma strictly_sorted_take: "strictly_sorted xs \<Longrightarrow> strictly_sorted (take n xs)"
  by (metis append_take_drop_id sorted_wrt_append)

lemma strictly_sorted_drop: "strictly_sorted xs \<Longrightarrow> strictly_sorted (drop n xs)"
  by (metis append_take_drop_id sorted_wrt_append)

section \<open>std::find and std::search\<close>

definition std_find :: "'a \<Rightarrow> 'a list \<Rightarrow> nat" where
  "std_find c xs = length (takeWhile (\<lambda>d. d \<noteq> c) xs)"

fun std_search :: "'a list \<Rightarrow> 'a list \<Rightarrow> nat" where
  "std_search pat [] = 0"
| "std_search pat (x # xs) = (if prefix pat (x # xs) then 0 else Suc (std_search pat xs))"

lemma std_find_le [simp]: "std_find c xs \<le> length xs"
  by (simp add: std_find_def length_takeWhile_le)

lemma std_find_hit: "std_find c xs < length xs \<Longrightarrow> xs ! std_find c xs = c"
  unfolding std_find_def using nth_length_takeWhile[of "\<lambda>d. d \<noteq> c" xs] by simp

lemma std_find_miss: "std_find c xs = length xs \<longleftrightarrow> c \<notin> set xs"
  by (induction xs) (auto simp: std_find_def)

lemma std_find_notin: "c \<notin> set xs \<Longrightarrow> std_find c (xs @ c # ys) = length xs"
  unfolding std_find_def by (subst takeWhile_append2) auto

lemma std_find_before: "j < std_find c xs \<Longrightarrow> xs ! j \<noteq> c"
proof (induction xs arbitrary: j)
  case Nil
  then show ?case by (simp add: std_find_def)
next
  case (Cons x xs)
  then show ?case by (cases j) (auto simp: std_find_def split: if_splits)
qed

lemma std_search_le [simp]: "std_search pat xs \<le> length xs"
  by (induction xs) auto

lemma std_search_hit:
  "std_search pat xs < length xs \<Longrightarrow> prefix pat (drop (std_search pat xs) xs)"
  by (induction xs) (auto split: if_splits)

lemma std_search_before:
  "j < std_search pat xs \<Longrightarrow> \<not> prefix pat (drop j xs)"
proof (induction xs arbitrary: j)
  case Nil
  then show ?case by simp
next
  case (Cons x xs)
  then show ?case by (cases j) (auto split: if_splits)
qed

lemma all_nat_split: "(\<forall>j::nat. P j) \<longleftrightarrow> P 0 \<and> (\<forall>j. P (Suc j))"
  by (auto intro: nat.induct)

lemma std_search_miss:
  "pat \<noteq> [] \<Longrightarrow> std_search pat xs = length xs \<longleftrightarrow> (\<forall>j. \<not> prefix pat (drop j xs))"
proof (induction xs)
  case Nil
  then show ?case by simp
next
  case (Cons x xs)
  have "(\<forall>j. \<not> prefix pat (drop j (x # xs))) \<longleftrightarrow>
        \<not> prefix pat (x # xs) \<and> (\<forall>j. \<not> prefix pat (drop j xs))"
    by (subst all_nat_split) simp
  with Cons show ?case by auto
qed

lemma std_search_hit_length:
  assumes "pat \<noteq> []" and "std_search pat xs < length xs"
  shows "std_search pat xs + length pat \<le> length xs"
  using prefix_length_le[OF std_search_hit[OF assms(2)]] assms(2) by simp

lemma prefix_append_iff: "length pat \<le> length xs \<Longrightarrow> prefix pat (xs @ ys) \<longleftrightarrow> prefix pat xs"
  by (simp add: prefix_def) (metis append_eq_append_conv_if append_take_drop_id)

lemma std_search_append_hit:
  assumes "std_search pat xs < length xs"
  shows "std_search pat (xs @ ys) = std_search pat xs"
  using assms
proof (induction xs)
  case Nil
  then show ?case by simp
next
  case (Cons x xs)
  show ?case
  proof (cases "prefix pat (x # xs)")
    case True
    then have "prefix pat ((x # xs) @ ys)" by (rule prefix_prefix)
    with True show ?thesis by simp
  next
    case False
    with Cons.prems have IHp: "std_search pat xs < length xs" by simp
    have "length pat \<le> length (drop (std_search pat xs) xs)"
      using std_search_hit[OF IHp] by (rule prefix_length_le)
    then have "length pat \<le> length (x # xs)" by simp
    with False have "\<not> prefix pat ((x # xs) @ ys)" by (subst prefix_append_iff) simp_all
    with False Cons.IH[OF IHp] show ?thesis by simp
  qed
qed

end
