(* ===== verification/Net_Endian.thy ===== *)
theory Net_Endian
  imports Muduo_Prelude
begin

text \<open>
  Byte order (\<open>muduo/net/Endian.h\<close>).  The object representation of an unsigned integer
  depends on the host's byte order; \<open>htobe\<close> and \<open>betoh\<close> of the C library swap bytes on a
  little-endian host and do nothing on a big-endian one.  Every definition takes the host's
  order as an argument, and the lemmas show that what reaches the wire does not depend on it.
\<close>

type_synonym byte = "8 word"

datatype host_order = Little_Endian | Big_Endian

fun bytes_be :: "nat \<Rightarrow> nat \<Rightarrow> byte list" where
  "bytes_be 0 k = []"
| "bytes_be (Suc n) k = bytes_be n (k div 256) @ [word_of_nat (k mod 256)]"

definition nat_of_be :: "byte list \<Rightarrow> nat" where
  "nat_of_be bs = foldl (\<lambda>a b. a * 256 + unat b) 0 bs"

text \<open>The bytes of an object in memory, and the object that given bytes represent.\<close>

definition obj_bytes :: "host_order \<Rightarrow> 'a::len word \<Rightarrow> byte list" where
  "obj_bytes e w = (case e of
       Big_Endian \<Rightarrow> bytes_be (LENGTH('a) div 8) (unat w)
     | Little_Endian \<Rightarrow> rev (bytes_be (LENGTH('a) div 8) (unat w)))"

definition obj_of_bytes :: "host_order \<Rightarrow> byte list \<Rightarrow> 'a::len word" where
  "obj_of_bytes e bs = word_of_nat (nat_of_be (case e of Big_Endian \<Rightarrow> bs | Little_Endian \<Rightarrow> rev bs))"

definition bswap :: "'a::len word \<Rightarrow> 'a word" where
  "bswap w = word_of_nat (nat_of_be (rev (bytes_be (LENGTH('a) div 8) (unat w))))"

definition htobe :: "host_order \<Rightarrow> 'a::len word \<Rightarrow> 'a word" where
  "htobe e w = (case e of Big_Endian \<Rightarrow> w | Little_Endian \<Rightarrow> bswap w)"

definition hostToNetwork64 :: "host_order \<Rightarrow> 64 word \<Rightarrow> 64 word" where
  "hostToNetwork64 e host64 = htobe e host64"

definition hostToNetwork32 :: "host_order \<Rightarrow> 32 word \<Rightarrow> 32 word" where
  "hostToNetwork32 e host32 = htobe e host32"

definition hostToNetwork16 :: "host_order \<Rightarrow> 16 word \<Rightarrow> 16 word" where
  "hostToNetwork16 e host16 = htobe e host16"

definition networkToHost64 :: "host_order \<Rightarrow> 64 word \<Rightarrow> 64 word" where
  "networkToHost64 e net64 = htobe e net64"

definition networkToHost32 :: "host_order \<Rightarrow> 32 word \<Rightarrow> 32 word" where
  "networkToHost32 e net32 = htobe e net32"

definition networkToHost16 :: "host_order \<Rightarrow> 16 word \<Rightarrow> 16 word" where
  "networkToHost16 e net16 = htobe e net16"

lemmas endian_defs =
  hostToNetwork64_def hostToNetwork32_def hostToNetwork16_def
  networkToHost64_def networkToHost32_def networkToHost16_def

section \<open>Big-endian numbers\<close>

lemma length_bytes_be [simp]: "length (bytes_be n k) = n"
  by (induction n k rule: bytes_be.induct) simp_all

lemma bytes_be_numeral:
  "bytes_be (numeral v) k = bytes_be (pred_numeral v) (k div 256) @ [word_of_nat (k mod 256)]"
  by (subst numeral_eq_Suc) (rule bytes_be.simps(2))

lemma nat_of_be_snoc [simp]: "nat_of_be (bs @ [b]) = nat_of_be bs * 256 + unat b"
  by (simp add: nat_of_be_def)

lemma nat_of_be_Nil [simp]: "nat_of_be [] = 0"
  by (simp add: nat_of_be_def)

lemma unat_byte_mod: "unat (word_of_nat (k mod 256) :: byte) = k mod 256"
  by (simp add: unsigned_of_nat take_bit_nat_eq_self_iff)

lemma unat_byte_less: "unat (b :: byte) < 256"
  using unsigned_less[of b, where ?'a = nat] by simp

lemma nat_of_be_bytes_be: "nat_of_be (bytes_be n k) = k mod 256 ^ n"
proof (induction n k rule: bytes_be.induct)
  case (1 k)
  then show ?case by simp
next
  case (2 n k)
  have "k mod 256 ^ Suc n = 256 * (k div 256 mod 256 ^ n) + k mod 256"
    by (simp add: mod_mult2_eq)
  with 2 show ?case by (simp add: unat_byte_mod)
qed

lemma nat_of_be_less: "nat_of_be bs < 256 ^ length bs"
proof (induction bs rule: rev_induct)
  case Nil
  then show ?case by simp
next
  case (snoc b bs)
  have "nat_of_be bs * 256 + unat b < Suc (nat_of_be bs) * 256"
    using unat_byte_less[of b] by simp
  also have "\<dots> \<le> 256 ^ length bs * 256"
    using snoc by (simp only: Suc_le_eq mult_le_mono1)
  finally show ?case by simp
qed

lemma bytes_be_nat_of_be: "length bs = n \<Longrightarrow> bytes_be n (nat_of_be bs) = bs"
proof (induction bs arbitrary: n rule: rev_induct)
  case Nil
  then show ?case by simp
next
  case (snoc b bs)
  then obtain m where n: "n = Suc m" and m: "length bs = m" by auto
  have "(nat_of_be bs * 256 + unat b) div 256 = nat_of_be bs"
    and "(nat_of_be bs * 256 + unat b) mod 256 = unat b"
    using unat_byte_less[of b] by simp_all
  with n snoc.IH[OF m] show ?case by simp
qed

section \<open>What reaches the wire\<close>

text \<open>
  Words of a whole number of bytes: what \<open>memcpy\<close> of a converted integer writes is its
  big-endian encoding, and conversely, whatever the host.
\<close>

lemma unat_of_be_bytes:
  assumes "8 * n = LENGTH('a::len)" and "length bs = n"
  shows "unat (word_of_nat (nat_of_be bs) :: 'a word) = nat_of_be bs"
proof -
  have "nat_of_be bs < 2 ^ LENGTH('a)"
    using nat_of_be_less[of bs] assms by (simp add: power_mult flip: assms(1))
  then show ?thesis by (simp add: unsigned_of_nat take_bit_nat_eq_self_iff)
qed

lemma bytes_be_unat:
  assumes "8 * n = LENGTH('a::len)"
  shows "word_of_nat (nat_of_be (bytes_be n (unat (w :: 'a word)))) = w"
proof -
  have "unat w < 256 ^ n"
    using unsigned_less[of w, where ?'a = nat] by (simp add: power_mult flip: assms)
  then show ?thesis by (simp add: nat_of_be_bytes_be)
qed

lemma obj_bytes_htobe:
  assumes "8 * n = LENGTH('a::len)"
  shows "obj_bytes e (htobe e (w :: 'a word)) = bytes_be n (unat w)"
proof -
  have n: "LENGTH('a) div 8 = n" using assms by simp
  show ?thesis
  proof (cases e)
    case Little_Endian
    have "unat (bswap w) = nat_of_be (rev (bytes_be n (unat w)))"
      unfolding bswap_def n by (rule unat_of_be_bytes[OF assms]) simp
    then have "bytes_be n (unat (bswap w)) = rev (bytes_be n (unat w))"
      by (simp add: bytes_be_nat_of_be)
    with Little_Endian show ?thesis by (simp add: obj_bytes_def htobe_def n)
  qed (simp add: obj_bytes_def htobe_def n)
qed

lemma betoh_obj_of_bytes:
  assumes "8 * n = LENGTH('a::len)" and "length bs = n"
  shows "htobe e (obj_of_bytes e bs :: 'a word) = word_of_nat (nat_of_be bs)"
proof -
  have n: "LENGTH('a) div 8 = n" using assms(1) by simp
  show ?thesis
  proof (cases e)
    case Little_Endian
    have "unat (obj_of_bytes e bs :: 'a word) = nat_of_be (rev bs)"
      unfolding obj_of_bytes_def using Little_Endian unat_of_be_bytes[OF assms(1), of "rev bs"] assms(2)
      by simp
    with Little_Endian show ?thesis
      by (simp add: htobe_def bswap_def n bytes_be_nat_of_be assms(2))
  qed (simp add: htobe_def obj_of_bytes_def)
qed

lemma length_obj_bytes [simp]: "length (obj_bytes e (w :: 'a::len word)) = LENGTH('a) div 8"
  by (cases e) (simp_all add: obj_bytes_def)

end
