(* ===== verification/Net_Buffer.thy ===== *)
theory Net_Buffer
  imports Net_Endian
begin

text \<open>
  The network buffer (\<open>muduo/net/Buffer.h\<close>, \<open>Buffer.cc\<close>).  State: the vector and the two
  indices.  A pointer into the buffer is its index in the vector.  Sizes are \<open>size_t\<close> with
  wrap-around; \<open>None\<close> is a failed \<open>assert\<close>, the exception of a vector that cannot grow, or
  an access outside the vector.  The abstraction is \<open>content\<close>, the readable bytes; the
  refinement lemmas say what every operation does to it, and the locale \<open>byte_stream\<close> states
  the contract the users of a buffer (the connection, the codecs, the HTTP parser) rely on.
\<close>

record buffer =
  buf :: "byte list"
  readerIndex :: nat
  writerIndex :: nat

text \<open>A \<open>StringPiece\<close>: the bytes that can be read at its pointer, and its \<open>int\<close> length.\<close>

record string_piece =
  sp_mem :: "byte list"
  sp_length :: int

definition piece_of_string :: "byte list \<Rightarrow> string_piece" where
  "piece_of_string s = \<lparr>sp_mem = s, sp_length = to_int32 (length s)\<rparr>"

text \<open>The bytes of a string literal.\<close>

definition bytes_of :: "string \<Rightarrow> byte list" where
  "bytes_of s = map (\<lambda>c. of_nat (of_char c)) s"

definition kCheapPrepend :: nat where
  "kCheapPrepend = 8"

definition kInitialSize :: nat where
  "kInitialSize = 1024"

definition kCRLF :: "byte list" where
  "kCRLF = [13, 10]"

definition readableBytes :: "buffer \<Rightarrow> nat" where
  "readableBytes b = usub (writerIndex b) (readerIndex b)"

definition writableBytes :: "buffer \<Rightarrow> nat" where
  "writableBytes b = usub (length (buf b)) (writerIndex b)"

definition prependableBytes :: "buffer \<Rightarrow> nat" where
  "prependableBytes b = readerIndex b"

definition peek :: "buffer \<Rightarrow> nat" where
  "peek b = readerIndex b"

definition beginWrite :: "buffer \<Rightarrow> nat" where
  "beginWrite b = writerIndex b"

definition new_Buffer :: "nat \<Rightarrow> buffer option" where
  "new_Buffer initialSize = do {
     v \<leftarrow> vec_resize 0 [] (uadd kCheapPrepend initialSize);
     let b = \<lparr>buf = v, readerIndex = kCheapPrepend, writerIndex = kCheapPrepend\<rparr>;
     assert_that (readableBytes b = 0);
     assert_that (writableBytes b = initialSize);
     assert_that (prependableBytes b = kCheapPrepend);
     Some b
   }"

definition swap :: "buffer \<Rightarrow> buffer \<Rightarrow> buffer \<times> buffer" where
  "swap this rhs =
     (this\<lparr>buf := buf rhs, readerIndex := readerIndex rhs, writerIndex := writerIndex rhs\<rparr>,
      rhs\<lparr>buf := buf this, readerIndex := readerIndex this, writerIndex := writerIndex this\<rparr>)"

definition findCRLF :: "buffer \<Rightarrow> nat option" where
  "findCRLF b =
     (let crlf = peek b + std_search kCRLF (vec_range (buf b) (peek b) (beginWrite b))
      in if crlf = beginWrite b then None else Some crlf)"

definition findCRLF_from :: "buffer \<Rightarrow> nat \<Rightarrow> nat option option" where
  "findCRLF_from b start = do {
     assert_that (peek b \<le> start);
     assert_that (start \<le> beginWrite b);
     let crlf = start + std_search kCRLF (vec_range (buf b) start (beginWrite b));
     Some (if crlf = beginWrite b then None else Some crlf)
   }"

definition memchr :: "byte list \<Rightarrow> nat \<Rightarrow> byte \<Rightarrow> nat \<Rightarrow> nat option" where
  "memchr v start c n =
     (let off = std_find c (vec_range v start (start + n))
      in if off < n then Some (start + off) else None)"

definition findEOL :: "buffer \<Rightarrow> nat option" where
  "findEOL b = memchr (buf b) (peek b) 10 (readableBytes b)"

definition findEOL_from :: "buffer \<Rightarrow> nat \<Rightarrow> nat option option" where
  "findEOL_from b start = do {
     assert_that (peek b \<le> start);
     assert_that (start \<le> beginWrite b);
     Some (memchr (buf b) start 10 (beginWrite b - start))
   }"

definition retrieveAll :: "buffer \<Rightarrow> buffer" where
  "retrieveAll b = b\<lparr>readerIndex := kCheapPrepend, writerIndex := kCheapPrepend\<rparr>"

definition retrieve :: "buffer \<Rightarrow> nat \<Rightarrow> buffer option" where
  "retrieve b len = do {
     assert_that (len \<le> readableBytes b);
     Some (if len < readableBytes b
           then b\<lparr>readerIndex := uadd (readerIndex b) len\<rparr>
           else retrieveAll b)
   }"

definition retrieveUntil :: "buffer \<Rightarrow> nat \<Rightarrow> buffer option" where
  "retrieveUntil b endp = do {
     assert_that (peek b \<le> endp);
     assert_that (endp \<le> beginWrite b);
     retrieve b (endp - peek b)
   }"

definition retrieveInt64 :: "buffer \<Rightarrow> buffer option" where
  "retrieveInt64 b = retrieve b 8"

definition retrieveInt32 :: "buffer \<Rightarrow> buffer option" where
  "retrieveInt32 b = retrieve b 4"

definition retrieveInt16 :: "buffer \<Rightarrow> buffer option" where
  "retrieveInt16 b = retrieve b 2"

definition retrieveInt8 :: "buffer \<Rightarrow> buffer option" where
  "retrieveInt8 b = retrieve b 1"

definition retrieveAsString :: "buffer \<Rightarrow> nat \<Rightarrow> (byte list \<times> buffer) option" where
  "retrieveAsString b len = do {
     assert_that (len \<le> readableBytes b);
     let result = vec_range (buf b) (peek b) (peek b + len);
     b' \<leftarrow> retrieve b len;
     Some (result, b')
   }"

definition retrieveAllAsString :: "buffer \<Rightarrow> (byte list \<times> buffer) option" where
  "retrieveAllAsString b = retrieveAsString b (readableBytes b)"

definition toStringPiece :: "buffer \<Rightarrow> string_piece" where
  "toStringPiece b = \<lparr>sp_mem = drop (peek b) (buf b), sp_length = to_int32 (readableBytes b)\<rparr>"

definition hasWritten :: "buffer \<Rightarrow> nat \<Rightarrow> buffer option" where
  "hasWritten b len = do {
     assert_that (len \<le> writableBytes b);
     Some (b\<lparr>writerIndex := uadd (writerIndex b) len\<rparr>)
   }"

definition unwrite :: "buffer \<Rightarrow> nat \<Rightarrow> buffer option" where
  "unwrite b len = do {
     assert_that (len \<le> readableBytes b);
     Some (b\<lparr>writerIndex := usub (writerIndex b) len\<rparr>)
   }"

definition makeSpace :: "buffer \<Rightarrow> nat \<Rightarrow> buffer option" where
  "makeSpace b len =
     (if uadd (writableBytes b) (prependableBytes b) < uadd len kCheapPrepend then do {
        v \<leftarrow> vec_resize 0 (buf b) (uadd (writerIndex b) len);
        Some (b\<lparr>buf := v\<rparr>)
      } else do {
        assert_that (kCheapPrepend < readerIndex b);
        let readable = readableBytes b;
        v \<leftarrow> vec_write (buf b) kCheapPrepend (vec_range (buf b) (readerIndex b) (writerIndex b));
        let b' = b\<lparr>buf := v, readerIndex := kCheapPrepend,
                   writerIndex := uadd kCheapPrepend readable\<rparr>;
        assert_that (readable = readableBytes b');
        Some b'
      })"

definition ensureWritableBytes :: "buffer \<Rightarrow> nat \<Rightarrow> buffer option" where
  "ensureWritableBytes b len = do {
     b' \<leftarrow> (if writableBytes b < len then makeSpace b len else Some b);
     assert_that (len \<le> writableBytes b');
     Some b'
   }"

definition append :: "buffer \<Rightarrow> byte list \<Rightarrow> nat \<Rightarrow> buffer option" where
  "append b data len = do {
     b1 \<leftarrow> ensureWritableBytes b len;
     assert_that (len \<le> length data);
     v \<leftarrow> vec_write (buf b1) (beginWrite b1) (take len data);
     hasWritten (b1\<lparr>buf := v\<rparr>) len
   }"

definition append_piece :: "buffer \<Rightarrow> string_piece \<Rightarrow> buffer option" where
  "append_piece b str = append b (sp_mem str) (of_int32 (sp_length str))"

definition appendInt64 :: "host_order \<Rightarrow> buffer \<Rightarrow> 64 word \<Rightarrow> buffer option" where
  "appendInt64 e b x = (let be64 = hostToNetwork64 e x in append b (obj_bytes e be64) 8)"

definition appendInt32 :: "host_order \<Rightarrow> buffer \<Rightarrow> 32 word \<Rightarrow> buffer option" where
  "appendInt32 e b x = (let be32 = hostToNetwork32 e x in append b (obj_bytes e be32) 4)"

definition appendInt16 :: "host_order \<Rightarrow> buffer \<Rightarrow> 16 word \<Rightarrow> buffer option" where
  "appendInt16 e b x = (let be16 = hostToNetwork16 e x in append b (obj_bytes e be16) 2)"

definition appendInt8 :: "buffer \<Rightarrow> 8 word \<Rightarrow> buffer option" where
  "appendInt8 b x = append b [x] 1"

text \<open>\<open>memcpy\<close> of \<open>n\<close> readable bytes into an integer; reading past the vector is \<open>None\<close>.\<close>

definition peek_bytes :: "buffer \<Rightarrow> nat \<Rightarrow> byte list option" where
  "peek_bytes b n = do {
     assert_that (n \<le> readableBytes b);
     assert_that (peek b + n \<le> length (buf b));
     Some (vec_range (buf b) (peek b) (peek b + n))
   }"

definition peekInt64 :: "host_order \<Rightarrow> buffer \<Rightarrow> 64 word option" where
  "peekInt64 e b = do {
     bs \<leftarrow> peek_bytes b 8;
     let be64 = obj_of_bytes e bs;
     Some (networkToHost64 e be64)
   }"

definition peekInt32 :: "host_order \<Rightarrow> buffer \<Rightarrow> 32 word option" where
  "peekInt32 e b = do {
     bs \<leftarrow> peek_bytes b 4;
     let be32 = obj_of_bytes e bs;
     Some (networkToHost32 e be32)
   }"

definition peekInt16 :: "host_order \<Rightarrow> buffer \<Rightarrow> 16 word option" where
  "peekInt16 e b = do {
     bs \<leftarrow> peek_bytes b 2;
     let be16 = obj_of_bytes e bs;
     Some (networkToHost16 e be16)
   }"

definition peekInt8 :: "buffer \<Rightarrow> 8 word option" where
  "peekInt8 b = do {
     bs \<leftarrow> peek_bytes b 1;
     Some (hd bs)
   }"

definition readInt64 :: "host_order \<Rightarrow> buffer \<Rightarrow> (64 word \<times> buffer) option" where
  "readInt64 e b = do {
     result \<leftarrow> peekInt64 e b;
     b' \<leftarrow> retrieveInt64 b;
     Some (result, b')
   }"

definition readInt32 :: "host_order \<Rightarrow> buffer \<Rightarrow> (32 word \<times> buffer) option" where
  "readInt32 e b = do {
     result \<leftarrow> peekInt32 e b;
     b' \<leftarrow> retrieveInt32 b;
     Some (result, b')
   }"

definition readInt16 :: "host_order \<Rightarrow> buffer \<Rightarrow> (16 word \<times> buffer) option" where
  "readInt16 e b = do {
     result \<leftarrow> peekInt16 e b;
     b' \<leftarrow> retrieveInt16 b;
     Some (result, b')
   }"

definition readInt8 :: "buffer \<Rightarrow> (8 word \<times> buffer) option" where
  "readInt8 b = do {
     result \<leftarrow> peekInt8 b;
     b' \<leftarrow> retrieveInt8 b;
     Some (result, b')
   }"

definition prepend :: "buffer \<Rightarrow> byte list \<Rightarrow> nat \<Rightarrow> buffer option" where
  "prepend b data len = do {
     assert_that (len \<le> prependableBytes b);
     let b1 = b\<lparr>readerIndex := usub (readerIndex b) len\<rparr>;
     assert_that (len \<le> length data);
     v \<leftarrow> vec_write (buf b1) (readerIndex b1) (take len data);
     Some (b1\<lparr>buf := v\<rparr>)
   }"

definition prependInt64 :: "host_order \<Rightarrow> buffer \<Rightarrow> 64 word \<Rightarrow> buffer option" where
  "prependInt64 e b x = (let be64 = hostToNetwork64 e x in prepend b (obj_bytes e be64) 8)"

definition prependInt32 :: "host_order \<Rightarrow> buffer \<Rightarrow> 32 word \<Rightarrow> buffer option" where
  "prependInt32 e b x = (let be32 = hostToNetwork32 e x in prepend b (obj_bytes e be32) 4)"

definition prependInt16 :: "host_order \<Rightarrow> buffer \<Rightarrow> 16 word \<Rightarrow> buffer option" where
  "prependInt16 e b x = (let be16 = hostToNetwork16 e x in prepend b (obj_bytes e be16) 2)"

definition prependInt8 :: "buffer \<Rightarrow> 8 word \<Rightarrow> buffer option" where
  "prependInt8 b x = prepend b [x] 1"

definition shrink :: "buffer \<Rightarrow> nat \<Rightarrow> buffer option" where
  "shrink b reserve = do {
     other \<leftarrow> new_Buffer kInitialSize;
     other1 \<leftarrow> ensureWritableBytes other (uadd (readableBytes b) reserve);
     other2 \<leftarrow> append_piece other1 (toStringPiece b);
     Some (fst (swap b other2))
   }"

text \<open>
  The result of \<open>readv\<close>: \<open>Inl errno\<close>, or the bytes it scattered over the two vectors.
  \<open>readFd\<close> returns the number of bytes (or -1), the saved \<open>errno\<close>, and the new buffer.
\<close>

type_synonym read_result = "int + byte list"

definition extrabuf_size :: nat where
  "extrabuf_size = 65536"

definition readv_capacity :: "buffer \<Rightarrow> nat" where
  "readv_capacity b =
     (let writable = writableBytes b
      in if writable < extrabuf_size then writable + extrabuf_size else writable)"

definition readFd :: "buffer \<Rightarrow> read_result \<Rightarrow> (int \<times> int option \<times> buffer) option" where
  "readFd b r = (let writable = writableBytes b in case r of
       Inl err \<Rightarrow> Some (-1, Some err, b)
     | Inr bs \<Rightarrow>
        let n = length bs in
        if n \<le> writable then do {
          v \<leftarrow> vec_write (buf b) (writerIndex b) bs;
          Some (int n, None, b\<lparr>buf := v, writerIndex := uadd (writerIndex b) n\<rparr>)
        } else do {
          v \<leftarrow> vec_write (buf b) (writerIndex b) (take writable bs);
          let b1 = b\<lparr>buf := v, writerIndex := length v\<rparr>;
          let extrabuf = drop writable bs;
          assert_that (length extrabuf \<le> extrabuf_size);
          b2 \<leftarrow> append b1 extrabuf (n - writable);
          Some (int n, None, b2)
        })"

section \<open>Invariant and abstraction\<close>

definition buffer_wf :: "buffer \<Rightarrow> bool" where
  "buffer_wf b \<longleftrightarrow>
     kCheapPrepend \<le> length (buf b) \<and> readerIndex b \<le> writerIndex b \<and>
     writerIndex b \<le> length (buf b) \<and> length (buf b) \<le> vec_max"

definition content :: "buffer \<Rightarrow> byte list" where
  "content b = vec_range (buf b) (readerIndex b) (writerIndex b)"

text \<open>Under the invariant the sizes are plain differences.\<close>

lemma buffer_wf_bounds:
  assumes "buffer_wf b"
  shows "readerIndex b \<le> writerIndex b" "writerIndex b \<le> length (buf b)"
    "length (buf b) \<le> vec_max" "kCheapPrepend \<le> length (buf b)" "length (buf b) < size_limit"
  using assms vec_max_less by (auto simp: buffer_wf_def simp del: vec_max_less)

lemma readableBytes_wf: "buffer_wf b \<Longrightarrow> readableBytes b = writerIndex b - readerIndex b"
  using buffer_wf_bounds[of b] by (simp add: readableBytes_def size_simps)

lemma writableBytes_wf: "buffer_wf b \<Longrightarrow> writableBytes b = length (buf b) - writerIndex b"
  using buffer_wf_bounds[of b] by (simp add: writableBytes_def size_simps)

lemma length_content: "buffer_wf b \<Longrightarrow> length (content b) = writerIndex b - readerIndex b"
  by (simp add: content_def buffer_wf_def)

lemma readableBytes_content: "buffer_wf b \<Longrightarrow> readableBytes b = length (content b)"
  by (simp add: length_content readableBytes_wf)

lemmas wf_sizes = readableBytes_wf writableBytes_wf

lemma kCheapPrepend_small [simp]: "kCheapPrepend < size_limit" "kCheapPrepend \<le> vec_max"
  by (simp_all add: kCheapPrepend_def size_limit_def vec_max_def)

lemma new_Buffer_ok:
  assumes "kCheapPrepend + n \<le> vec_max"
  shows "\<exists>b. new_Buffer n = Some b \<and> buffer_wf b \<and> content b = [] \<and>
             readerIndex b = kCheapPrepend \<and> length (buf b) = kCheapPrepend + n"
proof -
  let ?b = "\<lparr>buf = replicate (kCheapPrepend + n) 0, readerIndex = kCheapPrepend,
             writerIndex = kCheapPrepend\<rparr> :: buffer"
  have "kCheapPrepend + n < size_limit" using assms vec_max_less(1) by linarith
  then have u: "uadd kCheapPrepend n = kCheapPrepend + n" by (rule uadd_exact)
  have wf: "buffer_wf ?b" using assms by (simp add: buffer_wf_def)
  have "readableBytes ?b = 0" "writableBytes ?b = n" "prependableBytes ?b = kCheapPrepend"
    using wf by (simp_all add: wf_sizes prependableBytes_def)
  then have "new_Buffer n = Some ?b"
    using assms by (simp add: new_Buffer_def vec_resize_def u)
  with wf show ?thesis by (simp add: content_def)
qed

section \<open>Reading\<close>

lemma retrieveAll_wf:
  "buffer_wf b \<Longrightarrow> buffer_wf (retrieveAll b)" "content (retrieveAll b) = []"
  by (simp_all add: buffer_wf_def retrieveAll_def content_def)

lemma retrieve_ok:
  assumes "buffer_wf b" and "n \<le> length (content b)"
  shows "\<exists>b'. retrieve b n = Some b' \<and> buffer_wf b' \<and> content b' = drop n (content b)"
proof (cases "n < length (content b)")
  case True
  note B = buffer_wf_bounds[OF assms(1)]
  have "uadd (readerIndex b) n = readerIndex b + n"
    by (rule uadd_exact) (use True B length_content[OF assms(1)] in linarith)
  moreover have "readerIndex b + n \<le> writerIndex b"
    using True length_content[OF assms(1)] by simp
  ultimately show ?thesis
    using assms True B
    by (simp add: retrieve_def readableBytes_content buffer_wf_def content_def vec_range_drop)
next
  case False
  with assms show ?thesis
    by (simp add: retrieve_def readableBytes_content retrieveAll_wf)
qed

lemma retrieve_fails: "buffer_wf b \<Longrightarrow> length (content b) < n \<Longrightarrow> retrieve b n = None"
  by (simp add: retrieve_def readableBytes_content)

lemma retrieveUntil_ok:
  assumes "buffer_wf b" and "n \<le> length (content b)"
  shows "\<exists>b'. retrieveUntil b (peek b + n) = Some b' \<and> buffer_wf b' \<and> content b' = drop n (content b)"
proof -
  have "peek b + n \<le> beginWrite b"
    using assms length_content[OF assms(1)] buffer_wf_bounds(1)[OF assms(1)]
    by (simp add: peek_def beginWrite_def)
  then have "retrieveUntil b (peek b + n) = retrieve b n"
    by (simp add: retrieveUntil_def)
  with retrieve_ok[OF assms] show ?thesis by simp
qed

lemma content_take: "n \<le> writerIndex b - readerIndex b \<Longrightarrow>
   vec_range (buf b) (peek b) (peek b + n) = take n (content b)"
  by (simp add: content_def peek_def vec_range_take)

lemma retrieveAsString_ok:
  assumes "buffer_wf b" and "n \<le> length (content b)"
  shows "\<exists>b'. retrieveAsString b n = Some (take n (content b), b') \<and> buffer_wf b' \<and>
              content b' = drop n (content b)"
  using retrieve_ok[OF assms] assms length_content[OF assms(1)]
  by (auto simp: retrieveAsString_def readableBytes_content content_take)

lemma peek_bytes_ok:
  assumes "buffer_wf b" and "n \<le> length (content b)"
  shows "peek_bytes b n = Some (take n (content b))"
proof -
  have "peek b + n \<le> length (buf b)"
    using assms length_content[OF assms(1)] buffer_wf_bounds[OF assms(1)] by (simp add: peek_def)
  with assms length_content[OF assms(1)] show ?thesis
    by (simp add: peek_bytes_def readableBytes_content content_take)
qed

section \<open>Making room\<close>

lemma makeSpace_ok:
  assumes wf: "buffer_wf b" and full: "writableBytes b < n" and fits: "writerIndex b + n \<le> vec_max"
  shows "\<exists>b'. makeSpace b n = Some b' \<and> buffer_wf b' \<and> content b' = content b \<and> n \<le> writableBytes b'"
proof -
  note B = buffer_wf_bounds[OF wf]
  have "writableBytes b + readerIndex b < size_limit"
    using B by (simp add: writableBytes_wf[OF wf])
  then have u0: "uadd (writableBytes b) (prependableBytes b) = writableBytes b + readerIndex b"
    unfolding prependableBytes_def by (rule uadd_exact)
  have u: "uadd n kCheapPrepend = n + kCheapPrepend" "uadd (writerIndex b) n = writerIndex b + n"
    using fits kCheapPrepend_small vec_max_double[of n kCheapPrepend] vec_max_less(1)
    by (auto simp del: vec_max_less intro!: uadd_exact)
  show ?thesis
  proof (cases "writableBytes b + readerIndex b < n + kCheapPrepend")
    case True
    let ?v = "buf b @ replicate (writerIndex b + n - length (buf b)) 0"
    have "length (buf b) \<le> writerIndex b + n"
      using full B by (simp add: writableBytes_wf[OF wf])
    then have v: "vec_resize 0 (buf b) (writerIndex b + n) = Some ?v" and
      len: "length ?v = writerIndex b + n"
      using fits by (simp_all add: vec_resize_def)
    have wf': "buffer_wf (b\<lparr>buf := ?v\<rparr>)"
      using wf fits len by (auto simp: buffer_wf_def)
    have "content (b\<lparr>buf := ?v\<rparr>) = content b"
      using B by (simp add: content_def vec_range_resize)
    moreover have "n \<le> writableBytes (b\<lparr>buf := ?v\<rparr>)"
      using wf' len by (simp add: writableBytes_wf)
    ultimately show ?thesis using True v wf' by (simp add: makeSpace_def u0 u)
  next
    case False
    with full have rd: "kCheapPrepend < readerIndex b" by simp
    let ?c = "content b"
    let ?v = "take kCheapPrepend (buf b) @ ?c @ drop (kCheapPrepend + length ?c) (buf b)"
    let ?b = "b\<lparr>buf := ?v, readerIndex := kCheapPrepend, writerIndex := kCheapPrepend + length ?c\<rparr>"
    have lc: "kCheapPrepend + length ?c \<le> length (buf b)"
      using rd B by (simp add: length_content[OF wf])
    then have w: "vec_write (buf b) kCheapPrepend ?c = Some ?v" and lv: "length ?v = length (buf b)"
      by (simp_all add: vec_write_def)
    have ua: "uadd kCheapPrepend (length ?c) = kCheapPrepend + length ?c"
      using lc B(5) by (intro uadd_exact) linarith
    have wf': "buffer_wf ?b" using wf lc lv by (simp add: buffer_wf_def)
    have c: "content ?b = ?c"
      unfolding content_def[of ?b] using vec_range_write_in[OF lc] by simp
    have "readableBytes b = readableBytes ?b"
      using wf wf' c by (simp add: readableBytes_content)
    moreover have "writableBytes ?b = length (buf b) - (kCheapPrepend + length ?c)"
      unfolding writableBytes_wf[OF wf'] using lv by simp
    then have "n \<le> writableBytes ?b"
      using False B lc by (simp add: writableBytes_wf[OF wf] length_content[OF wf])
    ultimately show ?thesis
      using False rd w ua wf' c
      by (simp add: makeSpace_def u0 u readableBytes_content[OF wf] Let_def flip: content_def)
  qed
qed

lemma ensureWritableBytes_ok:
  assumes "buffer_wf b" and "writerIndex b + n \<le> vec_max"
  shows "\<exists>b'. ensureWritableBytes b n = Some b' \<and> buffer_wf b' \<and> content b' = content b \<and>
              n \<le> writableBytes b'"
proof (cases "writableBytes b < n")
  case True
  with makeSpace_ok[OF assms(1) True assms(2)] show ?thesis
    by (auto simp: ensureWritableBytes_def)
next
  case False
  with assms show ?thesis by (simp add: ensureWritableBytes_def)
qed

section \<open>Writing\<close>

lemma hasWritten_write:
  assumes wf: "buffer_wf b" and room: "length d \<le> writableBytes b"
  shows "\<exists>v. vec_write (buf b) (writerIndex b) d = Some v \<and>
           uadd (writerIndex b) (length d) = writerIndex b + length d \<and>
           length v = length (buf b) \<and>
           buffer_wf (b\<lparr>buf := v, writerIndex := writerIndex b + length d\<rparr>) \<and>
           content (b\<lparr>buf := v, writerIndex := writerIndex b + length d\<rparr>) = content b @ d"
proof -
  note B = buffer_wf_bounds[OF wf]
  let ?v = "take (writerIndex b) (buf b) @ d @ drop (writerIndex b + length d) (buf b)"
  have le: "writerIndex b + length d \<le> length (buf b)"
    using room B by (simp add: writableBytes_wf[OF wf])
  then have "vec_write (buf b) (writerIndex b) d = Some ?v" and "length ?v = length (buf b)"
    by (simp_all add: vec_write_def)
  moreover have "uadd (writerIndex b) (length d) = writerIndex b + length d"
    using le B by (intro uadd_exact) linarith
  moreover have "buffer_wf (b\<lparr>buf := ?v, writerIndex := writerIndex b + length d\<rparr>)"
    using wf le by (auto simp: buffer_wf_def)
  moreover have "content (b\<lparr>buf := ?v, writerIndex := writerIndex b + length d\<rparr>) = content b @ d"
    using vec_range_write_end[OF B(1) le] by (simp add: content_def)
  ultimately show ?thesis by blast
qed

lemma append_ok:
  assumes wf: "buffer_wf b" and fits: "writerIndex b + length d \<le> vec_max"
  shows "\<exists>b'. append b d (length d) = Some b' \<and> buffer_wf b' \<and> content b' = content b @ d"
proof -
  obtain b1 where b1: "ensureWritableBytes b (length d) = Some b1" and wf1: "buffer_wf b1"
    and c1: "content b1 = content b" and room: "length d \<le> writableBytes b1"
    using ensureWritableBytes_ok[OF wf fits] by blast
  obtain v where v: "vec_write (buf b1) (writerIndex b1) d = Some v"
    and u: "uadd (writerIndex b1) (length d) = writerIndex b1 + length d"
    and lv: "length v = length (buf b1)"
    and wf2: "buffer_wf (b1\<lparr>buf := v, writerIndex := writerIndex b1 + length d\<rparr>)"
    and c2: "content (b1\<lparr>buf := v, writerIndex := writerIndex b1 + length d\<rparr>) = content b1 @ d"
    using hasWritten_write[OF wf1 room] by blast
  have "writableBytes (b1\<lparr>buf := v\<rparr>) = writableBytes b1"
    by (simp add: writableBytes_def lv)
  with b1 v u room have "append b d (length d) = Some (b1\<lparr>buf := v, writerIndex := writerIndex b1 + length d\<rparr>)"
    by (simp add: append_def hasWritten_def beginWrite_def)
  with wf2 c2 c1 show ?thesis by simp
qed

lemma append_piece_ok:
  assumes "buffer_wf b" and "writerIndex b + length d \<le> vec_max" and "length d < 2 ^ 31"
  shows "\<exists>b'. append_piece b (piece_of_string d) = Some b' \<and> buffer_wf b' \<and> content b' = content b @ d"
proof -
  have "length d < size_limit" using assms(3) by (simp add: size_limit_def)
  with assms(3) have "of_int32 (to_int32 (length d)) = length d" by (simp add: size_simps)
  then show ?thesis
    using append_ok[OF assms(1,2)] by (simp add: append_piece_def piece_of_string_def)
qed

lemma unwrite_ok:
  assumes "buffer_wf b" and "n \<le> length (content b)"
  shows "\<exists>b'. unwrite b n = Some b' \<and> buffer_wf b' \<and>
              content b' = take (length (content b) - n) (content b)"
proof -
  note B = buffer_wf_bounds[OF assms(1)]
  have le: "readerIndex b + n \<le> writerIndex b"
    using assms B by (simp add: length_content)
  have "usub (writerIndex b) n = writerIndex b - n"
    using le B by (intro usub_exact) linarith+
  then have "unwrite b n = Some (b\<lparr>writerIndex := writerIndex b - n\<rparr>)"
    using assms by (simp add: unwrite_def readableBytes_content)
  moreover have "buffer_wf (b\<lparr>writerIndex := writerIndex b - n\<rparr>)"
    using assms(1) le by (auto simp: buffer_wf_def)
  moreover have "content (b\<lparr>writerIndex := writerIndex b - n\<rparr>)
      = take (length (content b) - n) (content b)"
    using le by (simp add: content_def vec_range_take_end length_content[OF assms(1), unfolded content_def])
  ultimately show ?thesis by blast
qed

lemma prepend_ok:
  assumes wf: "buffer_wf b" and room: "length d \<le> prependableBytes b"
  shows "\<exists>b'. prepend b d (length d) = Some b' \<and> buffer_wf b' \<and> content b' = d @ content b \<and>
              readerIndex b' = readerIndex b - length d \<and> writerIndex b' = writerIndex b"
proof -
  note B = buffer_wf_bounds[OF wf]
  let ?i = "readerIndex b - length d"
  let ?v = "take ?i (buf b) @ d @ drop (readerIndex b) (buf b)"
  have le: "length d \<le> readerIndex b" using room by (simp add: prependableBytes_def)
  have u: "usub (readerIndex b) (length d) = ?i"
    using le B by (intro usub_exact) linarith+
  have v: "vec_write (buf b) ?i d = Some ?v" "length ?v = length (buf b)"
    using le B by (simp_all add: vec_write_def)
  have "prepend b d (length d) = Some (b\<lparr>buf := ?v, readerIndex := ?i\<rparr>)"
    using room u v by (simp add: prepend_def)
  moreover have "buffer_wf (b\<lparr>buf := ?v, readerIndex := ?i\<rparr>)"
    using wf v by (auto simp: buffer_wf_def)
  moreover have "content (b\<lparr>buf := ?v, readerIndex := ?i\<rparr>) = d @ content b"
    using vec_range_write_front[OF le B(1,2)] by (simp add: content_def)
  ultimately show ?thesis by auto
qed

lemma prepend_refused: "prependableBytes b < n \<Longrightarrow> prepend b d n = None"
  by (simp add: prepend_def)

section \<open>Searching\<close>

lemma findCRLF_content:
  assumes "buffer_wf b"
  shows "findCRLF b = (let i = std_search kCRLF (content b)
                       in if i = length (content b) then None else Some (peek b + i))"
  using buffer_wf_bounds[OF assms] length_content[OF assms]
  by (auto simp: findCRLF_def content_def[symmetric] peek_def beginWrite_def Let_def)

lemma kCRLF_not_Nil [simp]: "kCRLF \<noteq> []" and length_kCRLF [simp]: "length kCRLF = 2"
  by (simp_all add: kCRLF_def)

lemma memchr_content:
  assumes "n \<le> writerIndex b - readerIndex b"
  shows "memchr (buf b) (peek b) c n =
         (let i = std_find c (take n (content b)) in if i < n then Some (peek b + i) else None)"
  by (simp add: memchr_def content_take[OF assms])

lemma findEOL_content:
  assumes "buffer_wf b"
  shows "findEOL b = (let i = std_find 10 (content b)
                      in if i < length (content b) then Some (peek b + i) else None)"
  using assms by (simp add: findEOL_def memchr_content readableBytes_wf length_content)

section \<open>Integers\<close>

lemma append_int_ok:
  assumes "buffer_wf b" and "writerIndex b + n \<le> vec_max" and "8 * n = LENGTH('a::len)"
  shows "\<exists>b'. append b (obj_bytes e (htobe e (x :: 'a word))) n = Some b' \<and> buffer_wf b' \<and>
              content b' = content b @ bytes_be n (unat x)"
  using append_ok[OF assms(1), of "bytes_be n (unat x)"] assms(2)
  by (simp add: obj_bytes_htobe[OF assms(3)])

lemma prepend_int_ok:
  assumes "buffer_wf b" and "n \<le> prependableBytes b" and "8 * n = LENGTH('a::len)"
  shows "\<exists>b'. prepend b (obj_bytes e (htobe e (x :: 'a word))) n = Some b' \<and> buffer_wf b' \<and>
              content b' = bytes_be n (unat x) @ content b"
  using prepend_ok[OF assms(1), of "bytes_be n (unat x)"] assms(2)
  by (auto simp: obj_bytes_htobe[OF assms(3)])

lemma peek_int_ok:
  assumes "buffer_wf b" and "content b = bytes_be n (unat (x :: 'a::len word)) @ rest"
    and "8 * n = LENGTH('a)"
  shows "peek_bytes b n = Some (bytes_be n (unat x))"
    and "htobe e (obj_of_bytes e (bytes_be n (unat x)) :: 'a word) = x"
  using peek_bytes_ok[OF assms(1), of n] assms(2) betoh_obj_of_bytes[OF assms(3)] bytes_be_unat[OF assms(3)]
  by simp_all

lemma appendInt_ok:
  assumes "buffer_wf b" and "writerIndex b + 8 \<le> vec_max"
  shows "\<exists>b'. appendInt64 e b x64 = Some b' \<and> buffer_wf b' \<and> content b' = content b @ bytes_be 8 (unat x64)"
    and "\<exists>b'. appendInt32 e b x32 = Some b' \<and> buffer_wf b' \<and> content b' = content b @ bytes_be 4 (unat x32)"
    and "\<exists>b'. appendInt16 e b x16 = Some b' \<and> buffer_wf b' \<and> content b' = content b @ bytes_be 2 (unat x16)"
    and "\<exists>b'. appendInt8 b x8 = Some b' \<and> buffer_wf b' \<and> content b' = content b @ [x8]"
proof -
  show "\<exists>b'. appendInt64 e b x64 = Some b' \<and> buffer_wf b' \<and> content b' = content b @ bytes_be 8 (unat x64)"
    using append_int_ok[OF assms(1), of 8 e x64] assms(2) by (simp add: appendInt64_def endian_defs)
  show "\<exists>b'. appendInt32 e b x32 = Some b' \<and> buffer_wf b' \<and> content b' = content b @ bytes_be 4 (unat x32)"
    using append_int_ok[OF assms(1), of 4 e x32] assms(2) by (simp add: appendInt32_def endian_defs)
  show "\<exists>b'. appendInt16 e b x16 = Some b' \<and> buffer_wf b' \<and> content b' = content b @ bytes_be 2 (unat x16)"
    using append_int_ok[OF assms(1), of 2 e x16] assms(2) by (simp add: appendInt16_def endian_defs)
  show "\<exists>b'. appendInt8 b x8 = Some b' \<and> buffer_wf b' \<and> content b' = content b @ [x8]"
    using append_ok[OF assms(1), of "[x8]"] assms(2) by (simp add: appendInt8_def)
qed

lemma prependInt_ok:
  assumes "buffer_wf b"
  shows "8 \<le> prependableBytes b \<Longrightarrow>
      \<exists>b'. prependInt64 e b x64 = Some b' \<and> buffer_wf b' \<and> content b' = bytes_be 8 (unat x64) @ content b"
    and "4 \<le> prependableBytes b \<Longrightarrow>
      \<exists>b'. prependInt32 e b x32 = Some b' \<and> buffer_wf b' \<and> content b' = bytes_be 4 (unat x32) @ content b"
    and "2 \<le> prependableBytes b \<Longrightarrow>
      \<exists>b'. prependInt16 e b x16 = Some b' \<and> buffer_wf b' \<and> content b' = bytes_be 2 (unat x16) @ content b"
    and "1 \<le> prependableBytes b \<Longrightarrow>
      \<exists>b'. prependInt8 b x8 = Some b' \<and> buffer_wf b' \<and> content b' = x8 # content b"
  using prepend_int_ok[OF assms, of 8 e x64] prepend_int_ok[OF assms, of 4 e x32]
    prepend_int_ok[OF assms, of 2 e x16] prepend_ok[OF assms, of "[x8]"]
  by (auto simp: prependInt64_def prependInt32_def prependInt16_def prependInt8_def endian_defs)

lemma readInt_ok:
  assumes "buffer_wf b"
  shows "content b = bytes_be 8 (unat x64) @ rest \<Longrightarrow>
      \<exists>b'. readInt64 e b = Some (x64, b') \<and> buffer_wf b' \<and> content b' = rest"
    and "content b = bytes_be 4 (unat x32) @ rest \<Longrightarrow>
      \<exists>b'. readInt32 e b = Some (x32, b') \<and> buffer_wf b' \<and> content b' = rest"
    and "content b = bytes_be 2 (unat x16) @ rest \<Longrightarrow>
      \<exists>b'. readInt16 e b = Some (x16, b') \<and> buffer_wf b' \<and> content b' = rest"
    and "content b = x8 # rest \<Longrightarrow>
      \<exists>b'. readInt8 b = Some (x8, b') \<and> buffer_wf b' \<and> content b' = rest"
proof -
  show "\<exists>b'. readInt64 e b = Some (x64, b') \<and> buffer_wf b' \<and> content b' = rest"
    if c: "content b = bytes_be 8 (unat x64) @ rest"
    using peek_int_ok(1)[OF assms c] peek_int_ok(2)[OF assms c, where e = e] retrieve_ok[OF assms, of 8] c
    by (auto simp: readInt64_def peekInt64_def retrieveInt64_def endian_defs)
  show "\<exists>b'. readInt32 e b = Some (x32, b') \<and> buffer_wf b' \<and> content b' = rest"
    if c: "content b = bytes_be 4 (unat x32) @ rest"
    using peek_int_ok(1)[OF assms c] peek_int_ok(2)[OF assms c, where e = e] retrieve_ok[OF assms, of 4] c
    by (auto simp: readInt32_def peekInt32_def retrieveInt32_def endian_defs)
  show "\<exists>b'. readInt16 e b = Some (x16, b') \<and> buffer_wf b' \<and> content b' = rest"
    if c: "content b = bytes_be 2 (unat x16) @ rest"
    using peek_int_ok(1)[OF assms c] peek_int_ok(2)[OF assms c, where e = e] retrieve_ok[OF assms, of 2] c
    by (auto simp: readInt16_def peekInt16_def retrieveInt16_def endian_defs)
  show "\<exists>b'. readInt8 b = Some (x8, b') \<and> buffer_wf b' \<and> content b' = rest"
    if c: "content b = x8 # rest"
    using peek_bytes_ok[OF assms, of 1] retrieve_ok[OF assms, of 1] c
    by (auto simp: readInt8_def peekInt8_def retrieveInt8_def)
qed

lemma readInt_short:
  assumes "buffer_wf b"
  shows "length (content b) < 8 \<Longrightarrow> readInt64 e b = None"
    and "length (content b) < 4 \<Longrightarrow> readInt32 e b = None"
    and "length (content b) < 2 \<Longrightarrow> readInt16 e b = None"
    and "content b = [] \<Longrightarrow> readInt8 b = None"
  using assms by (auto simp: readInt64_def readInt32_def readInt16_def readInt8_def peekInt64_def
      peekInt32_def peekInt16_def peekInt8_def peek_bytes_def readableBytes_content)

section \<open>Shrinking\<close>

text \<open>
  \<open>shrink\<close> copies through a \<open>StringPiece\<close>, whose length is an \<open>int\<close>.  What it keeps is the
  content up to that length, read back as a \<open>size_t\<close>.
\<close>

lemma append_take: "n \<le> length d \<Longrightarrow> append b d n = append b (take n d) n"
  by (simp add: append_def)

lemma shrink_general:
  assumes wf: "buffer_wf b" and fits: "kCheapPrepend + length (content b) + kInitialSize + reserve \<le> vec_max"
    and m: "m = of_int32 (to_int32 (length (content b)))" and le: "m \<le> length (content b)"
  shows "\<exists>b'. shrink b reserve = Some b' \<and> buffer_wf b' \<and> content b' = take m (content b)"
proof -
  let ?n = "length (content b) + reserve"
  obtain o0 where o0: "new_Buffer kInitialSize = Some o0" "buffer_wf o0" "content o0 = []"
    and r0: "readerIndex o0 = kCheapPrepend"
    using new_Buffer_ok[of kInitialSize] fits by auto
  have w0: "writerIndex o0 = kCheapPrepend"
    using length_content[OF o0(2)] buffer_wf_bounds(1)[OF o0(2)] o0(3) r0 by simp
  have u: "uadd (readableBytes b) reserve = ?n"
    using fits vec_max_less(1) unfolding readableBytes_content[OF wf] by (intro uadd_exact) linarith
  obtain o1 where o1: "ensureWritableBytes o0 ?n = Some o1" "buffer_wf o1" "content o1 = []"
      "?n \<le> writableBytes o1"
    using ensureWritableBytes_ok[OF o0(2), of ?n] fits w0 o0(3) by auto
  let ?d = "take m (content b)"
  have "writerIndex o1 + length ?d \<le> vec_max"
    using le o1(4) buffer_wf_bounds[OF o1(2)] by (simp add: writableBytes_wf[OF o1(2)])
  then obtain o2 where o2: "append o1 ?d (length ?d) = Some o2" "buffer_wf o2" "content o2 = ?d"
    using append_ok[OF o1(2), of ?d] o1(3) by auto
  have mem: "take m (drop (peek b) (buf b)) = ?d"
    using le length_content[OF wf] by (simp add: content_def vec_range_def peek_def min_def)
  have "m \<le> length (drop (peek b) (buf b))"
    using le length_content[OF wf] buffer_wf_bounds[OF wf] by (simp add: peek_def)
  then have "append_piece o1 (toStringPiece b) = append o1 ?d m"
    using append_take[of m "drop (peek b) (buf b)" o1] mem m
    by (simp add: append_piece_def toStringPiece_def readableBytes_content[OF wf])
  with o2(1) le have "append_piece o1 (toStringPiece b) = Some o2" by simp
  with o0(1) o1(1) have "shrink b reserve = Some (fst (swap b o2))"
    by (simp add: shrink_def u)
  moreover have "fst (swap b o2) = o2" by (simp add: swap_def)
  ultimately show ?thesis using o2 by simp
qed

lemma to_int32_wrap: "k < 2 ^ 31 \<Longrightarrow> to_int32 (2 ^ 32 + k) = int k"
proof -
  assume k: "k < 2 ^ 31"
  have "(word_of_nat (2 ^ 32 + k) :: 32 word) = word_of_nat k" by simp
  then have "to_int32 (2 ^ 32 + k) = to_int32 k" by (simp only: to_int32_def)
  with k show ?thesis by (simp add: size_simps)
qed

section \<open>Reading from a socket\<close>

lemma readFd_error: "readFd b (Inl err) = Some (-1, Some err, b)"
  by (simp add: readFd_def Let_def)

lemma readFd_ok:
  assumes wf: "buffer_wf b" and cap: "length bs \<le> readv_capacity b"
    and fits: "length (buf b) + extrabuf_size \<le> vec_max"
  shows "\<exists>b'. readFd b (Inr bs) = Some (int (length bs), None, b') \<and> buffer_wf b' \<and>
              content b' = content b @ bs"
proof (cases "length bs \<le> writableBytes b")
  case True
  with hasWritten_write[OF wf True] show ?thesis by (auto simp: readFd_def Let_def)
next
  case False
  let ?w = "writableBytes b"
  let ?x = "drop ?w bs"
  have len: "length (take ?w bs) = ?w" using False by simp
  obtain v where v: "vec_write (buf b) (writerIndex b) (take ?w bs) = Some v" "length v = length (buf b)"
    and wf1: "buffer_wf (b\<lparr>buf := v, writerIndex := writerIndex b + ?w\<rparr>)"
    and c1: "content (b\<lparr>buf := v, writerIndex := writerIndex b + ?w\<rparr>) = content b @ take ?w bs"
    using hasWritten_write[OF wf, of "take ?w bs"] len by auto
  have end1: "writerIndex b + ?w = length v"
    using v(2) buffer_wf_bounds[OF wf] by (simp add: writableBytes_wf[OF wf])
  let ?b1 = "b\<lparr>buf := v, writerIndex := length v\<rparr>"
  have x: "length ?x \<le> extrabuf_size"
    using cap False by (auto simp: readv_capacity_def Let_def split: if_splits)
  then have "writerIndex ?b1 + length ?x \<le> vec_max" using fits v(2) by simp
  then obtain b2 where "append ?b1 ?x (length ?x) = Some b2" "buffer_wf b2"
      "content b2 = (content b @ take ?w bs) @ ?x"
    using append_ok[of ?b1 ?x] wf1 c1 unfolding end1 by auto
  with False v(1) x show ?thesis by (simp add: readFd_def Let_def)
qed

section \<open>The contract of a byte stream\<close>

text \<open>
  What the users of a buffer rely on: bytes come out in the order in which they were put in.
  \<open>used\<close> bounds how far the buffer has to grow; a \<open>put\<close> of \<open>n\<close> bytes adds at most \<open>n\<close>.
\<close>

datatype stream_cmd = Put "byte list" | Get nat

fun stream_run :: "('b \<Rightarrow> byte list \<Rightarrow> 'b option) \<Rightarrow> ('b \<Rightarrow> nat \<Rightarrow> (byte list \<times> 'b) option) \<Rightarrow>
    stream_cmd list \<Rightarrow> 'b \<Rightarrow> (byte list \<times> 'b) option" where
  "stream_run put get [] b = Some ([], b)"
| "stream_run put get (Put d # cs) b = do { b' \<leftarrow> put b d; stream_run put get cs b' }"
| "stream_run put get (Get n # cs) b = do {
     (d, b') \<leftarrow> get b n;
     (ds, b'') \<leftarrow> stream_run put get cs b';
     Some (d @ ds, b'')
   }"

fun puts :: "stream_cmd list \<Rightarrow> byte list" where
  "puts [] = []"
| "puts (Put d # cs) = d @ puts cs"
| "puts (Get n # cs) = puts cs"

text \<open>No command reads more than is there when it runs.\<close>

fun legal_from :: "nat \<Rightarrow> stream_cmd list \<Rightarrow> bool" where
  "legal_from k [] = True"
| "legal_from k (Put d # cs) = legal_from (k + length d) cs"
| "legal_from k (Get n # cs) = (n \<le> k \<and> legal_from (k - n) cs)"

locale byte_stream =
  fixes invar :: "'b \<Rightarrow> bool"
    and bytes :: "'b \<Rightarrow> byte list"
    and used :: "'b \<Rightarrow> nat"
    and limit :: nat
    and put :: "'b \<Rightarrow> byte list \<Rightarrow> 'b option"
    and get :: "'b \<Rightarrow> nat \<Rightarrow> (byte list \<times> 'b) option"
  assumes put_law: "invar b \<Longrightarrow> used b + length d \<le> limit \<Longrightarrow>
      \<exists>b'. put b d = Some b' \<and> invar b' \<and> bytes b' = bytes b @ d \<and> used b' \<le> used b + length d"
    and get_law: "invar b \<Longrightarrow> n \<le> length (bytes b) \<Longrightarrow>
      \<exists>b'. get b n = Some (take n (bytes b), b') \<and> invar b' \<and> bytes b' = drop n (bytes b) \<and>
           used b' \<le> used b"
begin

lemma fifo:
  "invar b \<Longrightarrow> used b + length (puts cs) \<le> limit \<Longrightarrow> legal_from (length (bytes b)) cs \<Longrightarrow>
   \<exists>out b'. stream_run put get cs b = Some (out, b') \<and> invar b' \<and> out @ bytes b' = bytes b @ puts cs"
proof (induction cs arbitrary: b)
  case Nil
  then show ?case by simp
next
  case (Cons c cs)
  show ?case
  proof (cases c)
    case (Put d)
    with Cons.prems obtain b1 where b1: "put b d = Some b1" "invar b1" "bytes b1 = bytes b @ d"
        "used b1 \<le> used b + length d"
      using put_law[of b d] by auto
    moreover have "\<exists>out b'. stream_run put get cs b1 = Some (out, b') \<and> invar b' \<and>
        out @ bytes b' = bytes b1 @ puts cs"
      using Cons.IH[OF b1(2)] Cons.prems b1 Put by auto
    ultimately show ?thesis using Put by auto
  next
    case (Get n)
    with Cons.prems obtain b1 where b1: "get b n = Some (take n (bytes b), b1)" "invar b1"
        "bytes b1 = drop n (bytes b)" "used b1 \<le> used b"
      using get_law[of b n] by auto
    then obtain out b' where "stream_run put get cs b1 = Some (out, b')" "invar b'"
        "out @ bytes b' = drop n (bytes b) @ puts cs"
      using Cons.IH[OF b1(2)] Cons.prems Get by auto
    with b1 Get show ?thesis by simp
  qed
qed

lemma drain:
  assumes "invar b"
  shows "\<exists>b'. get b (length (bytes b)) = Some (bytes b, b') \<and> invar b' \<and> bytes b' = []"
  using get_law[OF assms, of "length (bytes b)"] by auto

end

section \<open>The buffer is a byte stream\<close>

definition buffer_used :: "buffer \<Rightarrow> nat" where
  "buffer_used b = max kCheapPrepend (writerIndex b)"

definition buffer_put :: "buffer \<Rightarrow> byte list \<Rightarrow> buffer option" where
  "buffer_put b d = append b d (length d)"

lemma makeSpace_writerIndex:
  "buffer_wf b \<Longrightarrow> makeSpace b n = Some b' \<Longrightarrow> writerIndex b' \<le> writerIndex b"
proof -
  assume wf: "buffer_wf b" and s: "makeSpace b n = Some b'"
  show ?thesis
  proof (cases "uadd (writableBytes b) (prependableBytes b) < uadd n kCheapPrepend")
    case True
    with s show ?thesis by (auto simp: makeSpace_def split: bind_splits)
  next
    case False
    have "uadd kCheapPrepend (readableBytes b) \<le> kCheapPrepend + readableBytes b"
      by (simp add: uadd_def)
    with False s show ?thesis
      using buffer_wf_bounds[OF wf]
      by (auto simp: makeSpace_def Let_def readableBytes_wf[OF wf] split: bind_splits)
  qed
qed

lemma append_writerIndex:
  assumes "buffer_wf b" and "append b d n = Some b'"
  shows "writerIndex b' \<le> writerIndex b + n"
proof -
  obtain b1 where b1: "ensureWritableBytes b n = Some b1" "writerIndex b' = uadd (writerIndex b1) n"
    using assms(2) by (auto simp: append_def hasWritten_def split: bind_splits)
  then have "writerIndex b1 \<le> writerIndex b"
    using makeSpace_writerIndex[OF assms(1)]
    by (auto simp: ensureWritableBytes_def split: bind_splits if_splits)
  moreover have "uadd (writerIndex b1) n \<le> writerIndex b1 + n" by (simp add: uadd_def)
  ultimately show ?thesis using b1 by linarith
qed

lemma retrieve_writerIndex:
  "retrieve b n = Some b' \<Longrightarrow> writerIndex b' \<le> max kCheapPrepend (writerIndex b)"
  by (auto simp: retrieve_def retrieveAll_def split: if_splits)

interpretation buffer_stream: byte_stream buffer_wf content buffer_used vec_max buffer_put retrieveAsString
proof
  fix b :: buffer and d :: "byte list"
  assume wf: "buffer_wf b" and fits: "buffer_used b + length d \<le> vec_max"
  then have "writerIndex b + length d \<le> vec_max" by (simp add: buffer_used_def)
  then obtain b' where b': "append b d (length d) = Some b'" "buffer_wf b'" "content b' = content b @ d"
    using append_ok[OF wf, of d] by blast
  moreover have "buffer_used b' \<le> buffer_used b + length d"
    using append_writerIndex[OF wf b'(1)] by (auto simp: buffer_used_def)
  ultimately show "\<exists>b'. buffer_put b d = Some b' \<and> buffer_wf b' \<and> content b' = content b @ d \<and>
      buffer_used b' \<le> buffer_used b + length d"
    by (auto simp: buffer_put_def)
next
  fix b :: buffer and n :: nat
  assume wf: "buffer_wf b" and n: "n \<le> length (content b)"
  obtain b' where b': "retrieveAsString b n = Some (take n (content b), b')" "buffer_wf b'"
      "content b' = drop n (content b)"
    using retrieveAsString_ok[OF wf n] by blast
  then have "retrieve b n = Some b'"
    by (auto simp: retrieveAsString_def split: bind_splits)
  from retrieve_writerIndex[OF this] have "buffer_used b' \<le> buffer_used b"
    by (simp add: buffer_used_def)
  with b' show "\<exists>b'. retrieveAsString b n = Some (take n (content b), b') \<and> buffer_wf b' \<and>
      content b' = drop n (content b) \<and> buffer_used b' \<le> buffer_used b"
    by blast
qed

section \<open>Properties\<close>

text \<open>
  C6.  A buffer is a byte queue.  For every sequence of appends and reads in which no read asks
  for more than is readable and the vector can hold what is appended, no assertion of
  \<open>append\<close>, \<open>ensureWritableBytes\<close>, \<open>makeSpace\<close>, \<open>hasWritten\<close> or \<open>retrieve\<close> fails, and the
  bytes read followed by the bytes still readable are the bytes there at the start followed by
  the bytes appended, in order.
\<close>

theorem buffer_fifo:
  assumes "buffer_wf b" and "buffer_used b + length (puts cs) \<le> vec_max"
    and "legal_from (length (content b)) cs"
  shows "\<exists>out b'. stream_run buffer_put retrieveAsString cs b = Some (out, b') \<and> buffer_wf b' \<and>
           out @ content b' = content b @ puts cs"
  using assms by (rule buffer_stream.fifo)

definition sample_buffer :: buffer where
  "sample_buffer = \<lparr>buf = [0, 0, 0, 0, 0, 0, 0, 0, 1, 2, 3, 0], readerIndex = 8, writerIndex = 11\<rparr>"

lemma sample_buffer_facts:
  "buffer_wf sample_buffer" "content sample_buffer = [1, 2, 3]" "buffer_used sample_buffer = 11"
  by (simp_all add: sample_buffer_def buffer_wf_def content_def vec_range_def kCheapPrepend_def
      vec_max_def buffer_used_def)

theorem buffer_fifo_witness:
  "\<exists>out b'. stream_run buffer_put retrieveAsString [Get 2, Put [7, 8, 9, 10], Get 3] sample_buffer
     = Some (out, b') \<and> buffer_wf b' \<and> out @ content b' = [1, 2, 3, 7, 8, 9, 10]"
  using buffer_fifo[of sample_buffer "[Get 2, Put [7, 8, 9, 10], Get 3]"]
  by (simp add: sample_buffer_facts vec_max_def)

text \<open>
   Integers survive the wire.  A 64-, a 32-, a 16- and an 8-bit integer appended on a host of
  one byte order and read back in the same order on a host of any other byte order are the
  integers that were written, and nothing is left over.
\<close>

theorem buffer_int_roundtrip:
  assumes "buffer_wf b" and "content b = []" and "writerIndex b + 23 \<le> vec_max"
  shows "\<exists>b'. do {
      b1 \<leftarrow> appendInt64 e b x64;
      b2 \<leftarrow> appendInt32 e b1 x32;
      b3 \<leftarrow> appendInt16 e b2 x16;
      b4 \<leftarrow> appendInt8 b3 x8;
      (y64, c1) \<leftarrow> readInt64 e' b4;
      (y32, c2) \<leftarrow> readInt32 e' c1;
      (y16, c3) \<leftarrow> readInt16 e' c2;
      (y8, c4) \<leftarrow> readInt8 c3;
      Some (y64, y32, y16, y8, c4)
    } = Some (x64, x32, x16, x8, b') \<and> buffer_wf b' \<and> content b' = []"
proof -
  obtain b1 where b1: "appendInt64 e b x64 = Some b1" "buffer_wf b1" "content b1 = bytes_be 8 (unat x64)"
    using appendInt_ok(1)[of b e x64] assms by auto
  have w1: "writerIndex b1 \<le> writerIndex b + 8"
    using append_writerIndex[OF assms(1)] b1(1) by (simp add: appendInt64_def Let_def)
  then obtain b2 where b2: "appendInt32 e b1 x32 = Some b2" "buffer_wf b2"
      "content b2 = bytes_be 8 (unat x64) @ bytes_be 4 (unat x32)"
    using appendInt_ok(2)[of b1 e x32] assms(3) b1 by auto
  have w2: "writerIndex b2 \<le> writerIndex b1 + 4"
    using append_writerIndex[OF b1(2)] b2(1) by (simp add: appendInt32_def Let_def)
  then obtain b3 where b3: "appendInt16 e b2 x16 = Some b3" "buffer_wf b3"
      "content b3 = bytes_be 8 (unat x64) @ bytes_be 4 (unat x32) @ bytes_be 2 (unat x16)"
    using appendInt_ok(3)[of b2 e x16] assms(3) b2 w1 by auto
  have w3: "writerIndex b3 \<le> writerIndex b2 + 2"
    using append_writerIndex[OF b2(2), of _ 2] b3(1) by (simp add: appendInt16_def Let_def)
  then obtain b4 where b4: "appendInt8 b3 x8 = Some b4" "buffer_wf b4"
      "content b4 = bytes_be 8 (unat x64) @ bytes_be 4 (unat x32) @ bytes_be 2 (unat x16) @ [x8]"
    using appendInt_ok(4)[of b3 x8] assms(3) b3 w1 w2 by auto
  obtain c1 where c1: "readInt64 e' b4 = Some (x64, c1)" "buffer_wf c1"
      "content c1 = bytes_be 4 (unat x32) @ bytes_be 2 (unat x16) @ [x8]"
    using readInt_ok(1)[OF b4(2,3)] by blast
  obtain c2 where c2: "readInt32 e' c1 = Some (x32, c2)" "buffer_wf c2"
      "content c2 = bytes_be 2 (unat x16) @ [x8]"
    using readInt_ok(2)[OF c1(2,3)] by blast
  obtain c3 where c3: "readInt16 e' c2 = Some (x16, c3)" "buffer_wf c3" "content c3 = [x8]"
    using readInt_ok(3)[OF c2(2,3)] by blast
  obtain c4 where c4: "readInt8 c3 = Some (x8, c4)" "buffer_wf c4" "content c4 = []"
    using readInt_ok(4)[OF c3(2,3)] by blast
  show ?thesis using b1(1) b2(1) b3(1) b4(1) c1(1) c2(1) c3(1) c4 by simp
qed

definition empty_sample :: buffer where
  "empty_sample = \<lparr>buf = replicate 12 0, readerIndex = 8, writerIndex = 8\<rparr>"

lemma empty_sample_facts: "buffer_wf empty_sample" "content empty_sample = []" "writerIndex empty_sample = 8"
  by (simp_all add: empty_sample_def buffer_wf_def content_def kCheapPrepend_def vec_max_def)

theorem buffer_int_roundtrip_witness:
  "\<exists>b'. do {
      b1 \<leftarrow> appendInt64 Little_Endian empty_sample 1;
      b2 \<leftarrow> appendInt32 Little_Endian b1 0xFFFFFFFE;
      b3 \<leftarrow> appendInt16 Little_Endian b2 258;
      b4 \<leftarrow> appendInt8 b3 7;
      (y64, c1) \<leftarrow> readInt64 Big_Endian b4;
      (y32, c2) \<leftarrow> readInt32 Big_Endian c1;
      (y16, c3) \<leftarrow> readInt16 Big_Endian c2;
      (y8, c4) \<leftarrow> readInt8 c3;
      Some (y64, y32, y16, y8, c4)
    } = Some (1, 0xFFFFFFFE, 258, 7, b') \<and> buffer_wf b' \<and> content b' = []"
  using buffer_int_roundtrip[of empty_sample Little_Endian 1 "0xFFFFFFFE" 258 7 Big_Endian]
  by (simp add: empty_sample_facts vec_max_def)

text \<open>
   \<open>findCRLF\<close> is the first line end.  It returns a pointer into the readable bytes exactly
  when they contain a carriage return followed by a line feed; the pointer is to the first such
  pair, and the pair lies within the readable bytes, so \<open>crlf + 2\<close> is a valid argument of
  \<open>retrieveUntil\<close>.
\<close>

theorem findCRLF_first:
  assumes "buffer_wf b"
  shows "case findCRLF b of
           None \<Rightarrow> \<not> (\<exists>j. prefix kCRLF (drop j (content b)))
         | Some p \<Rightarrow> (\<exists>i. p = peek b + i \<and> i + 2 \<le> length (content b) \<and>
             take 2 (drop i (content b)) = kCRLF \<and> (\<forall>j<i. \<not> prefix kCRLF (drop j (content b)))) \<and>
             p + 2 \<le> beginWrite b"
proof -
  let ?c = "content b" and ?i = "std_search kCRLF (content b)"
  show ?thesis
  proof (cases "?i = length ?c")
    case True
    then show ?thesis
      using std_search_miss[of kCRLF ?c] by (simp add: findCRLF_content[OF assms] Let_def)
  next
    case False
    then have hit: "?i < length ?c" using std_search_le[of kCRLF ?c] by linarith
    have p: "prefix kCRLF (drop ?i ?c)" using std_search_hit[OF hit] .
    have len: "?i + 2 \<le> length ?c" using std_search_hit_length[OF _ hit] by simp
    have "take 2 (drop ?i ?c) = kCRLF"
      using p by (auto simp: prefix_def kCRLF_def)
    moreover have "peek b + ?i + 2 \<le> beginWrite b"
      using len buffer_wf_bounds[OF assms] by (simp add: length_content[OF assms] peek_def beginWrite_def)
    ultimately show ?thesis
      using hit len std_search_before[of _ kCRLF ?c] by (auto simp: findCRLF_content[OF assms] Let_def)
  qed
qed

definition line_sample :: buffer where
  "line_sample = \<lparr>buf = [0, 0, 0, 0, 0, 0, 0, 0, 72, 13, 13, 10, 10], readerIndex = 8, writerIndex = 13\<rparr>"

theorem findCRLF_first_witness:
  "buffer_wf line_sample \<and> findCRLF line_sample = Some 10 \<and>
   (\<exists>i. 10 = peek line_sample + i \<and> i + 2 \<le> length (content line_sample) \<and>
     take 2 (drop i (content line_sample)) = kCRLF \<and> (\<forall>j<i. \<not> prefix kCRLF (drop j (content line_sample)))) \<and>
     (10::nat) + 2 \<le> beginWrite line_sample"
proof -
  have wf: "buffer_wf line_sample"
    by (simp add: line_sample_def buffer_wf_def kCheapPrepend_def vec_max_def)
  have pk: "peek line_sample = 8" by (simp add: line_sample_def peek_def)
  have "content line_sample = [72, 13, 13, 10, 10]"
    by (simp add: line_sample_def content_def vec_range_def)
  then have f: "findCRLF line_sample = Some 10"
    using pk by (simp add: findCRLF_content[OF wf] Let_def kCRLF_def)
  show ?thesis using findCRLF_first[OF wf] wf f by simp
qed

text \<open>
   Prepending a header.  \<open>prependInt32\<close> puts the big-endian bytes of its argument in front of
  the readable bytes without moving them, so that \<open>readInt32\<close> on a host of any byte order gives
  the argument back and leaves the buffer's content as it was; with fewer than four prependable
  bytes its assertion fails.
\<close>

theorem prependInt32_header:
  assumes "buffer_wf b"
  shows "if 4 \<le> prependableBytes b
         then \<exists>b1 b2. prependInt32 e b x = Some b1 \<and> writerIndex b1 = writerIndex b \<and>
                content b1 = bytes_be 4 (unat x) @ content b \<and>
                readInt32 e' b1 = Some (x, b2) \<and> content b2 = content b
         else prependInt32 e b x = None"
proof (cases "4 \<le> prependableBytes b")
  case True
  then obtain b1 where b1: "prependInt32 e b x = Some b1" "buffer_wf b1"
      "content b1 = bytes_be 4 (unat x) @ content b"
    using prependInt_ok(2)[OF assms] by blast
  then have "writerIndex b1 = writerIndex b"
    by (auto simp: prependInt32_def prepend_def Let_def split: bind_splits)
  with True b1 readInt_ok(2)[OF b1(2,3)] show ?thesis by auto
next
  case False
  then show ?thesis by (simp add: prependInt32_def prepend_def Let_def)
qed

theorem prependInt32_header_witness:
  "\<exists>b1 b2. prependInt32 Little_Endian sample_buffer 0x01020304 = Some b1 \<and> writerIndex b1 = 11 \<and>
     content b1 = [1, 2, 3, 4, 1, 2, 3] \<and> readInt32 Big_Endian b1 = Some (0x01020304, b2) \<and>
     content b2 = [1, 2, 3]"
proof -
  have "bytes_be 4 (unat (0x01020304 :: 32 word)) = [1, 2, 3, 4]"
    by (simp add: bytes_be_numeral)
  moreover have "writerIndex sample_buffer = 11" "4 \<le> prependableBytes sample_buffer"
    by (simp_all add: sample_buffer_def prependableBytes_def)
  ultimately show ?thesis
    using prependInt32_header[OF sample_buffer_facts(1), of Little_Endian "0x01020304" Big_Endian]
    by (simp add: sample_buffer_facts)
qed

text \<open>
   \<open>readFd\<close> loses nothing.  Whatever bytes \<open>readv\<close> delivers over the buffer's free space and
  the 64 KiB on the stack are appended to the content in order and counted in the result; an
  error leaves the buffer unchanged and reports \<open>errno\<close>.
\<close>

theorem readFd_appends:
  assumes "buffer_wf b" and "length (buf b) + extrabuf_size \<le> vec_max"
    and "length bs \<le> readv_capacity b"
  shows "readFd b (Inl err) = Some (-1, Some err, b) \<and>
    (\<exists>b'. readFd b (Inr bs) = Some (int (length bs), None, b') \<and> buffer_wf b' \<and> content b' = content b @ bs)"
  using readFd_error readFd_ok[OF assms(1,3,2)] by simp

theorem readFd_appends_witness:
  "readFd sample_buffer (Inl 11) = Some (-1, Some 11, sample_buffer) \<and>
   (\<exists>b'. readFd sample_buffer (Inr [4, 5, 6]) = Some (3, None, b') \<and> buffer_wf b' \<and>
      content b' = [1, 2, 3, 4, 5, 6])"
proof -
  have len: "length (buf sample_buffer) + extrabuf_size \<le> vec_max"
    by (simp add: sample_buffer_def extrabuf_size_def vec_max_def)
  have cap: "length [4, 5, 6 :: byte] \<le> readv_capacity sample_buffer"
    by (simp add: readv_capacity_def Let_def writableBytes_wf[OF sample_buffer_facts(1)]
        sample_buffer_def extrabuf_size_def)
  show ?thesis
    using readFd_appends[OF sample_buffer_facts(1) len cap, of 11] by (simp add: sample_buffer_facts)
qed

text \<open>
   \<open>shrink\<close> keeps the content of a buffer of less than 2 GiB, but not of a larger one: the
  copy goes through a \<open>StringPiece\<close> with an \<open>int\<close> length, and with 4 GiB plus \<open>k\<close> readable bytes
  only the first \<open>k\<close> survive.
\<close>

theorem shrink_content:
  assumes wf: "buffer_wf b" and fits: "kCheapPrepend + length (content b) + kInitialSize + reserve \<le> vec_max"
  shows "(length (content b) < 2 ^ 31 \<longrightarrow>
      (\<exists>b'. shrink b reserve = Some b' \<and> buffer_wf b' \<and> content b' = content b)) \<and>
    (length (content b) = 2 ^ 32 + k \<and> k < 2 ^ 31 \<longrightarrow>
      (\<exists>b'. shrink b reserve = Some b' \<and> content b' = take k (content b)))"
proof -
  have small: "of_int32 (int n) = n" if "n < 2 ^ 31" for n
    using that by (intro of_int32_exact) (simp add: size_limit_def)
  have "\<exists>b'. shrink b reserve = Some b' \<and> buffer_wf b' \<and> content b' = content b"
    if l: "length (content b) < 2 ^ 31"
    using shrink_general[OF wf fits, of "length (content b)"] to_int32_exact[OF l] small[OF l] by simp
  moreover have "\<exists>b'. shrink b reserve = Some b' \<and> content b' = take k (content b)"
    if l: "length (content b) = 2 ^ 32 + k" and k: "k < 2 ^ 31"
    using shrink_general[OF wf fits, of k] l to_int32_wrap[OF k] small[OF k] by auto
  ultimately show ?thesis by blast
qed

definition huge_buffer :: buffer where
  "huge_buffer = \<lparr>buf = replicate (8 + (2 ^ 32 + 1)) 0, readerIndex = 8, writerIndex = 8 + (2 ^ 32 + 1)\<rparr>"

theorem shrink_content_witness:
  "(\<exists>b'. shrink sample_buffer 0 = Some b' \<and> buffer_wf b' \<and> content b' = [1, 2, 3]) \<and>
   (\<exists>b'. shrink huge_buffer 0 = Some b' \<and> content b' = [0])"
proof
  show "\<exists>b'. shrink sample_buffer 0 = Some b' \<and> buffer_wf b' \<and> content b' = [1, 2, 3]"
    using shrink_content[OF sample_buffer_facts(1), of 0 0]
    by (simp add: sample_buffer_facts kCheapPrepend_def kInitialSize_def vec_max_def)
  have wf: "buffer_wf huge_buffer"
    by (simp add: huge_buffer_def buffer_wf_def kCheapPrepend_def vec_max_def)
  have c: "content huge_buffer = replicate (2 ^ 32 + 1) 0"
    by (simp add: huge_buffer_def content_def vec_range_def)
  have len: "length (content huge_buffer) = 2 ^ 32 + 1" by (simp only: c length_replicate)
  have fits: "kCheapPrepend + length (content huge_buffer) + kInitialSize + 0 \<le> vec_max"
    unfolding len by (simp add: kCheapPrepend_def kInitialSize_def vec_max_def)
  have "take 1 (content huge_buffer) = [0]" unfolding c by (simp only: take_replicate) simp
  then show "\<exists>b'. shrink huge_buffer 0 = Some b' \<and> content b' = [0]"
    using shrink_content[OF wf fits, of 1] len by simp
qed

end
