(* ===== verification/Buffer_Ops.thy ===== *)
theory Buffer_Ops
  imports Net_Buffer
begin

text \<open>
  All operations of \<open>Buffer\<close> (\<open>muduo/net/Buffer.h\<close>, \<open>Buffer.cc\<close>) in one type, to state what they have in
  common: none of them leaves the buffer with indices out of order, and each succeeds when its caller keeps
  the documented precondition.
\<close>

datatype buffer_op =
  Append "byte list"
| AppendInt64 "64 word"
| AppendInt32 "32 word"
| AppendInt16 "16 word"
| AppendInt8 "8 word"
| Prepend "byte list"
| PrependInt64 "64 word"
| PrependInt32 "32 word"
| PrependInt16 "16 word"
| PrependInt8 "8 word"
| Retrieve nat
| RetrieveUntil nat
| RetrieveAll
| RetrieveAsString nat
| ReadInt64
| ReadInt32
| ReadInt16
| ReadInt8
| EnsureWritableBytes nat
| HasWritten nat
| Unwrite nat
| Shrink nat
| ReadFd read_result

fun buffer_exec :: "host_order \<Rightarrow> buffer_op \<Rightarrow> buffer \<Rightarrow> buffer option" where
  "buffer_exec e (Append d) b = append b d (length d)"
| "buffer_exec e (AppendInt64 x) b = appendInt64 e b x"
| "buffer_exec e (AppendInt32 x) b = appendInt32 e b x"
| "buffer_exec e (AppendInt16 x) b = appendInt16 e b x"
| "buffer_exec e (AppendInt8 x) b = appendInt8 b x"
| "buffer_exec e (Prepend d) b = prepend b d (length d)"
| "buffer_exec e (PrependInt64 x) b = prependInt64 e b x"
| "buffer_exec e (PrependInt32 x) b = prependInt32 e b x"
| "buffer_exec e (PrependInt16 x) b = prependInt16 e b x"
| "buffer_exec e (PrependInt8 x) b = prependInt8 b x"
| "buffer_exec e (Retrieve n) b = retrieve b n"
| "buffer_exec e (RetrieveUntil p) b = retrieveUntil b p"
| "buffer_exec e RetrieveAll b = Some (retrieveAll b)"
| "buffer_exec e (RetrieveAsString n) b = map_option snd (retrieveAsString b n)"
| "buffer_exec e ReadInt64 b = map_option snd (readInt64 e b)"
| "buffer_exec e ReadInt32 b = map_option snd (readInt32 e b)"
| "buffer_exec e ReadInt16 b = map_option snd (readInt16 e b)"
| "buffer_exec e ReadInt8 b = map_option snd (readInt8 b)"
| "buffer_exec e (EnsureWritableBytes n) b = ensureWritableBytes b n"
| "buffer_exec e (HasWritten n) b = hasWritten b n"
| "buffer_exec e (Unwrite n) b = unwrite b n"
| "buffer_exec e (Shrink reserve) b = shrink b reserve"
| "buffer_exec e (ReadFd r) b = map_option (snd \<circ> snd) (readFd b r)"

text \<open>What an operation asks a vector to hold is within the largest size of a vector.\<close>

fun op_sized :: "buffer_op \<Rightarrow> buffer \<Rightarrow> bool" where
  "op_sized (Append d) b \<longleftrightarrow> length d \<le> vec_max"
| "op_sized (EnsureWritableBytes n) b \<longleftrightarrow> n \<le> vec_max"
| "op_sized (Shrink reserve) b \<longleftrightarrow> readableBytes b + reserve \<le> vec_max"
| "op_sized (ReadFd (Inr bs)) b \<longleftrightarrow> length bs \<le> vec_max"
| "op_sized _ b \<longleftrightarrow> True"

text \<open>The preconditions the header documents, and room for what is added.\<close>

fun op_pre :: "buffer_op \<Rightarrow> buffer \<Rightarrow> bool" where
  "op_pre (Append d) b \<longleftrightarrow> writerIndex b + length d \<le> vec_max"
| "op_pre (AppendInt64 x) b \<longleftrightarrow> writerIndex b + 8 \<le> vec_max"
| "op_pre (AppendInt32 x) b \<longleftrightarrow> writerIndex b + 8 \<le> vec_max"
| "op_pre (AppendInt16 x) b \<longleftrightarrow> writerIndex b + 8 \<le> vec_max"
| "op_pre (AppendInt8 x) b \<longleftrightarrow> writerIndex b + 8 \<le> vec_max"
| "op_pre (Prepend d) b \<longleftrightarrow> length d \<le> prependableBytes b"
| "op_pre (PrependInt64 x) b \<longleftrightarrow> 8 \<le> prependableBytes b"
| "op_pre (PrependInt32 x) b \<longleftrightarrow> 4 \<le> prependableBytes b"
| "op_pre (PrependInt16 x) b \<longleftrightarrow> 2 \<le> prependableBytes b"
| "op_pre (PrependInt8 x) b \<longleftrightarrow> 1 \<le> prependableBytes b"
| "op_pre (Retrieve n) b \<longleftrightarrow> n \<le> readableBytes b"
| "op_pre (RetrieveUntil p) b \<longleftrightarrow> peek b \<le> p \<and> p \<le> beginWrite b"
| "op_pre RetrieveAll b \<longleftrightarrow> True"
| "op_pre (RetrieveAsString n) b \<longleftrightarrow> n \<le> readableBytes b"
| "op_pre ReadInt64 b \<longleftrightarrow> 8 \<le> readableBytes b"
| "op_pre ReadInt32 b \<longleftrightarrow> 4 \<le> readableBytes b"
| "op_pre ReadInt16 b \<longleftrightarrow> 2 \<le> readableBytes b"
| "op_pre ReadInt8 b \<longleftrightarrow> 1 \<le> readableBytes b"
| "op_pre (EnsureWritableBytes n) b \<longleftrightarrow> writerIndex b + n \<le> vec_max"
| "op_pre (HasWritten n) b \<longleftrightarrow> n \<le> writableBytes b"
| "op_pre (Unwrite n) b \<longleftrightarrow> n \<le> readableBytes b"
| "op_pre (Shrink reserve) b \<longleftrightarrow>
     readableBytes b < 2 ^ 31 \<and> kCheapPrepend + readableBytes b + kInitialSize + reserve \<le> vec_max"
| "op_pre (ReadFd (Inl err)) b \<longleftrightarrow> True"
| "op_pre (ReadFd (Inr bs)) b \<longleftrightarrow>
     length bs \<le> readv_capacity b \<and> length (buf b) + extrabuf_size \<le> vec_max"

section \<open>Preservation\<close>

text \<open>Without any assumption that the operation has room: it fails, or keeps the invariant.\<close>

lemma vec_resize_Some: "vec_resize x xs n = Some v \<Longrightarrow> length v = n \<and> n \<le> vec_max"
  by (auto simp: vec_resize_def split: if_splits)

lemma vec_write_Some: "vec_write xs i ys = Some v \<Longrightarrow> length v = length xs \<and> i + length ys \<le> length xs"
  by (auto simp: vec_write_def split: if_splits)

lemma makeSpace_wf:
  assumes wf: "buffer_wf b" and n: "n \<le> vec_max" and full: "writableBytes b < n"
    and s: "makeSpace b n = Some b'"
  shows "buffer_wf b'"
proof (cases "uadd (writableBytes b) (prependableBytes b) < uadd n kCheapPrepend")
  case True
  note B = buffer_wf_bounds[OF wf]
  obtain v where v: "vec_resize 0 (buf b) (uadd (writerIndex b) n) = Some v" and b': "b' = b\<lparr>buf := v\<rparr>"
    using s True by (auto simp: makeSpace_def split: bind_splits)
  have "uadd (writerIndex b) n = writerIndex b + n"
    using vec_max_double[of "writerIndex b" n] n B by (intro uadd_exact) linarith
  moreover have "uadd (writableBytes b) (prependableBytes b) = writableBytes b + readerIndex b"
    unfolding prependableBytes_def using B by (intro uadd_exact) (simp add: writableBytes_wf[OF wf])
  moreover have "uadd n kCheapPrepend = n + kCheapPrepend"
    using vec_max_double[of n kCheapPrepend] n by (intro uadd_exact) simp
  ultimately show ?thesis
    using vec_resize_Some[OF v] wf full unfolding b' by (auto simp: buffer_wf_def writableBytes_wf[OF wf])
next
  case False
  note B = buffer_wf_bounds[OF wf]
  obtain v where rd: "kCheapPrepend < readerIndex b"
    and v: "vec_write (buf b) kCheapPrepend (content b) = Some v"
    and b': "b' = b\<lparr>buf := v, readerIndex := kCheapPrepend, writerIndex := uadd kCheapPrepend (readableBytes b)\<rparr>"
    using s False by (auto simp: makeSpace_def Let_def content_def split: bind_splits)
  have "uadd kCheapPrepend (readableBytes b) = kCheapPrepend + readableBytes b"
    using rd B by (intro uadd_exact) (simp add: readableBytes_wf[OF wf])
  then show ?thesis
    using vec_write_Some[OF v] wf unfolding b' by (simp add: buffer_wf_def readableBytes_content)
qed

lemma ensureWritableBytes_wf:
  assumes "buffer_wf b" and "n \<le> vec_max" and "ensureWritableBytes b n = Some b'"
  shows "buffer_wf b' \<and> n \<le> writableBytes b'"
  using assms makeSpace_wf[OF assms(1,2)]
  by (auto simp: ensureWritableBytes_def split: bind_splits if_splits)

lemma hasWritten_wf:
  assumes wf: "buffer_wf b" and "hasWritten b n = Some b'"
  shows "buffer_wf b'"
proof -
  have n: "writerIndex b + n \<le> length (buf b)" and b': "b' = b\<lparr>writerIndex := uadd (writerIndex b) n\<rparr>"
    using assms buffer_wf_bounds[OF wf] by (auto simp: hasWritten_def writableBytes_wf)
  then have "uadd (writerIndex b) n = writerIndex b + n"
    using buffer_wf_bounds(5)[OF wf] by (intro uadd_exact) linarith
  with n b' wf show ?thesis by (auto simp: buffer_wf_def)
qed

lemma buffer_wf_same_length: "buffer_wf b \<Longrightarrow> length v = length (buf b) \<Longrightarrow> buffer_wf (b\<lparr>buf := v\<rparr>)"
  by (simp add: buffer_wf_def)

lemma append_wf:
  assumes "buffer_wf b" and "n \<le> vec_max" and "append b d n = Some b'"
  shows "buffer_wf b'"
proof -
  obtain b1 v where b1: "ensureWritableBytes b n = Some b1"
    and v: "vec_write (buf b1) (beginWrite b1) (take n d) = Some v"
    and b': "hasWritten (b1\<lparr>buf := v\<rparr>) n = Some b'"
    using assms(3) by (auto simp: append_def split: bind_splits)
  have "buffer_wf (b1\<lparr>buf := v\<rparr>)"
    using ensureWritableBytes_wf[OF assms(1,2) b1] vec_write_Some[OF v] by (simp add: buffer_wf_same_length)
  then show ?thesis using hasWritten_wf b' by blast
qed

lemma append_wf':
  assumes "buffer_wf b" and "length d \<le> vec_max" and "append b d n = Some b'"
  shows "buffer_wf b'"
proof -
  have "n \<le> length d" using assms(3) by (auto simp: append_def split: bind_splits)
  with assms show ?thesis using append_wf[of b n d b'] by simp
qed

lemma prepend_wf:
  assumes wf: "buffer_wf b" and "prepend b d n = Some b'"
  shows "buffer_wf b'"
proof -
  obtain v where n: "n \<le> readerIndex b" and v: "vec_write (buf b) (usub (readerIndex b) n) (take n d) = Some v"
    and b': "b' = b\<lparr>readerIndex := usub (readerIndex b) n, buf := v\<rparr>"
    using assms(2) by (auto simp: prepend_def Let_def prependableBytes_def split: bind_splits)
  have "usub (readerIndex b) n = readerIndex b - n"
    using n buffer_wf_bounds[OF wf] by (intro usub_exact) linarith+
  with vec_write_Some[OF v] wf show ?thesis unfolding b' by (auto simp: buffer_wf_def)
qed

lemma retrieve_wf:
  assumes "buffer_wf b" and "retrieve b n = Some b'"
  shows "buffer_wf b'"
proof (cases "n \<le> length (content b)")
  case True
  with retrieve_ok[OF assms(1) True] assms(2) show ?thesis by auto
next
  case False
  with retrieve_fails[OF assms(1), of n] assms(2) show ?thesis by simp
qed

lemma unwrite_wf:
  assumes "buffer_wf b" and "unwrite b n = Some b'"
  shows "buffer_wf b'"
proof -
  have "n \<le> length (content b)"
    using assms by (auto simp: unwrite_def readableBytes_content)
  with unwrite_ok[OF assms(1) this] assms(2) show ?thesis by auto
qed

lemma shrink_wf:
  assumes wf: "buffer_wf b" and n: "readableBytes b + reserve \<le> vec_max" and s: "shrink b reserve = Some b'"
  shows "buffer_wf b'"
proof -
  obtain o0 o1 o2 where o: "new_Buffer kInitialSize = Some o0"
      "ensureWritableBytes o0 (uadd (readableBytes b) reserve) = Some o1"
      "append_piece o1 (toStringPiece b) = Some o2" "b' = fst (swap b o2)"
    using s by (auto simp: shrink_def split: bind_splits)
  have u: "uadd (readableBytes b) reserve = readableBytes b + reserve"
    using n vec_max_less(1) by (intro uadd_exact) linarith
  have "buffer_wf o0" using new_Buffer_ok[of kInitialSize] o(1) by (auto simp: kCheapPrepend_def kInitialSize_def vec_max_def)
  then have "buffer_wf o1" using ensureWritableBytes_wf o(2) n unfolding u by blast
  moreover have "length (drop (peek b) (buf b)) \<le> vec_max" using buffer_wf_bounds[OF wf] by simp
  ultimately have "buffer_wf o2"
    using append_wf'[OF _ _ o(3)[unfolded append_piece_def]] by (simp add: toStringPiece_def)
  then show ?thesis using o(4) by (simp add: swap_def buffer_wf_def)
qed

lemma readFd_wf:
  assumes wf: "buffer_wf b" and n: "length bs \<le> vec_max" and s: "readFd b (Inr bs) = Some (m, e, b')"
  shows "buffer_wf b'"
proof (cases "length bs \<le> writableBytes b")
  case True
  with hasWritten_write[OF wf True] s show ?thesis by (auto simp: readFd_def Let_def)
next
  case False
  then obtain v b1 where v: "vec_write (buf b) (writerIndex b) (take (writableBytes b) bs) = Some v"
    and b1: "b1 = b\<lparr>buf := v, writerIndex := length v\<rparr>"
    and b': "append b1 (drop (writableBytes b) bs) (length bs - writableBytes b) = Some b'"
    using s by (auto simp: readFd_def Let_def split: bind_splits)
  have "buffer_wf b1"
    using vec_write_Some[OF v] wf unfolding b1 by (auto simp: buffer_wf_def)
  then show ?thesis using append_wf'[OF _ _ b'] n by simp
qed

lemma buffer_exec_wf:
  assumes wf: "buffer_wf b" and size: "op_sized op b" and s: "buffer_exec e op b = Some b'"
  shows "buffer_wf b'"
proof (cases op)
  case (ReadFd r)
  then show ?thesis using assms readFd_wf by (cases r) (auto simp: readFd_error)
next
  case (EnsureWritableBytes n)
  then show ?thesis using assms ensureWritableBytes_wf by auto
next
  case (Shrink n)
  then show ?thesis using assms shrink_wf by auto
qed (use assms append_wf'[OF wf] append_wf[OF wf, of 8] append_wf[OF wf, of 4] append_wf[OF wf, of 2] append_wf[OF wf, of 1]
   prepend_wf[OF wf] retrieve_wf[OF wf] unwrite_wf[OF wf] hasWritten_wf[OF wf] in
   \<open>auto simp: retrieveAll_wf appendInt64_def appendInt32_def appendInt16_def appendInt8_def
      prependInt64_def prependInt32_def prependInt16_def prependInt8_def retrieveUntil_def retrieveAsString_def
      readInt64_def readInt32_def readInt16_def readInt8_def vec_max_def
      retrieveInt64_def retrieveInt32_def retrieveInt16_def retrieveInt8_def Let_def split: bind_splits\<close>)

section \<open>Progress\<close>

lemma small_int32: "k < 2 ^ 31 \<Longrightarrow> of_int32 (to_int32 k) = k"
  by (simp add: to_int32_exact of_int32_exact size_limit_def)

lemma readInt_progress:
  assumes "buffer_wf b"
  shows "8 \<le> readableBytes b \<Longrightarrow> readInt64 e b \<noteq> None"
    and "4 \<le> readableBytes b \<Longrightarrow> readInt32 e b \<noteq> None"
    and "2 \<le> readableBytes b \<Longrightarrow> readInt16 e b \<noteq> None"
    and "1 \<le> readableBytes b \<Longrightarrow> readInt8 b \<noteq> None"
  using peek_bytes_ok[OF assms, of 8] peek_bytes_ok[OF assms, of 4] peek_bytes_ok[OF assms, of 2]
    peek_bytes_ok[OF assms, of 1] retrieve_ok[OF assms, of 8] retrieve_ok[OF assms, of 4]
    retrieve_ok[OF assms, of 2] retrieve_ok[OF assms, of 1]
  by (auto simp: readInt64_def readInt32_def readInt16_def readInt8_def peekInt64_def peekInt32_def
      peekInt16_def peekInt8_def retrieveInt64_def retrieveInt32_def retrieveInt16_def retrieveInt8_def
      readableBytes_content[OF assms])

lemma appendInt_progress:
  assumes "buffer_wf b" and "writerIndex b + 8 \<le> vec_max"
  shows "\<exists>b'. appendInt64 e b x64 = Some b'" and "\<exists>b'. appendInt32 e b x32 = Some b'"
    and "\<exists>b'. appendInt16 e b x16 = Some b'" and "\<exists>b'. appendInt8 b x8 = Some b'"
  using appendInt_ok[OF assms] by blast+

lemma prependInt_progress:
  assumes "buffer_wf b"
  shows "8 \<le> prependableBytes b \<Longrightarrow> \<exists>b'. prependInt64 e b x64 = Some b'"
    and "4 \<le> prependableBytes b \<Longrightarrow> \<exists>b'. prependInt32 e b x32 = Some b'"
    and "2 \<le> prependableBytes b \<Longrightarrow> \<exists>b'. prependInt16 e b x16 = Some b'"
    and "1 \<le> prependableBytes b \<Longrightarrow> \<exists>b'. prependInt8 b x8 = Some b'"
  using prependInt_ok[OF assms] by blast+

lemma buffer_exec_progress:
  assumes wf: "buffer_wf b" and pre: "op_pre op b"
  shows "buffer_exec e op b \<noteq> None"
proof (cases op)
  case (ReadFd r)
  then show ?thesis
  proof (cases r)
    case (Inr bs)
    with ReadFd pre readFd_ok[OF wf, of bs] show ?thesis by auto
  qed (simp add: ReadFd readFd_error)
next
  case (Shrink reserve)
  then show ?thesis
    using pre shrink_general[OF wf, of reserve "length (content b)"]
    by (auto simp: readableBytes_content[OF wf] small_int32)
next
  case (RetrieveUntil p)
  then show ?thesis
    using pre retrieveUntil_ok[OF wf, of "p - peek b"]
    by (auto simp: length_content[OF wf] peek_def beginWrite_def diff_le_mono)
next
  case (HasWritten n)
  then show ?thesis using pre by (simp add: hasWritten_def)
next
  case (Append d)
  then show ?thesis using pre append_ok[OF wf, of d] by auto
next
  case (Prepend d)
  then show ?thesis using pre prepend_ok[OF wf, of d] by auto
next
  case (Retrieve n)
  then show ?thesis using pre retrieve_ok[OF wf, of n] by (auto simp: readableBytes_content[OF wf])
next
  case (RetrieveAsString n)
  then show ?thesis using pre retrieveAsString_ok[OF wf, of n] by (auto simp: readableBytes_content[OF wf])
next
  case (Unwrite n)
  then show ?thesis using pre unwrite_ok[OF wf, of n] by (auto simp: readableBytes_content[OF wf])
next
  case (EnsureWritableBytes n)
  then show ?thesis using pre ensureWritableBytes_ok[OF wf, of n] by auto
qed (use pre appendInt_progress[OF wf] prependInt_progress[OF wf] readInt_progress[OF wf] in auto)



end
