(* ===== verification/Timestamps.thy ===== *)
theory Timestamps
  imports Muduo_Prelude Complex_Main "HOL-Library.Log_Nat"
begin

text \<open>
  Points in time (\<open>muduo/base/Timestamp.h\<close>) and one-shot timers (\<open>muduo/net/Timer.h\<close>,
  \<open>Timer.cc\<close>).  A \<open>Timestamp\<close> is its \<open>int64_t\<close> number of microseconds, an \<^typ>\<open>int\<close> here: signed
  overflow is undefined in C++ and none of the definitions relies on it.  A \<open>double\<close> is the
  rational number it represents; the only arithmetic the sources do on it is one product whose
  result is truncated to an integer, and \<open>dbl_round\<close> is the IEEE rounding of that product.
\<close>

type_synonym timestamp = int

section \<open>Timestamp\<close>

definition kMicroSecondsPerSecond :: int where
  "kMicroSecondsPerSecond = 1000 * 1000"

definition Timestamp_invalid :: timestamp where
  "Timestamp_invalid = 0"

definition valid :: "timestamp \<Rightarrow> bool" where
  "valid t \<longleftrightarrow> t > 0"

definition secondsSinceEpoch :: "timestamp \<Rightarrow> int" where
  "secondsSinceEpoch t = t sdiv kMicroSecondsPerSecond"

definition fromUnixTime :: "int \<Rightarrow> int \<Rightarrow> timestamp" where
  "fromUnixTime t microseconds = t * kMicroSecondsPerSecond + microseconds"

text \<open>\<open>gettimeofday\<close> gives seconds and microseconds.\<close>

definition Timestamp_now :: "int \<times> int \<Rightarrow> timestamp" where
  "Timestamp_now tv = fst tv * kMicroSecondsPerSecond + snd tv"

definition round_half_even :: "rat \<Rightarrow> int" where
  "round_half_even q =
     (let f = \<lfloor>q\<rfloor>; r = q - of_int f
      in if r < 1 / 2 then f else if 1 / 2 < r then f + 1 else if even f then f else f + 1)"

text \<open>
  A 53-bit significand: between \<open>2 ^ (k - 1)\<close> and \<open>2 ^ k\<close> doubles are \<open>2 ^ k / 2 ^ 53\<close> apart.
  Below 1 they are closer still, which truncation to an integer cannot see.
\<close>

definition dbl_ulp :: "rat \<Rightarrow> rat" where
  "dbl_ulp x = 2 ^ floorlog 2 (nat \<lfloor>\<bar>x\<bar>\<rfloor>) / 2 ^ 53"

definition dbl_round :: "rat \<Rightarrow> rat" where
  "dbl_round x = of_int (round_half_even (x / dbl_ulp x)) * dbl_ulp x"

definition cast_int64 :: "rat \<Rightarrow> int" where
  "cast_int64 x = (if x < 0 then \<lceil>x\<rceil> else \<lfloor>x\<rfloor>)"

definition addTime :: "timestamp \<Rightarrow> rat \<Rightarrow> timestamp" where
  "addTime t seconds =
     (let delta = cast_int64 (dbl_round (seconds * of_int kMicroSecondsPerSecond)) in t + delta)"

lemma round_half_even_ge: "of_int n \<le> q \<Longrightarrow> n \<le> round_half_even q"
proof -
  assume "of_int n \<le> q"
  then have "n \<le> \<lfloor>q\<rfloor>" by (simp add: le_floor_iff)
  then show ?thesis by (simp add: round_half_even_def Let_def)
qed

lemma dbl_ulp_pos: "0 < dbl_ulp x"
  by (simp add: dbl_ulp_def)

lemma dbl_round_nonneg: "0 \<le> x \<Longrightarrow> 0 \<le> dbl_round x"
  using round_half_even_ge[of 0 "x / dbl_ulp x"] dbl_ulp_pos[of x]
  by (simp add: dbl_round_def)

lemma addTime_ge: "0 \<le> s \<Longrightarrow> t \<le> addTime t s"
  using dbl_round_nonneg[of "s * of_int kMicroSecondsPerSecond"]
  by (simp add: addTime_def cast_int64_def Let_def kMicroSecondsPerSecond_def)

text \<open>On a whole number of microseconds below \<open>2 ^ 53\<close> the product is exact.\<close>

lemma round_half_even_int [simp]: "round_half_even (of_int n) = n"
  by (simp add: round_half_even_def)

lemma dbl_round_int:
  assumes "0 < n" and "n < 2 ^ 53"
  shows "dbl_round (of_int n) = of_int n"
proof -
  let ?k = "floorlog 2 (nat n)"
  have "2 ^ (?k - 1) \<le> nat n"
    using floorlog_bounds[of "nat n" 2] assms(1) by auto
  moreover have "nat n < 2 ^ 53" using assms by (simp add: nat_less_iff)
  ultimately have "(2::nat) ^ (?k - 1) < 2 ^ 53" by linarith
  then have "?k - 1 < 53" by (simp only: power_strict_increasing_iff)
  then have k: "?k \<le> 53" by simp
  have u: "dbl_ulp (of_int n) = 1 / 2 ^ (53 - ?k)"
    using k assms(1) by (simp add: dbl_ulp_def power_diff)
  have "(of_int n :: rat) / dbl_ulp (of_int n) = of_int (n * 2 ^ (53 - ?k))"
    by (simp add: u)
  then have "round_half_even (of_int n / dbl_ulp (of_int n)) = n * 2 ^ (53 - ?k)"
    by (simp only: round_half_even_int)
  then show ?thesis by (simp add: dbl_round_def u)
qed

lemma addTime_exact:
  assumes "s * 1000000 = of_int n" and "0 < n" and "n < 2 ^ 53"
  shows "addTime t s = t + n"
  using assms dbl_round_int[of n]
  by (simp add: addTime_def kMicroSecondsPerSecond_def cast_int64_def Let_def)

section \<open>Timer\<close>

record 'cb timer =
  callback :: 'cb
  expiration :: timestamp
  interval :: rat
  repeat :: bool
  sequence :: int

text \<open>The constructor; \<open>n\<close> is the value of \<open>s_numCreated_\<close> after the increment.\<close>

definition new_Timer :: "'cb \<Rightarrow> timestamp \<Rightarrow> rat \<Rightarrow> int \<Rightarrow> 'cb timer" where
  "new_Timer cb when ivl n =
     \<lparr>callback = cb, expiration = when, interval = ivl, repeat = (ivl > 0), sequence = n\<rparr>"

definition restart :: "'cb timer \<Rightarrow> timestamp \<Rightarrow> 'cb timer" where
  "restart t now =
     (if repeat t then t\<lparr>expiration := addTime now (interval t)\<rparr>
      else t\<lparr>expiration := Timestamp_invalid\<rparr>)"

lemma restart_simps [simp]:
  "sequence (restart t now) = sequence t" "repeat (restart t now) = repeat t"
  "interval (restart t now) = interval t" "callback (restart t now) = callback t"
  by (simp_all add: restart_def)

end
