(* ===== verification/Timer_Queue.thy ===== *)
theory Timer_Queue
  imports Timestamps "HOL-Library.Extended_Nat"
begin

text \<open>
  The timer queue of an event loop (\<open>muduo/net/TimerQueue.h\<close>, \<open>TimerQueue.cc\<close>, \<open>TimerId.h\<close>).
  Timers are heap objects named by their address; \<open>heap\<close> maps the live ones, so that \<open>None\<close> out
  of a dereference is a use after free.  The two ordered sets are strictly sorted lists.  The
  clock and the state of the \<open>timerfd\<close> are part of the model's state.  Two parameters stand for
  code outside the repository: \<open>alloc\<close>, the address \<open>operator new\<close> returns for a given heap, and
  \<open>beh\<close>, what a user's timer callback does: the calls it makes on the queue, one after another.
  Memory is unbounded: the address of an object is a finite \<^typ>\<open>enat\<close>, and the pointer
  \<open>UINTPTR_MAX\<close> of the sentry in \<open>getExpired\<close>, which no object has, is \<open>\<infinity>\<close>.
\<close>

type_synonym addr = enat

record timespec =
  tv_sec :: int
  tv_nsec :: int

text \<open>\<open>timerfd\<close>: when it was armed and with what, \<open>None\<close> once its expiry has been read.\<close>

record 'cb tqueue =
  clock :: timestamp
  timerfd :: "(timestamp \<times> timespec) option"
  heap :: "addr \<Rightarrow> 'cb timer option"
  numCreated :: int
  timers :: "(timestamp \<times> addr) list"
  activeTimers :: "(addr \<times> int) list"
  callingExpiredTimers :: bool
  cancelingTimers :: "(addr \<times> int) list"

type_synonym timer_id = "addr \<times> int"

definition UINTPTR_MAX :: addr where
  "UINTPTR_MAX = \<infinity>"

definition new_TimerQueue :: "timestamp \<Rightarrow> int \<Rightarrow> 'cb tqueue" where
  "new_TimerQueue now created =
     \<lparr>clock = now, timerfd = None, heap = Map.empty, numCreated = created, timers = [],
      activeTimers = [], callingExpiredTimers = False, cancelingTimers = []\<rparr>"

definition howMuchTimeFromNow :: "timestamp \<Rightarrow> timestamp \<Rightarrow> timespec" where
  "howMuchTimeFromNow now when =
     (let microseconds0 = when - now;
          microseconds = (if microseconds0 < 100 then 100 else microseconds0)
      in \<lparr>tv_sec = microseconds sdiv kMicroSecondsPerSecond,
          tv_nsec = (microseconds smod kMicroSecondsPerSecond) * 1000\<rparr>)"

definition resetTimerfd :: "'cb tqueue \<Rightarrow> timestamp \<Rightarrow> 'cb tqueue" where
  "resetTimerfd s when = s\<lparr>timerfd := Some (clock s, howMuchTimeFromNow (clock s) when)\<rparr>"

text \<open>When an armed \<open>timerfd\<close> becomes readable, in microseconds.\<close>

definition fires_at :: "timestamp \<times> timespec \<Rightarrow> timestamp" where
  "fires_at a = fst a + tv_sec (snd a) * 1000000 + tv_nsec (snd a) div 1000"

text \<open>Reading consumes an expiry; if there is none the read fails, which is only logged.\<close>

definition readTimerfd :: "'cb tqueue \<Rightarrow> 'cb tqueue" where
  "readTimerfd s = (case timerfd s of
       None \<Rightarrow> s
     | Some a \<Rightarrow> if fires_at a \<le> clock s then s\<lparr>timerfd := None\<rparr> else s)"

definition tq_insert :: "'cb tqueue \<Rightarrow> addr \<Rightarrow> (bool \<times> 'cb tqueue) option" where
  "tq_insert s timer = do {
     assert_that (length (timers s) = length (activeTimers s));
     t \<leftarrow> heap s timer;
     let when = expiration t;
     let earliestChanged = (timers s = [] \<or> when < fst (hd (timers s)));
     let r1 = set_insert (when, timer) (timers s);
     assert_that (snd r1);
     let r2 = set_insert (timer, sequence t) (activeTimers s);
     assert_that (snd r2);
     let s' = s\<lparr>timers := fst r1, activeTimers := fst r2\<rparr>;
     assert_that (length (timers s') = length (activeTimers s'));
     Some (earliestChanged, s')
   }"

definition addTimerInLoop :: "'cb tqueue \<Rightarrow> addr \<Rightarrow> 'cb tqueue option" where
  "addTimerInLoop s timer = do {
     (earliestChanged, s1) \<leftarrow> tq_insert s timer;
     if earliestChanged then do {
       t \<leftarrow> heap s1 timer;
       Some (resetTimerfd s1 (expiration t))
     } else Some s1
   }"

definition alloc_timer ::
    "((addr \<Rightarrow> 'cb timer option) \<Rightarrow> addr) \<Rightarrow> 'cb tqueue \<Rightarrow> 'cb \<Rightarrow> timestamp \<Rightarrow> rat \<Rightarrow> addr \<times> 'cb tqueue" where
  "alloc_timer alloc s cb when ivl =
     (let timer = alloc (heap s); n = numCreated s + 1
      in (timer, s\<lparr>heap := (heap s)(timer := Some (new_Timer cb when ivl n)), numCreated := n\<rparr>))"

text \<open>The last line of \<open>addTimer\<close>, which reads the timer.\<close>

definition timerId_of :: "'cb tqueue \<Rightarrow> addr \<Rightarrow> timer_id option" where
  "timerId_of s timer = do { t \<leftarrow> heap s timer; Some (timer, sequence t) }"

text \<open>\<open>addTimer\<close> in the loop's own thread, where \<open>runInLoop\<close> runs its argument at once.\<close>

definition addTimer ::
    "((addr \<Rightarrow> 'cb timer option) \<Rightarrow> addr) \<Rightarrow> 'cb tqueue \<Rightarrow> 'cb \<Rightarrow> timestamp \<Rightarrow> rat \<Rightarrow>
     (timer_id \<times> 'cb tqueue) option" where
  "addTimer alloc s cb when ivl = do {
     let (timer, s1) = alloc_timer alloc s cb when ivl;
     s2 \<leftarrow> addTimerInLoop s1 timer;
     timerId \<leftarrow> timerId_of s2 timer;
     Some (timerId, s2)
   }"

definition cancelInLoop :: "'cb tqueue \<Rightarrow> timer_id \<Rightarrow> 'cb tqueue option" where
  "cancelInLoop s timerId = do {
     assert_that (length (timers s) = length (activeTimers s));
     s' \<leftarrow> (if timerId \<in> set (activeTimers s) then do {
             t \<leftarrow> heap s (fst timerId);
             let r = set_erase (expiration t, fst timerId) (timers s);
             assert_that (snd r = 1);
             Some (s\<lparr>timers := fst r,
                     heap := (heap s)(fst timerId := None),
                     activeTimers := fst (set_erase timerId (activeTimers s))\<rparr>)
           }
           else if callingExpiredTimers s
           then Some (s\<lparr>cancelingTimers := fst (set_insert timerId (cancelingTimers s))\<rparr>)
           else Some s);
     assert_that (length (timers s') = length (activeTimers s'));
     Some s'
   }"

text \<open>The loop of \<open>getExpired\<close> that takes the expired timers out of \<open>activeTimers_\<close>.\<close>

fun erase_active :: "(timestamp \<times> addr) list \<Rightarrow> 'cb tqueue \<Rightarrow> 'cb tqueue option" where
  "erase_active [] s = Some s"
| "erase_active (it # its) s = do {
     t \<leftarrow> heap s (snd it);
     let r = set_erase (snd it, sequence t) (activeTimers s);
     assert_that (snd r = 1);
     erase_active its (s\<lparr>activeTimers := fst r\<rparr>)
   }"

definition getExpired :: "'cb tqueue \<Rightarrow> timestamp \<Rightarrow> ((timestamp \<times> addr) list \<times> 'cb tqueue) option" where
  "getExpired s now = do {
     assert_that (length (timers s) = length (activeTimers s));
     let sentry = (now, UINTPTR_MAX);
     let e = lower_bound sentry (timers s);
     assert_that (e = length (timers s) \<or> now < fst (timers s ! e));
     let expired = take e (timers s);
     s' \<leftarrow> erase_active expired (s\<lparr>timers := drop e (timers s)\<rparr>);
     assert_that (length (timers s') = length (activeTimers s'));
     Some (expired, s')
   }"

fun reset_loop :: "(timestamp \<times> addr) list \<Rightarrow> timestamp \<Rightarrow> 'cb tqueue \<Rightarrow> 'cb tqueue option" where
  "reset_loop [] now s = Some s"
| "reset_loop (it # its) now s = do {
     t \<leftarrow> heap s (snd it);
     if repeat t \<and> (snd it, sequence t) \<notin> set (cancelingTimers s) then do {
       r \<leftarrow> tq_insert (s\<lparr>heap := (heap s)(snd it := Some (restart t now))\<rparr>) (snd it);
       reset_loop its now (snd r)
     } else reset_loop its now (s\<lparr>heap := (heap s)(snd it := None)\<rparr>)
   }"

definition reset :: "'cb tqueue \<Rightarrow> (timestamp \<times> addr) list \<Rightarrow> timestamp \<Rightarrow> 'cb tqueue option" where
  "reset s expired now = do {
     s1 \<leftarrow> reset_loop expired now s;
     nextExpire \<leftarrow> (case timers s1 of
         [] \<Rightarrow> Some Timestamp_invalid
       | e # _ \<Rightarrow> map_option expiration (heap s1 (snd e)));
     Some (if valid nextExpire then resetTimerfd s1 nextExpire else s1)
   }"

text \<open>
  What a callback may do to the queue.  \<open>Elapse\<close> is time passing, and not a call.
\<close>

datatype 'cb tq_op = AddTimer 'cb timestamp rat | CancelTimer timer_id | Elapse int

fun tq_exec ::
    "((addr \<Rightarrow> 'cb timer option) \<Rightarrow> addr) \<Rightarrow> 'cb tq_op \<Rightarrow> 'cb tqueue \<Rightarrow> 'cb tqueue option" where
  "tq_exec alloc (AddTimer cb when ivl) s = map_option snd (addTimer alloc s cb when ivl)"
| "tq_exec alloc (CancelTimer timerId) s = cancelInLoop s timerId"
| "tq_exec alloc (Elapse d) s = Some (s\<lparr>clock := clock s + \<bar>d\<bar>\<rparr>)"

fun tq_exec_all ::
    "((addr \<Rightarrow> 'cb timer option) \<Rightarrow> addr) \<Rightarrow> 'cb tq_op list \<Rightarrow> 'cb tqueue \<Rightarrow> 'cb tqueue option" where
  "tq_exec_all alloc [] s = Some s"
| "tq_exec_all alloc (op # ops) s = do { s' \<leftarrow> tq_exec alloc op s; tq_exec_all alloc ops s' }"

type_synonym 'cb behaviour = "'cb \<Rightarrow> 'cb tqueue \<Rightarrow> 'cb tq_op list"

fun run_expired ::
    "((addr \<Rightarrow> 'cb timer option) \<Rightarrow> addr) \<Rightarrow> 'cb behaviour \<Rightarrow> (timestamp \<times> addr) list \<Rightarrow>
     'cb tqueue \<Rightarrow> 'cb tqueue option" where
  "run_expired alloc beh [] s = Some s"
| "run_expired alloc beh (it # its) s = do {
     t \<leftarrow> heap s (snd it);
     s' \<leftarrow> tq_exec_all alloc (beh (callback t) s) s;
     run_expired alloc beh its s'
   }"

definition handleRead ::
    "((addr \<Rightarrow> 'cb timer option) \<Rightarrow> addr) \<Rightarrow> 'cb behaviour \<Rightarrow> 'cb tqueue \<Rightarrow> 'cb tqueue option" where
  "handleRead alloc beh s = do {
     let now = clock s;
     (expired, s1) \<leftarrow> getExpired (readTimerfd s) now;
     s2 \<leftarrow> run_expired alloc beh expired (s1\<lparr>callingExpiredTimers := True, cancelingTimers := []\<rparr>);
     reset (s2\<lparr>callingExpiredTimers := False\<rparr>) expired now
   }"

text \<open>The destructor deletes what the queue holds; deleting a dead timer would be undefined.\<close>

fun delete_timers :: "(timestamp \<times> addr) list \<Rightarrow> (addr \<Rightarrow> 'cb timer option) \<Rightarrow> (addr \<Rightarrow> 'cb timer option) option" where
  "delete_timers [] h = Some h"
| "delete_timers (it # its) h = do { _ \<leftarrow> h (snd it); delete_timers its (h(snd it := None)) }"

definition delete_TimerQueue :: "'cb tqueue \<Rightarrow> 'cb tqueue option" where
  "delete_TimerQueue s = do {
     h \<leftarrow> delete_timers (timers s) (heap s);
     Some (s\<lparr>timerfd := None, heap := h\<rparr>)
   }"

section \<open>Invariant\<close>

text \<open>
  \<open>A\<close> are the addresses of the timers in the queue, \<open>E\<close> those of the timers taken out by
  \<open>getExpired\<close> and not yet given back by \<open>reset\<close>.  Both sets hold the same timers, every entry
  carries its timer's expiration and sequence number, and these are exactly the live timers.
\<close>

definition tq_inv :: "addr set \<Rightarrow> addr set \<Rightarrow> 'cb tqueue \<Rightarrow> bool" where
  "tq_inv A E s \<longleftrightarrow>
     strictly_sorted (timers s) \<and> strictly_sorted (activeTimers s) \<and>
     (\<forall>e a. (e, a) \<in> set (timers s) \<longleftrightarrow> a \<in> A \<and> e = expiration (the (heap s a))) \<and>
     (\<forall>a q. (a, q) \<in> set (activeTimers s) \<longleftrightarrow> a \<in> A \<and> q = sequence (the (heap s a))) \<and>
     dom (heap s) = A \<union> E \<and> A \<inter> E = {} \<and> finite (dom (heap s)) \<and> \<infinity> \<notin> dom (heap s) \<and>
     (\<forall>a t. heap s a = Some t \<longrightarrow> sequence t \<le> numCreated s \<and> (repeat t \<longleftrightarrow> 0 < interval t))"

definition tq_wf :: "'cb tqueue \<Rightarrow> bool" where
  "tq_wf s \<longleftrightarrow> tq_inv (snd ` set (timers s)) {} s"

text \<open>\<open>operator new\<close> returns the address of a new object.\<close>

definition alloc_ok :: "((addr \<Rightarrow> 'cb timer option) \<Rightarrow> addr) \<Rightarrow> bool" where
  "alloc_ok alloc \<longleftrightarrow> (\<forall>h. finite (dom h) \<longrightarrow> alloc h \<notin> dom h \<and> alloc h \<noteq> \<infinity>)"

lemma tq_invD:
  assumes "tq_inv A E s"
  shows "strictly_sorted (timers s)" "strictly_sorted (activeTimers s)"
    "(e, a) \<in> set (timers s) \<longleftrightarrow> a \<in> A \<and> e = expiration (the (heap s a))"
    "(a, q) \<in> set (activeTimers s) \<longleftrightarrow> a \<in> A \<and> q = sequence (the (heap s a))"
    "A \<subseteq> dom (heap s)" "E \<subseteq> dom (heap s)" "A \<inter> E = {}" "finite (dom (heap s))" "\<infinity> \<notin> dom (heap s)"
    "heap s b = Some t \<Longrightarrow> sequence t \<le> numCreated s"
    "heap s b = Some t \<Longrightarrow> repeat t \<longleftrightarrow> 0 < interval t"
    "dom (heap s) = A \<union> E"
  using assms unfolding tq_inv_def by blast+

lemma tq_inv_frame:
  "heap s' = heap s \<Longrightarrow> timers s' = timers s \<Longrightarrow> activeTimers s' = activeTimers s \<Longrightarrow>
   numCreated s' = numCreated s \<Longrightarrow> tq_inv A E s' = tq_inv A E s"
  by (simp only: tq_inv_def)

lemma tq_inv_addrs: "tq_inv A E s \<Longrightarrow> snd ` set (timers s) = A"
  using tq_invD(3)[of A E s] by (force simp: image_iff)

lemma tq_inv_wf: "tq_inv A {} s \<Longrightarrow> tq_wf s"
  by (simp add: tq_wf_def tq_inv_addrs)

lemma tq_inv_lengths:
  assumes "tq_inv A E s"
  shows "length (timers s) = length (activeTimers s)"
proof -
  have f: "set (timers s) = (\<lambda>a. (expiration (the (heap s a)), a)) ` A"
    and g: "set (activeTimers s) = (\<lambda>a. (a, sequence (the (heap s a)))) ` A"
    using tq_invD(3,4)[OF assms] by (auto simp: image_iff)
  have "card (set (timers s)) = card A" unfolding f by (rule card_image) (simp add: inj_on_def)
  moreover have "card (set (activeTimers s)) = card A"
    unfolding g by (rule card_image) (simp add: inj_on_def)
  ultimately show ?thesis
    using tq_invD(1,2)[OF assms] by (simp add: strictly_sorted_length)
qed

lemma tq_inv_timers_iff:
  "tq_inv A E s \<Longrightarrow> heap s a = Some t \<Longrightarrow> (e, a) \<in> set (timers s) \<longleftrightarrow> a \<in> A \<and> e = expiration t"
  by (simp add: tq_invD)

lemma tq_inv_live: "tq_inv A E s \<Longrightarrow> a \<in> A \<union> E \<Longrightarrow> \<exists>t. heap s a = Some t"
  using tq_invD(5,6)[of A E s] by blast

lemma tq_inv_notin_timers:
  "tq_inv A E s \<Longrightarrow> a \<notin> A \<Longrightarrow> (e, a) \<notin> set (timers s) \<and> (a, q) \<notin> set (activeTimers s)"
  by (simp add: tq_invD)

lemma tq_inv_active_in:
  assumes "tq_inv A E s" and "(a, q) \<in> set (activeTimers s)"
  shows "a \<in> A \<and> (\<exists>t. heap s a = Some t \<and> q = sequence t)"
proof -
  have "a \<in> A" and q: "q = sequence (the (heap s a))"
    using assms(2) tq_invD(4)[OF assms(1)] by blast+
  moreover obtain t where "heap s a = Some t" using tq_inv_live[OF assms(1)] \<open>a \<in> A\<close> by blast
  ultimately show ?thesis by simp
qed

text \<open>The heap matters only at the addresses the two sets mention.\<close>

lemma tq_inv_heap_update:
  assumes inv: "tq_inv A E s" and a: "a \<notin> A" "a \<noteq> \<infinity>"
    and t: "sequence t \<le> numCreated s'" "repeat t \<longleftrightarrow> 0 < interval t"
    and s': "timers s' = timers s" "activeTimers s' = activeTimers s" "heap s' = (heap s)(a := Some t)"
      "numCreated s \<le> numCreated s'"
  shows "tq_inv A (insert a E) s'"
proof -
  have "sequence u \<le> numCreated s' \<and> (repeat u \<longleftrightarrow> 0 < interval u)" if u: "heap s' b = Some u" for b u
  proof (cases "b = a")
    case True
    with u s'(3) t show ?thesis by simp
  next
    case False
    with u s'(3) have "heap s b = Some u" by simp
    with tq_invD(10,11)[OF inv this] s'(4) show ?thesis by auto
  qed
  moreover have "b \<in> A \<Longrightarrow> heap s' b = heap s b" for b using a s'(3) by auto
  ultimately show ?thesis
    unfolding tq_inv_def using tq_invD(1-4,7-9,12)[OF inv] a s' by (auto cong: conj_cong)
qed

lemma tq_inv_heap_delete:
  assumes inv: "tq_inv A E s" and a: "a \<notin> A"
  shows "tq_inv A (E - {a}) (s\<lparr>heap := (heap s)(a := None)\<rparr>)"
proof -
  have "b \<in> A \<Longrightarrow> ((heap s)(a := None)) b = heap s b" for b using a by auto
  then show ?thesis
    unfolding tq_inv_def using tq_invD(1-4,7-9,12)[OF inv] tq_invD(10,11)[OF inv] a
    by (auto cong: conj_cong)
qed

section \<open>The operations keep the invariant\<close>

lemma tq_insert_ok:
  assumes inv: "tq_inv A E s" and t: "heap s a = Some t" and a: "a \<notin> A"
  defines "s' \<equiv> s\<lparr>timers := fst (set_insert (expiration t, a) (timers s)),
                  activeTimers := fst (set_insert (a, sequence t) (activeTimers s))\<rparr>"
  shows "tq_insert s a = Some (timers s = [] \<or> expiration t < fst (hd (timers s)), s')"
    and "tq_inv (insert a A) (E - {a}) s'"
proof -
  show inv': "tq_inv (insert a A) (E - {a}) s'"
    unfolding tq_inv_def s'_def
    using tq_invD(1-4,7-9,12)[OF inv] tq_invD(10,11)[OF inv] t a by auto
  have "snd (set_insert (expiration t, a) (timers s))"
    using inv tq_inv_notin_timers[OF inv a] by (simp add: set_insert_flag tq_inv_def)
  moreover have "snd (set_insert (a, sequence t) (activeTimers s))"
    using inv tq_inv_notin_timers[OF inv a] by (simp add: set_insert_flag tq_inv_def)
  ultimately show "tq_insert s a = Some (timers s = [] \<or> expiration t < fst (hd (timers s)), s')"
    using t tq_inv_lengths[OF inv] tq_inv_lengths[OF inv']
    by (simp add: tq_insert_def Let_def s'_def)
qed

lemma resetTimerfd_inv [simp]: "tq_inv A E (resetTimerfd s when) = tq_inv A E s"
  by (simp add: tq_inv_def resetTimerfd_def)

lemma resetTimerfd_simps [simp]:
  "heap (resetTimerfd s w) = heap s" "timers (resetTimerfd s w) = timers s"
  "activeTimers (resetTimerfd s w) = activeTimers s" "clock (resetTimerfd s w) = clock s"
  "numCreated (resetTimerfd s w) = numCreated s" "cancelingTimers (resetTimerfd s w) = cancelingTimers s"
  "callingExpiredTimers (resetTimerfd s w) = callingExpiredTimers s"
  by (simp_all add: resetTimerfd_def)

lemma cancelInLoop_ok:
  assumes inv: "tq_inv A E s"
  shows "\<exists>s'. cancelInLoop s (a, q) = Some s' \<and>
     (if (a, q) \<in> set (activeTimers s)
      then tq_inv (A - {a}) E s' \<and> heap s' = (heap s)(a := None) \<and> cancelingTimers s' = cancelingTimers s \<and>
           set (timers s') \<subseteq> set (timers s)
      else tq_inv A E s' \<and> heap s' = heap s \<and> timers s' = timers s \<and>
           set (cancelingTimers s') = (if callingExpiredTimers s then insert (a, q) (set (cancelingTimers s))
                                       else set (cancelingTimers s))) \<and>
     clock s' = clock s \<and> timerfd s' = timerfd s \<and> numCreated s' = numCreated s \<and>
     callingExpiredTimers s' = callingExpiredTimers s"
proof (cases "(a, q) \<in> set (activeTimers s)")
  case True
  then obtain t where a: "a \<in> A" and t: "heap s a = Some t" and q: "q = sequence t"
    using tq_inv_active_in[OF inv] by blast
  let ?s = "s\<lparr>timers := fst (set_erase (expiration t, a) (timers s)), heap := (heap s)(a := None),
              activeTimers := fst (set_erase (a, q) (activeTimers s))\<rparr>"
  have "(expiration t, a) \<in> set (timers s)" using tq_inv_timers_iff[OF inv t] a by simp
  then have n: "snd (set_erase (expiration t, a) (timers s)) = 1" by (simp add: set_erase_def)
  have "b \<in> A - {a} \<Longrightarrow> ((heap s)(a := None)) b = heap s b" for b by auto
  then have inv': "tq_inv (A - {a}) E ?s"
    unfolding tq_inv_def using tq_invD(1-4,7-9,12)[OF inv] tq_invD(10,11)[OF inv] a t q
    by (auto cong: conj_cong)
  with True t n show ?thesis
    using tq_inv_lengths[OF inv] tq_inv_lengths[OF inv'] by (auto simp: cancelInLoop_def Let_def)
next
  case False
  have "tq_inv A E (s\<lparr>cancelingTimers := c\<rparr>)" for c
    using inv tq_inv_frame[of "s\<lparr>cancelingTimers := c\<rparr>" s] by simp
  with False show ?thesis
    using inv tq_inv_lengths[OF inv] by (auto simp: cancelInLoop_def)
qed

section \<open>Waking up in time\<close>

text \<open>
  The \<open>timerfd\<close> is armed for the earliest timer: it fires no later than that timer expires, or
  100 microseconds after it was armed if that is later.
\<close>

definition armed :: "'cb tqueue \<Rightarrow> bool" where
  "armed s \<longleftrightarrow> (\<exists>a. timerfd s = Some a \<and> fst a \<le> clock s \<and>
     fires_at a \<le> max (fst a + 100) (fst (hd (timers s))))"

definition armed_if :: "(timestamp \<Rightarrow> bool) \<Rightarrow> 'cb tqueue \<Rightarrow> bool" where
  "armed_if P s \<longleftrightarrow> (timers s \<noteq> [] \<and> P (fst (hd (timers s))) \<longrightarrow> armed s)"

definition down_closed :: "(timestamp \<Rightarrow> bool) \<Rightarrow> bool" where
  "down_closed P \<longleftrightarrow> (\<forall>x y. y \<le> x \<and> P x \<longrightarrow> P y)"

lemma fires_at_howMuch: "fires_at (now, howMuchTimeFromNow now when) = max (now + 100) when"
proof -
  define m where "m = (if when - now < 100 then 100 else when - now)"
  have "0 \<le> m" by (simp add: m_def)
  then have "m sdiv kMicroSecondsPerSecond = m div 1000000" "m smod kMicroSecondsPerSecond = m mod 1000000"
    by (simp_all add: kMicroSecondsPerSecond_def signed_divide_int_def signed_modulo_int_def
        minus_div_mult_eq_mod sgn_if)
  then have "fires_at (now, howMuchTimeFromNow now when) = now + m div 1000000 * 1000000 + m mod 1000000"
    unfolding fires_at_def howMuchTimeFromNow_def by (simp add: Let_def m_def[symmetric])
  also have "\<dots> = now + m" by simp
  finally show ?thesis by (simp add: m_def max_def)
qed

lemma armed_resetTimerfd: "fst (hd (timers s)) = when \<Longrightarrow> armed (resetTimerfd s when)"
  by (simp add: armed_def resetTimerfd_def fires_at_howMuch)

lemma armed_mono:
  assumes "armed s" and "timerfd s' = timerfd s" and "clock s \<le> clock s'"
    and "fst (hd (timers s)) \<le> fst (hd (timers s'))"
  shows "armed s'"
  using assms unfolding armed_def by (force simp: max_def split: if_splits)

lemma armed_if_subset:
  assumes arm: "armed_if P s" and P: "down_closed P" and srt: "strictly_sorted (timers s)"
    and sub: "set (timers s') \<subseteq> set (timers s)"
    and s': "timerfd s' = timerfd s" "clock s \<le> clock s'"
  shows "armed_if P s'"
  unfolding armed_if_def
proof
  assume ne: "timers s' \<noteq> [] \<and> P (fst (hd (timers s')))"
  then have "hd (timers s') \<in> set (timers s)" using sub by auto
  then have "hd (timers s) \<le> hd (timers s')" by (rule strictly_sorted_hd_least[OF srt])
  then have le: "fst (hd (timers s)) \<le> fst (hd (timers s'))" by (auto simp: less_eq_prod_def)
  with ne P have "P (fst (hd (timers s)))" unfolding down_closed_def by blast
  moreover have "timers s \<noteq> []" using \<open>hd (timers s') \<in> set (timers s)\<close> by auto
  ultimately have "armed s" using arm by (simp add: armed_if_def)
  then show "armed s'" using s' le by (rule armed_mono)
qed

lemma hd_set_insert:
  "fst (hd (fst (set_insert (w, a) xs))) = (if xs = [] \<or> w < fst (hd xs) then w else fst (hd xs))"
  by (cases xs) (auto simp: less_prod_def)

lemma set_insert_not_Nil [simp]: "fst (set_insert x xs) \<noteq> []"
  by (cases xs) auto

section \<open>Adding\<close>

lemma addTimer_ok:
  assumes inv: "tq_inv A E s" and al: "alloc_ok alloc"
  defines "a \<equiv> alloc (heap s)" and "n \<equiv> numCreated s + 1"
  shows "\<exists>s'. addTimer alloc s cb when ivl = Some ((a, n), s') \<and> a \<notin> dom (heap s) \<and>
     tq_inv (insert a A) E s' \<and> heap s' = (heap s)(a := Some (new_Timer cb when ivl n)) \<and>
     set (activeTimers s') = insert (a, n) (set (activeTimers s)) \<and>
     numCreated s' = n \<and> clock s' = clock s \<and> cancelingTimers s' = cancelingTimers s \<and>
     callingExpiredTimers s' = callingExpiredTimers s \<and>
     (\<forall>P. down_closed P \<and> armed_if P s \<longrightarrow> armed_if P s')"
proof -
  let ?t = "new_Timer cb when ivl n"
  let ?s1 = "s\<lparr>heap := (heap s)(a := Some ?t), numCreated := n\<rparr>"
  have fresh: "a \<notin> dom (heap s)" "a \<noteq> \<infinity>"
    using al tq_invD(8)[OF inv] by (simp_all add: alloc_ok_def a_def)
  then have aA: "a \<notin> A" "a \<notin> E" using tq_invD(5,6)[OF inv] by auto
  have inv1: "tq_inv A (insert a E) ?s1"
    by (rule tq_inv_heap_update[OF inv aA(1) fresh(2), of ?t]) (simp_all add: new_Timer_def n_def)
  have t1: "heap ?s1 a = Some ?t" by simp
  let ?s2 = "?s1\<lparr>timers := fst (set_insert (when, a) (timers s)),
                 activeTimers := fst (set_insert (a, n) (activeTimers s))\<rparr>"
  let ?early = "timers s = [] \<or> when < fst (hd (timers s))"
  have ins: "tq_insert ?s1 a = Some (?early, ?s2)" and inv2: "tq_inv (insert a A) (insert a E - {a}) ?s2"
    using tq_insert_ok[OF inv1 t1 aA(1)] by (simp_all add: new_Timer_def)
  let ?s3 = "if ?early then resetTimerfd ?s2 when else ?s2"
  have "addTimer alloc s cb when ivl = Some ((a, n), ?s3)"
    using ins by (simp add: addTimer_def timerId_of_def alloc_timer_def addTimerInLoop_def a_def n_def new_Timer_def Let_def)
  moreover have "tq_inv (insert a A) E ?s3" using inv2 aA(2) by simp
  moreover have "armed_if P ?s3" if P: "down_closed P" and arm: "armed_if P s" for P
  proof (cases ?early)
    case True
    then have "armed ?s3" by (simp add: armed_resetTimerfd hd_set_insert)
    then show ?thesis by (simp add: armed_if_def)
  next
    case False
    then show ?thesis using arm
      by (auto simp: armed_if_def armed_def hd_set_insert)
  qed
  ultimately show ?thesis using fresh(1) by auto
qed

section \<open>What callbacks and callers do to the queue\<close>

text \<open>
  The effect that every sequence of calls has: the timers taken out for expiry stay untouched, the
  numbering grows, and the timers in the queue are the old ones or ones numbered later.
\<close>

definition evolves :: "addr set \<Rightarrow> 'cb tqueue \<Rightarrow> addr set \<Rightarrow> 'cb tqueue \<Rightarrow> bool" where
  "evolves E s A' s' \<longleftrightarrow>
     tq_inv A' E s' \<and> (\<forall>a\<in>E. heap s' a = heap s a) \<and> numCreated s \<le> numCreated s' \<and>
     clock s \<le> clock s' \<and> callingExpiredTimers s' = callingExpiredTimers s \<and>
     set (cancelingTimers s) \<subseteq> set (cancelingTimers s') \<and>
     (\<forall>P. down_closed P \<and> armed_if P s \<longrightarrow> armed_if P s') \<and>
     (\<forall>a q. (a, q) \<in> set (activeTimers s') \<longrightarrow> (a, q) \<in> set (activeTimers s) \<or> numCreated s < q)"

lemma evolves_refl: "tq_inv A E s \<Longrightarrow> evolves E s A s"
  by (simp add: evolves_def)

lemma evolves_trans:
  assumes "evolves E s A1 s1" and "evolves E s1 A2 s2"
  shows "evolves E s A2 s2"
  unfolding evolves_def
proof (intro conjI allI impI ballI)
  fix a q assume "(a, q) \<in> set (activeTimers s2)"
  then have "(a, q) \<in> set (activeTimers s1) \<or> numCreated s1 < q"
    using assms(2) by (simp add: evolves_def)
  then show "(a, q) \<in> set (activeTimers s) \<or> numCreated s < q"
    using assms(1) unfolding evolves_def by (meson order.strict_trans1)
next
  fix P assume "down_closed P \<and> armed_if P s"
  then show "armed_if P s2" using assms unfolding evolves_def by blast
qed (use assms in \<open>auto simp: evolves_def\<close>)

lemma cancel_evolves:
  assumes inv: "tq_inv A E s"
  shows "\<exists>A' s'. cancelInLoop s (a, q) = Some s' \<and> evolves E s A' s' \<and>
     (a, q) \<notin> set (activeTimers s') \<and>
     (callingExpiredTimers s \<and> (a, q) \<notin> set (activeTimers s) \<longrightarrow> (a, q) \<in> set (cancelingTimers s'))"
proof (cases "(a, q) \<in> set (activeTimers s)")
  case True
  then have aA: "a \<in> A" and aE: "a \<notin> E"
    using tq_inv_active_in[OF inv] tq_invD(7)[OF inv] by blast+
  obtain s' where c: "cancelInLoop s (a, q) = Some s'" and inv': "tq_inv (A - {a}) E s'"
    and s': "heap s' = (heap s)(a := None)" "cancelingTimers s' = cancelingTimers s"
      "set (timers s') \<subseteq> set (timers s)" "clock s' = clock s" "timerfd s' = timerfd s"
      "numCreated s' = numCreated s" "callingExpiredTimers s' = callingExpiredTimers s"
    using cancelInLoop_ok[OF inv, of a q] True by auto
  have "(b, p) \<in> set (activeTimers s)" "b \<noteq> a" if "(b, p) \<in> set (activeTimers s')" for b p
    using that s'(1) by (auto simp: tq_invD(4)[OF inv] tq_invD(4)[OF inv'])
  moreover have "armed_if P s'" if "down_closed P" "armed_if P s" for P
    using armed_if_subset[OF that(2,1) tq_invD(1)[OF inv] s'(3,5)] s'(4) by simp
  ultimately have "evolves E s (A - {a}) s'" "(a, q) \<notin> set (activeTimers s')"
    using inv' s' aE unfolding evolves_def by auto
  with c True show ?thesis by blast
next
  case False
  then obtain s' where c: "cancelInLoop s (a, q) = Some s'" and inv': "tq_inv A E s'"
    and s': "heap s' = heap s" "timers s' = timers s" "clock s' = clock s" "timerfd s' = timerfd s"
      "numCreated s' = numCreated s" "callingExpiredTimers s' = callingExpiredTimers s"
    and canc: "set (cancelingTimers s') = (if callingExpiredTimers s then insert (a, q) (set (cancelingTimers s))
                                       else set (cancelingTimers s))"
    using cancelInLoop_ok[OF inv, of a q] by auto
  have act: "(b, p) \<in> set (activeTimers s') \<longleftrightarrow> (b, p) \<in> set (activeTimers s)" for b p
    using s'(1) by (simp add: tq_invD(4)[OF inv] tq_invD(4)[OF inv'])
  have "armed_if P s'" if "down_closed P" "armed_if P s" for P
    using armed_if_subset[OF that(2,1) tq_invD(1)[OF inv] _ s'(4)] s'(2,3) by simp
  then have "evolves E s A s'" using inv' s' canc act unfolding evolves_def by auto
  with c False act canc show ?thesis by auto
qed

lemma tq_exec_ok:
  assumes inv: "tq_inv A E s" and al: "alloc_ok alloc"
  shows "\<exists>A' s'. tq_exec alloc op s = Some s' \<and> evolves E s A' s'"
proof (cases op)
  case (AddTimer cb w ivl)
  obtain s' where s': "addTimer alloc s cb w ivl = Some ((alloc (heap s), numCreated s + 1), s')"
      "alloc (heap s) \<notin> dom (heap s)" "tq_inv (insert (alloc (heap s)) A) E s'"
      "heap s' = (heap s)(alloc (heap s) := Some (new_Timer cb w ivl (numCreated s + 1)))"
      "set (activeTimers s') = insert (alloc (heap s), numCreated s + 1) (set (activeTimers s))"
      "numCreated s' = numCreated s + 1" "clock s' = clock s" "cancelingTimers s' = cancelingTimers s"
      "callingExpiredTimers s' = callingExpiredTimers s"
      "\<forall>P. down_closed P \<and> armed_if P s \<longrightarrow> armed_if P s'"
    using addTimer_ok[OF inv al, of cb w ivl] by blast
  have "evolves E s (insert (alloc (heap s)) A) s'"
    using s' tq_invD(6)[OF inv] unfolding evolves_def by auto
  with s'(1) AddTimer show ?thesis by auto
next
  case (CancelTimer tid)
  with cancel_evolves[OF inv, of "fst tid" "snd tid"] show ?thesis by auto
next
  case (Elapse d)
  have "armed_if P (s\<lparr>clock := clock s + \<bar>d\<bar>\<rparr>)" if "armed_if P s" for P
    using that unfolding armed_if_def armed_def by force
  moreover have "tq_inv A E (s\<lparr>clock := clock s + \<bar>d\<bar>\<rparr>)"
    using inv tq_inv_frame[of "s\<lparr>clock := clock s + \<bar>d\<bar>\<rparr>" s] by simp
  ultimately have "evolves E s A (s\<lparr>clock := clock s + \<bar>d\<bar>\<rparr>)" by (simp add: evolves_def)
  with Elapse show ?thesis by auto
qed

lemma tq_exec_all_ok:
  assumes al: "alloc_ok alloc"
  shows "tq_inv A E s \<Longrightarrow> \<exists>A' s'. tq_exec_all alloc ops s = Some s' \<and> evolves E s A' s'"
proof (induction ops arbitrary: A s)
  case Nil
  then show ?case using evolves_refl by auto
next
  case (Cons op ops)
  obtain A1 s1 where 1: "tq_exec alloc op s = Some s1" "evolves E s A1 s1"
    using tq_exec_ok[OF Cons.prems al] by blast
  then have "tq_inv A1 E s1" by (simp add: evolves_def)
  then obtain A2 s2 where "tq_exec_all alloc ops s1 = Some s2" "evolves E s1 A2 s2"
    using Cons.IH by blast
  with 1 show ?case by (auto intro: evolves_trans)
qed

lemma run_expired_ok:
  assumes al: "alloc_ok alloc"
  shows "tq_inv A E s \<Longrightarrow> snd ` set its \<subseteq> E \<Longrightarrow>
    \<exists>A' s'. run_expired alloc beh its s = Some s' \<and> evolves E s A' s'"
proof (induction its arbitrary: A s)
  case Nil
  then show ?case using evolves_refl by auto
next
  case (Cons it its)
  obtain t where t: "heap s (snd it) = Some t" using tq_inv_live[OF Cons.prems(1), of "snd it"] Cons.prems(2) by auto
  have sub: "snd ` set its \<subseteq> E" using Cons.prems(2) by simp
  obtain A1 s1 where 1: "tq_exec_all alloc (beh (callback t) s) s = Some s1" "evolves E s A1 s1"
    using tq_exec_all_ok[OF al Cons.prems(1)] by blast
  then have "tq_inv A1 E s1" by (simp add: evolves_def)
  then obtain A2 s2 where "run_expired alloc beh its s1 = Some s2" "evolves E s1 A2 s2"
    using Cons.IH[OF _ sub] by blast
  with 1 t show ?case by (auto intro: evolves_trans)
qed

text \<open>A timer identity that is out of the queue for good.\<close>

definition dead :: "addr set \<Rightarrow> 'cb tqueue \<Rightarrow> timer_id \<Rightarrow> bool" where
  "dead E s i \<longleftrightarrow> snd i \<le> numCreated s \<and> i \<notin> set (activeTimers s) \<and>
     (fst i \<in> E \<and> snd i = sequence (the (heap s (fst i))) \<longrightarrow> i \<in> set (cancelingTimers s))"

lemma dead_stable: "dead E s i \<Longrightarrow> evolves E s A' s' \<Longrightarrow> dead E s' i"
  unfolding dead_def evolves_def by (cases i) fastforce

lemma cancel_dead:
  assumes inv: "tq_inv A E s" and calling: "callingExpiredTimers s" and n: "snd i \<le> numCreated s"
  shows "\<exists>A' s'. cancelInLoop s i = Some s' \<and> evolves E s A' s' \<and> dead E s' i"
proof -
  obtain a q where i: "i = (a, q)" by (cases i)
  from cancel_evolves[OF inv, of a q] obtain A' s' where
    s': "cancelInLoop s (a, q) = Some s'" "evolves E s A' s'" "(a, q) \<notin> set (activeTimers s')"
      "(a, q) \<notin> set (activeTimers s) \<Longrightarrow> (a, q) \<in> set (cancelingTimers s')"
    using calling by blast
  have "(a, q) \<notin> set (activeTimers s)" if "a \<in> E"
    using that tq_invD(4,7)[OF inv] by blast
  then have "dead E s' i" using s' n i unfolding dead_def evolves_def by auto
  with s' i show ?thesis by blast
qed

lemma tq_exec_all_dead:
  assumes al: "alloc_ok alloc"
  shows "tq_inv A E s \<Longrightarrow> callingExpiredTimers s \<Longrightarrow> snd i \<le> numCreated s \<Longrightarrow>
    CancelTimer i \<in> set ops \<Longrightarrow> tq_exec_all alloc ops s = Some s' \<Longrightarrow> dead E s' i"
proof (induction ops arbitrary: A s)
  case Nil
  then show ?case by simp
next
  case (Cons op ops)
  obtain A1 s1 where 1: "tq_exec alloc op s = Some s1" "evolves E s A1 s1"
    using tq_exec_ok[OF Cons.prems(1) al] by blast
  then have inv1: "tq_inv A1 E s1" by (simp add: evolves_def)
  have rest: "tq_exec_all alloc ops s1 = Some s'" using Cons.prems(5) 1 by simp
  show ?case
  proof (cases "op = CancelTimer i")
    case True
    then have "dead E s1 i" using cancel_dead[OF Cons.prems(1-3)] 1 by auto
    moreover obtain A2 s2 where "tq_exec_all alloc ops s1 = Some s2" "evolves E s1 A2 s2"
      using tq_exec_all_ok[OF al inv1] by blast
    ultimately show ?thesis using rest by (auto intro: dead_stable)
  next
    case False
    then show ?thesis using Cons.IH[OF inv1 _ _ _ rest] Cons.prems 1(2) by (auto simp: evolves_def)
  qed
qed

text \<open>Whether some callback of the batch cancels the timer \<open>i\<close>.\<close>

fun cancels_in ::
    "((addr \<Rightarrow> 'cb timer option) \<Rightarrow> addr) \<Rightarrow> 'cb behaviour \<Rightarrow> (timestamp \<times> addr) list \<Rightarrow>
     'cb tqueue \<Rightarrow> timer_id \<Rightarrow> bool" where
  "cancels_in alloc beh [] s i = False"
| "cancels_in alloc beh (it # its) s i = (case heap s (snd it) of
       None \<Rightarrow> False
     | Some t \<Rightarrow> CancelTimer i \<in> set (beh (callback t) s) \<or>
         (case tq_exec_all alloc (beh (callback t) s) s of
            None \<Rightarrow> False | Some s' \<Rightarrow> cancels_in alloc beh its s' i))"

lemma run_expired_dead:
  assumes al: "alloc_ok alloc"
  shows "tq_inv A E s \<Longrightarrow> snd ` set its \<subseteq> E \<Longrightarrow> callingExpiredTimers s \<Longrightarrow> snd i \<le> numCreated s \<Longrightarrow>
    cancels_in alloc beh its s i \<Longrightarrow> run_expired alloc beh its s = Some s' \<Longrightarrow> dead E s' i"
proof (induction its arbitrary: A s)
  case Nil
  then show ?case by simp
next
  case (Cons it its)
  obtain t where t: "heap s (snd it) = Some t" using tq_inv_live[OF Cons.prems(1), of "snd it"] Cons.prems(2) by auto
  have sub: "snd ` set its \<subseteq> E" using Cons.prems(2) by simp
  obtain A1 s1 where 1: "tq_exec_all alloc (beh (callback t) s) s = Some s1" "evolves E s A1 s1"
    using tq_exec_all_ok[OF al Cons.prems(1)] by blast
  then have inv1: "tq_inv A1 E s1" by (simp add: evolves_def)
  have rest: "run_expired alloc beh its s1 = Some s'" using Cons.prems(6) 1 t by simp
  show ?case
  proof (cases "CancelTimer i \<in> set (beh (callback t) s)")
    case True
    then have "dead E s1 i" using tq_exec_all_dead[OF al Cons.prems(1,3,4) True 1(1)] by simp
    moreover obtain A2 s2 where "run_expired alloc beh its s1 = Some s2" "evolves E s1 A2 s2"
      using run_expired_ok[OF al inv1 sub] by blast
    ultimately show ?thesis using rest by (auto intro: dead_stable)
  next
    case False
    then show ?thesis
      using Cons.IH[OF inv1 _ _ _ _ rest] Cons.prems 1 t by (auto simp: evolves_def)
  qed
qed

section \<open>Taking out the expired timers\<close>

lemma erase_active_ok:
  "\<lbrakk> \<forall>it\<in>set its. \<exists>t. heap s (snd it) = Some t \<and> (snd it, sequence t) \<in> set (activeTimers s);
     distinct (map snd its); strictly_sorted (activeTimers s) \<rbrakk> \<Longrightarrow>
   \<exists>acts. erase_active its s = Some (s\<lparr>activeTimers := acts\<rparr>) \<and> strictly_sorted acts \<and>
     set acts = set (activeTimers s) - (\<lambda>it. (snd it, sequence (the (heap s (snd it))))) ` set its"
proof (induction its arbitrary: s)
  case Nil
  then show ?case by (intro exI[of _ "activeTimers s"]) simp
next
  case (Cons it its)
  obtain t where t: "heap s (snd it) = Some t" "(snd it, sequence t) \<in> set (activeTimers s)"
    using Cons.prems(1) by auto
  let ?s = "s\<lparr>activeTimers := fst (set_erase (snd it, sequence t) (activeTimers s))\<rparr>"
  have one: "snd (set_erase (snd it, sequence t) (activeTimers s)) = 1" using t(2) by (simp add: set_erase_def)
  have "\<forall>i\<in>set its. \<exists>t. heap ?s (snd i) = Some t \<and> (snd i, sequence t) \<in> set (activeTimers ?s)"
  proof
    fix i assume i: "i \<in> set its"
    then have "snd i \<noteq> snd it" using Cons.prems(2) by (auto simp: rev_image_eqI)
    then show "\<exists>t. heap ?s (snd i) = Some t \<and> (snd i, sequence t) \<in> set (activeTimers ?s)"
      using Cons.prems(1) i by auto
  qed
  then obtain acts where acts: "erase_active its ?s = Some (?s\<lparr>activeTimers := acts\<rparr>)" "strictly_sorted acts"
      "set acts = set (activeTimers ?s) - (\<lambda>it. (snd it, sequence (the (heap ?s (snd it))))) ` set its"
    using Cons.IH[of ?s] Cons.prems(2,3) by auto
  have "erase_active (it # its) s = Some (s\<lparr>activeTimers := acts\<rparr>)"
    using t one acts(1) by (simp add: Let_def)
  moreover have "set acts = set (activeTimers s) - (\<lambda>it. (snd it, sequence (the (heap s (snd it))))) ` set (it # its)"
    using acts(3) t(1) by auto
  ultimately show ?case using acts(2) by blast
qed

lemma sentry_iff: "a \<noteq> \<infinity> \<Longrightarrow> (e :: timestamp, a) < (now, UINTPTR_MAX) \<longleftrightarrow> e \<le> now"
  by (auto simp: less_prod_def UINTPTR_MAX_def)

lemma tq_inv_distinct_addrs:
  assumes "tq_inv A E s"
  shows "distinct (map snd (timers s))"
proof -
  have "inj_on snd (set (timers s))"
    by (rule inj_onI) (use tq_invD(3)[OF assms] in \<open>auto simp: prod_eq_iff\<close>)
  then show ?thesis using tq_invD(1)[OF assms] by (simp add: distinct_map strictly_sorted_distinct)
qed

lemma getExpired_ok:
  fixes now :: timestamp
  assumes inv: "tq_inv A {} s"
  defines "expired \<equiv> filter (\<lambda>e. fst e \<le> now) (timers s)" and "X \<equiv> {a \<in> A. expiration (the (heap s a)) \<le> now}"
  shows "\<exists>acts. getExpired s now = Some (expired, s\<lparr>timers := filter (\<lambda>e. now < fst e) (timers s), activeTimers := acts\<rparr>) \<and>
     tq_inv (A - X) X (s\<lparr>timers := filter (\<lambda>e. now < fst e) (timers s), activeTimers := acts\<rparr>) \<and>
     snd ` set expired = X \<and> distinct (map snd expired)"
proof -
  let ?later = "filter (\<lambda>e. now < fst e) (timers s)"
  let ?sentry = "(now, UINTPTR_MAX) :: timestamp \<times> addr"
  note srt = tq_invD(1)[OF inv]
  have "A \<subseteq> dom (heap s)" "\<infinity> \<notin> dom (heap s)" using tq_invD(5,9)[OF inv] by simp_all
  then have fin: "snd e \<noteq> \<infinity>" if "e \<in> set (timers s)" for e
    using that tq_invD(3)[OF inv, of "fst e" "snd e"] by auto
  then have lt: "e < ?sentry \<longleftrightarrow> fst e \<le> now" if "e \<in> set (timers s)" for e
    using that sentry_iff[of "snd e" "fst e" now] by simp
  have take: "take (lower_bound ?sentry (timers s)) (timers s) = expired"
    unfolding take_lower_bound[OF srt] expired_def
    by (rule filter_cong) (simp_all add: lt not_le)
  have drop: "drop (lower_bound ?sentry (timers s)) (timers s) = ?later"
    unfolding drop_lower_bound[OF srt]
    by (rule filter_cong) (simp_all add: lt not_le)
  have sentry: "now < fst (timers s ! lower_bound ?sentry (timers s))"
    if "lower_bound ?sentry (timers s) \<noteq> length (timers s)"
  proof -
    have lt: "lower_bound ?sentry (timers s) < length (timers s)"
      using that by (simp add: lower_bound_def length_takeWhile_le order.not_eq_order_implies_strict)
    have "timers s ! lower_bound ?sentry (timers s) \<in> set ?later"
      unfolding drop[symmetric] using lt by (metis Cons_nth_drop_Suc list.set_intros(1))
    then show ?thesis by simp
  qed
  have X: "snd ` set expired = X"
    unfolding expired_def X_def using tq_invD(3)[OF inv] by (force simp: image_iff)
  have dist: "distinct (map snd expired)"
    unfolding expired_def using tq_inv_distinct_addrs[OF inv] by (rule distinct_map_filter)
  have live: "\<forall>it\<in>set expired. \<exists>t. heap s (snd it) = Some t \<and> (snd it, sequence t) \<in> set (activeTimers s)"
  proof
    fix it assume "it \<in> set expired"
    then have "snd it \<in> A" using X X_def by auto
    then show "\<exists>t. heap s (snd it) = Some t \<and> (snd it, sequence t) \<in> set (activeTimers s)"
      using tq_inv_live[OF inv, of "snd it"] tq_invD(4)[OF inv] by auto
  qed
  obtain acts where acts: "erase_active expired (s\<lparr>timers := ?later\<rparr>) = Some (s\<lparr>timers := ?later, activeTimers := acts\<rparr>)"
      "strictly_sorted acts"
      "set acts = set (activeTimers s) - (\<lambda>it. (snd it, sequence (the (heap s (snd it))))) ` set expired"
    using erase_active_ok[of expired "s\<lparr>timers := ?later\<rparr>"] live dist tq_invD(2)[OF inv] by auto
  let ?s = "s\<lparr>timers := ?later, activeTimers := acts\<rparr>"
  have mem: "(a, q) \<in> set acts \<longleftrightarrow> a \<in> A - X \<and> q = sequence (the (heap s a))" for a q
  proof -
    have "(a, q) \<in> set acts \<longleftrightarrow> a \<in> A \<and> q = sequence (the (heap s a)) \<and> a \<notin> snd ` set expired"
      unfolding acts(3) using tq_invD(4)[OF inv] by (auto simp: image_iff)
    then show ?thesis using X by auto
  qed
  have memt: "(e, a) \<in> set ?later \<longleftrightarrow> a \<in> A - X \<and> e = expiration (the (heap s a))" for e a
    using tq_invD(3)[OF inv, of e a] by (auto simp: X_def)
  have "X \<subseteq> A" by (auto simp: X_def)
  then have inv': "tq_inv (A - X) X ?s"
    unfolding tq_inv_def
    using tq_invD(12,8,9)[OF inv] tq_invD(10,11)[OF inv] acts(2) strictly_sorted_filter[OF srt]
    by (simp add: mem memt[unfolded set_filter mem_Collect_eq fst_conv]) blast
  have "getExpired s now = Some (expired, ?s)"
    using tq_inv_lengths[OF inv] tq_inv_lengths[OF inv'] take drop sentry acts(1)
    by (auto simp: getExpired_def Let_def)
  with inv' X dist show ?thesis by blast
qed

section \<open>Giving the expired timers back\<close>

definition kept :: "'cb tqueue \<Rightarrow> addr \<Rightarrow> bool" where
  "kept s a \<longleftrightarrow> (case heap s a of None \<Rightarrow> False
     | Some t \<Rightarrow> repeat t \<and> (a, sequence t) \<notin> set (cancelingTimers s))"

abbreviation nonpositive :: "timestamp \<Rightarrow> bool" where
  "nonpositive x \<equiv> x \<le> 0"

lemma down_closed_nonpositive [simp]: "down_closed nonpositive"
  by (auto simp: down_closed_def)

lemma reset_step:
  assumes inv: "tq_inv A E s" and a: "a \<in> E" and t: "heap s a = Some t" and "repeat t"
    and now: "0 < now" "armed_if nonpositive s"
  shows "\<exists>b s'. tq_insert (s\<lparr>heap := (heap s)(a := Some (restart t now))\<rparr>) a = Some (b, s') \<and>
     tq_inv (insert a A) (E - {a}) s' \<and> heap s' = (heap s)(a := Some (restart t now)) \<and>
     armed_if nonpositive s' \<and> clock s' = clock s \<and> timerfd s' = timerfd s \<and>
     cancelingTimers s' = cancelingTimers s \<and> numCreated s' = numCreated s \<and>
     callingExpiredTimers s' = callingExpiredTimers s"
proof -
  let ?s1 = "s\<lparr>heap := (heap s)(a := Some (restart t now))\<rparr>"
  have "0 < interval t" using tq_invD(11)[OF inv t] \<open>repeat t\<close> by simp
  then have pos: "0 < expiration (restart t now)"
    using \<open>repeat t\<close> now(1) addTime_ge[of "interval t" now] by (simp add: restart_def)
  have aA: "a \<notin> A" using a tq_invD(7)[OF inv] by blast
  have ainf: "a \<noteq> \<infinity>" using a t tq_invD(9)[OF inv] by (metis domI)
  have r: "sequence (restart t now) = sequence t" "repeat (restart t now) = repeat t"
    "interval (restart t now) = interval t" by (simp_all add: restart_def)
  have "tq_inv A (insert a E) ?s1"
    by (rule tq_inv_heap_update[OF inv aA ainf, of "restart t now"]) (use r tq_invD(10,11)[OF inv t] in auto)
  then have inv1: "tq_inv A E ?s1" using a by (simp add: insert_absorb)
  obtain b s' where ins: "tq_insert ?s1 a = Some (b, s')" "tq_inv (insert a A) (E - {a}) s'"
    and s': "s' = ?s1\<lparr>timers := fst (set_insert (expiration (restart t now), a) (timers s)),
                activeTimers := fst (set_insert (a, sequence (restart t now)) (activeTimers s))\<rparr>"
    using tq_insert_ok[OF inv1 _ aA, of "restart t now"] by simp
  moreover have "armed_if nonpositive s'"
    using now(2) pos unfolding s' armed_if_def armed_def by (auto simp: hd_set_insert)
  ultimately show ?thesis by (auto simp: s')
qed

lemma reset_loop_ok:
  assumes now: "0 < now"
  shows "\<lbrakk> tq_inv A E s; snd ` set its \<subseteq> E; distinct (map snd its); armed_if nonpositive s \<rbrakk> \<Longrightarrow>
   \<exists>s'. reset_loop its now s = Some s' \<and>
     tq_inv (A \<union> {a \<in> snd ` set its. kept s a}) (E - snd ` set its) s' \<and> armed_if nonpositive s' \<and>
     (\<forall>a. heap s' a = (if a \<in> snd ` set its
        then (if kept s a then Some (restart (the (heap s a)) now) else None) else heap s a)) \<and>
     clock s' = clock s \<and> timerfd s' = timerfd s \<and> cancelingTimers s' = cancelingTimers s \<and>
     numCreated s' = numCreated s \<and> callingExpiredTimers s' = callingExpiredTimers s"
proof (induction its arbitrary: A E s)
  case Nil
  then show ?case by auto
next
  case (Cons it its)
  define a where "a = snd it"
  have aE: "a \<in> E" and anew: "a \<notin> snd ` set its" using Cons.prems(2,3) by (auto simp: a_def)
  have sub: "snd ` set its \<subseteq> E - {a}" using Cons.prems(2) anew by auto
  obtain t where t: "heap s a = Some t" using tq_inv_live[OF Cons.prems(1)] aE by blast
  have aA: "a \<notin> A" using aE tq_invD(7)[OF Cons.prems(1)] by blast
  have "\<exists>s1. reset_loop (it # its) now s = reset_loop its now s1 \<and>
      tq_inv (if kept s a then insert a A else A) (E - {a}) s1 \<and> armed_if nonpositive s1 \<and>
      heap s1 = (heap s)(a := if kept s a then Some (restart t now) else None) \<and>
      clock s1 = clock s \<and> timerfd s1 = timerfd s \<and> cancelingTimers s1 = cancelingTimers s \<and>
      numCreated s1 = numCreated s \<and> callingExpiredTimers s1 = callingExpiredTimers s"
  proof (cases "kept s a")
    case True
    then have "repeat t" "(a, sequence t) \<notin> set (cancelingTimers s)" using t by (simp_all add: kept_def)
    with reset_step[OF Cons.prems(1) aE t _ now Cons.prems(4)] True t show ?thesis
      by (fastforce simp: a_def)
  next
    case False
    then have "reset_loop (it # its) now s = reset_loop its now (s\<lparr>heap := (heap s)(a := None)\<rparr>)"
      using t by (auto simp: kept_def a_def)
    moreover have "armed_if nonpositive (s\<lparr>heap := (heap s)(a := None)\<rparr>)"
      using Cons.prems(4) by (simp add: armed_if_def armed_def)
    ultimately show ?thesis using tq_inv_heap_delete[OF Cons.prems(1) aA] False
      by (intro exI[of _ "s\<lparr>heap := (heap s)(a := None)\<rparr>"]) simp
  qed
  then obtain s1 where step: "reset_loop (it # its) now s = reset_loop its now s1"
    and s1: "tq_inv (if kept s a then insert a A else A) (E - {a}) s1" "armed_if nonpositive s1"
      "heap s1 = (heap s)(a := if kept s a then Some (restart t now) else None)"
      "clock s1 = clock s" "timerfd s1 = timerfd s" "cancelingTimers s1 = cancelingTimers s"
      "numCreated s1 = numCreated s" "callingExpiredTimers s1 = callingExpiredTimers s"
    by blast
  have k: "kept s1 b \<longleftrightarrow> kept s b" if "b \<in> snd ` set its" for b
  proof -
    have "b \<noteq> a" using that anew by blast
    then show ?thesis by (simp add: kept_def s1(3,6) split: option.split)
  qed
  have "distinct (map snd its)" using Cons.prems(3) by simp
  from Cons.IH[OF s1(1) sub this s1(2)] obtain s' where s': "reset_loop its now s1 = Some s'"
      "tq_inv ((if kept s a then insert a A else A) \<union> {b \<in> snd ` set its. kept s1 b}) (E - {a} - snd ` set its) s'"
      "armed_if nonpositive s'"
      "\<And>b. heap s' b = (if b \<in> snd ` set its
        then (if kept s1 b then Some (restart (the (heap s1 b)) now) else None) else heap s1 b)"
      "clock s' = clock s" "timerfd s' = timerfd s" "cancelingTimers s' = cancelingTimers s"
      "numCreated s' = numCreated s" "callingExpiredTimers s' = callingExpiredTimers s"
    unfolding s1 by blast
  have A: "(if kept s a then insert a A else A) \<union> {b \<in> snd ` set its. kept s1 b} =
      A \<union> {b \<in> snd ` set (it # its). kept s b}" using k by (auto simp: a_def)
  have E: "E - {a} - snd ` set its = E - snd ` set (it # its)" by (auto simp: a_def)
  have "heap s' b = (if b \<in> snd ` set (it # its)
        then (if kept s b then Some (restart (the (heap s b)) now) else None) else heap s b)" for b
    unfolding s'(4) using k anew s1(3) t by (auto simp: a_def)
  with s' step A E show ?case by auto
qed

lemma reset_ok:
  assumes now: "0 < now" and s: "tq_inv A E s" "snd ` set its = E" "distinct (map snd its)"
    "armed_if nonpositive s"
  shows "\<exists>s'. reset s its now = Some s' \<and> tq_inv (A \<union> {a \<in> E. kept s a}) {} s' \<and>
     armed_if (\<lambda>_. True) s' \<and>
     (\<forall>a. heap s' a = (if a \<in> E
        then (if kept s a then Some (restart (the (heap s a)) now) else None) else heap s a)) \<and>
     clock s' = clock s \<and> cancelingTimers s' = cancelingTimers s \<and> numCreated s' = numCreated s \<and>
     callingExpiredTimers s' = callingExpiredTimers s"
proof -
  obtain s1 where s1: "reset_loop its now s = Some s1"
    "tq_inv (A \<union> {a \<in> E. kept s a}) {} s1" "armed_if nonpositive s1"
    "\<forall>a. heap s1 a = (if a \<in> E
        then (if kept s a then Some (restart (the (heap s a)) now) else None) else heap s a)"
    "clock s1 = clock s" "cancelingTimers s1 = cancelingTimers s" "numCreated s1 = numCreated s"
    "callingExpiredTimers s1 = callingExpiredTimers s"
    using reset_loop_ok[OF now s(1) _ s(3,4)] s(2) by auto
  show ?thesis
  proof (cases "timers s1")
    case Nil
    then have "reset s its now = Some s1"
      using s1(1) by (simp add: reset_def valid_def Timestamp_invalid_def)
    moreover have "armed_if (\<lambda>_. True) s1" using Nil by (simp add: armed_if_def)
    ultimately show ?thesis using s1 by blast
  next
    case (Cons e es)
    then have "(fst e, snd e) \<in> set (timers s1)" by simp
    then have "snd e \<in> A \<union> {a \<in> E. kept s a}" and ex: "fst e = expiration (the (heap s1 (snd e)))"
      unfolding tq_invD(3)[OF s1(2)] by simp_all
    then obtain t where t: "heap s1 (snd e) = Some t" "fst e = expiration t"
      using tq_inv_live[OF s1(2)] by auto
    let ?s = "if valid (fst e) then resetTimerfd s1 (fst e) else s1"
    have "reset s its now = Some ?s" using s1(1) Cons t by (simp add: reset_def)
    moreover have "armed_if (\<lambda>_. True) ?s"
      using s1(3) Cons armed_resetTimerfd[of s1 "fst e"] by (auto simp: armed_if_def valid_def)
    ultimately show ?thesis using s1 by (auto split: if_splits)
  qed
qed

lemma readTimerfd_simps [simp]:
  "heap (readTimerfd s) = heap s" "timers (readTimerfd s) = timers s"
  "activeTimers (readTimerfd s) = activeTimers s" "clock (readTimerfd s) = clock s"
  "numCreated (readTimerfd s) = numCreated s" "tq_inv A E (readTimerfd s) = tq_inv A E s"
  by (auto simp: readTimerfd_def tq_inv_def split: option.splits)

text \<open>
  One wakeup, in full: \<open>s1\<close> is the queue as the first callback finds it, \<open>s2\<close> as the last one
  leaves it.
\<close>

lemma handleRead_ok:
  assumes inv: "tq_inv A {} s" and al: "alloc_ok alloc" and clk: "0 < clock s"
  defines "expired \<equiv> filter (\<lambda>e. fst e \<le> clock s) (timers s)"
    and "X \<equiv> {a \<in> A. expiration (the (heap s a)) \<le> clock s}"
  shows "\<exists>s0 s1 A2 s2 s'. getExpired (readTimerfd s) (clock s) = Some (expired, s0) \<and>
     s1 = s0\<lparr>callingExpiredTimers := True, cancelingTimers := []\<rparr> \<and> tq_inv (A - X) X s1 \<and>
     heap s1 = heap s \<and> numCreated s1 = numCreated s \<and> snd ` set expired = X \<and>
     run_expired alloc beh expired s1 = Some s2 \<and> evolves X s1 A2 s2 \<and>
     handleRead alloc beh s = Some s' \<and> tq_inv (A2 \<union> {a \<in> X. kept s2 a}) {} s' \<and>
     armed_if (\<lambda>_. True) s' \<and>
     (\<forall>a. heap s' a = (if a \<in> X
        then (if kept s2 a then Some (restart (the (heap s a)) (clock s)) else None) else heap s2 a)) \<and>
     clock s \<le> clock s' \<and> cancelingTimers s' = cancelingTimers s2 \<and> numCreated s' = numCreated s2 \<and>
     \<not> callingExpiredTimers s'"
proof -
  have inv_r: "tq_inv A {} (readTimerfd s)" using inv by simp
  let ?later = "filter (\<lambda>e. clock s < fst e) (timers s)"
  obtain acts where g: "getExpired (readTimerfd s) (clock s) =
        Some (expired, (readTimerfd s)\<lparr>timers := ?later, activeTimers := acts\<rparr>)"
      "tq_inv (A - X) X ((readTimerfd s)\<lparr>timers := ?later, activeTimers := acts\<rparr>)"
      "snd ` set expired = X" "distinct (map snd expired)"
    using getExpired_ok[OF inv_r, of "clock s"] unfolding expired_def X_def by auto
  define s0 where "s0 = (readTimerfd s)\<lparr>timers := ?later, activeTimers := acts\<rparr>"
  define s1 where "s1 = s0\<lparr>callingExpiredTimers := True, cancelingTimers := []\<rparr>"
  have inv1: "tq_inv (A - X) X s1"
    using g(2) tq_inv_frame[of s1 "(readTimerfd s)\<lparr>timers := ?later, activeTimers := acts\<rparr>"]
    by (simp add: s0_def s1_def)
  have s1: "heap s1 = heap s" "numCreated s1 = numCreated s" "clock s1 = clock s" "callingExpiredTimers s1"
    by (simp_all add: s1_def s0_def)
  obtain A2 s2 where s2: "run_expired alloc beh expired s1 = Some s2" "evolves X s1 A2 s2"
    using run_expired_ok[OF al inv1] g(3) by blast
  define s3 where "s3 = s2\<lparr>callingExpiredTimers := False\<rparr>"
  have inv3: "tq_inv A2 X s3" using s2(2) tq_inv_frame[of s3 s2] by (simp add: evolves_def s3_def)
  have k: "kept s3 = kept s2" by (simp add: kept_def s3_def fun_eq_iff split: option.split)
  have "timers s1 \<noteq> [] \<Longrightarrow> 0 < fst (hd (timers s1))"
    using clk list.set_sel(1)[of ?later] by (auto simp: s1_def s0_def)
  then have "armed_if nonpositive s1" by (auto simp: armed_if_def)
  then have "armed_if nonpositive s2" using s2(2) by (simp add: evolves_def)
  then have "armed_if nonpositive s3" by (simp add: armed_if_def armed_def s3_def)
  from reset_ok[OF clk inv3 g(3,4) this] obtain s' where s': "reset s3 expired (clock s) = Some s'"
      "tq_inv (A2 \<union> {a \<in> X. kept s2 a}) {} s'" "armed_if (\<lambda>_. True) s'"
      "\<forall>a. heap s' a = (if a \<in> X
        then (if kept s2 a then Some (restart (the (heap s2 a)) (clock s)) else None) else heap s2 a)"
      "clock s' = clock s2" "cancelingTimers s' = cancelingTimers s2" "numCreated s' = numCreated s2"
      "\<not> callingExpiredTimers s'"
    unfolding k by (auto simp: s3_def)
  have "handleRead alloc beh s = Some s'"
    using g(1) s2(1) s'(1) by (simp add: handleRead_def s0_def s1_def s3_def)
  moreover have "clock s \<le> clock s'" "\<And>a. a \<in> X \<Longrightarrow> heap s2 a = heap s a"
    using s2(2) s1 s'(5) by (simp_all add: evolves_def)
  ultimately show ?thesis using g(1,3) inv1 s1 s2 s' by (fold s0_def) (auto simp: s1_def)
qed

lemma delete_timers_ok:
  "distinct (map snd its) \<Longrightarrow> snd ` set its \<subseteq> dom h \<Longrightarrow>
   delete_timers its h = Some (h |` (- snd ` set its))"
proof (induction its arbitrary: h)
  case Nil
  then show ?case by simp
next
  case (Cons it its)
  obtain t where t: "h (snd it) = Some t" using Cons.prems(2) by auto
  have "snd ` set its \<subseteq> dom (h(snd it := None))" using Cons.prems by (simp add: subset_Diff_insert)
  then have "delete_timers its (h(snd it := None)) = Some ((h(snd it := None)) |` (- snd ` set its))"
    by (rule Cons.IH[rotated]) (use Cons.prems(1) in simp)
  moreover have "(h(snd it := None)) |` (- snd ` set its) = h |` (- snd ` set (it # its))"
    by (auto simp: restrict_map_def)
  ultimately show ?case using t by simp
qed

lemma delete_TimerQueue_ok:
  assumes "tq_wf s"
  shows "\<exists>s'. delete_TimerQueue s = Some s' \<and> heap s' = Map.empty"
proof -
  have inv: "tq_inv (snd ` set (timers s)) {} s" using assms by (simp add: tq_wf_def)
  have "delete_timers (timers s) (heap s) = Some (heap s |` (- snd ` set (timers s)))"
    by (rule delete_timers_ok[OF tq_inv_distinct_addrs[OF inv] tq_invD(5)[OF inv]])
  moreover have "heap s |` (- snd ` set (timers s)) = Map.empty"
    using tq_invD(12)[OF inv] by (auto simp: restrict_map_def fun_eq_iff)
  ultimately show ?thesis by (simp add: delete_TimerQueue_def)
qed

section \<open>Life of a queue\<close>

text \<open>
  Between two wakeups the loop's thread calls \<open>addTimer\<close> and \<open>cancel\<close> and time passes; a wakeup is
  one \<open>handleRead\<close>, with whatever the callbacks do.
\<close>

inductive tq_step :: "((addr \<Rightarrow> 'cb timer option) \<Rightarrow> addr) \<Rightarrow> 'cb tqueue \<Rightarrow> 'cb tqueue \<Rightarrow> bool"
  for alloc where
  call: "tq_exec alloc op s = Some s' \<Longrightarrow> tq_step alloc s s'"
| wakeup: "handleRead alloc beh s = Some s' \<Longrightarrow> tq_step alloc s s'"

definition tq_rest :: "'cb tqueue \<Rightarrow> bool" where
  "tq_rest s \<longleftrightarrow> tq_wf s \<and> 0 < clock s \<and> armed_if (\<lambda>_. True) s \<and> \<not> callingExpiredTimers s"

lemma tq_rest_new: "0 < now \<Longrightarrow> tq_rest (new_TimerQueue now created)"
  by (simp add: tq_rest_def tq_wf_def tq_inv_def armed_if_def new_TimerQueue_def)

lemma down_closed_True [simp]: "down_closed (\<lambda>_. True)"
  by (simp add: down_closed_def)

lemma evolves_rest: "evolves {} s A' s' \<Longrightarrow> tq_rest s \<Longrightarrow> tq_rest s'"
  unfolding evolves_def tq_rest_def
  by (metis down_closed_True order.strict_trans2 tq_inv_wf)

lemma tq_rest_inv: "tq_rest s \<Longrightarrow> tq_inv (snd ` set (timers s)) {} s"
  by (simp add: tq_rest_def tq_wf_def)

lemma tq_rest_clock: "tq_rest s \<Longrightarrow> 0 < clock s"
  by (simp add: tq_rest_def)

lemma tq_step_rest:
  assumes al: "alloc_ok alloc" and "tq_step alloc s s'" and rest: "tq_rest s"
  shows "tq_rest s'"
  using assms(2)
proof cases
  case (call op)
  obtain A' s'' where "tq_exec alloc op s = Some s''" "evolves {} s A' s''"
    using tq_exec_ok[OF tq_rest_inv[OF rest] al] by blast
  with call rest show ?thesis by (auto intro: evolves_rest)
next
  case (wakeup beh)
  then show ?thesis
    using handleRead_ok[OF tq_rest_inv[OF rest] al tq_rest_clock[OF rest], of beh] tq_rest_clock[OF rest]
    by (auto simp: tq_rest_def[of s'] intro: tq_inv_wf)
qed

lemma tq_steps_rest: "(tq_step alloc)\<^sup>*\<^sup>* s s' \<Longrightarrow> alloc_ok alloc \<Longrightarrow> tq_rest s \<Longrightarrow> tq_rest s'"
  by (induction rule: rtranclp_induct) (auto intro: tq_step_rest)

text \<open>A number that has left the queue never comes back.\<close>

definition gone :: "'cb tqueue \<Rightarrow> timer_id \<Rightarrow> bool" where
  "gone s i \<longleftrightarrow> snd i \<le> numCreated s \<and> i \<notin> set (activeTimers s)"

lemma handleRead_gone:
  assumes al: "alloc_ok alloc" and rest: "tq_rest s" and gone: "gone s i"
    and h: "handleRead alloc beh s = Some s'"
  shows "gone s' i"
proof -
  obtain a q where i: "i = (a, q)" by (cases i)
  define A where "A = snd ` set (timers s)"
  have inv: "tq_inv A {} s" and clk: "0 < clock s" using rest by (simp_all add: tq_rest_def tq_wf_def A_def)
  define X where "X = {a \<in> A. expiration (the (heap s a)) \<le> clock s}"
  obtain s1 A2 s2 where inv1: "tq_inv (A - X) X s1" and s1: "heap s1 = heap s" "numCreated s1 = numCreated s"
    and ev: "evolves X s1 A2 s2" and inv': "tq_inv (A2 \<union> {a \<in> X. kept s2 a}) {} s'"
    and heap': "\<And>a. heap s' a = (if a \<in> X
        then (if kept s2 a then Some (restart (the (heap s a)) (clock s)) else None) else heap s2 a)"
    and num': "numCreated s' = numCreated s2"
    using handleRead_ok[OF inv al clk, of beh, folded X_def] h by auto
  have inv2: "tq_inv A2 X s2" and num: "numCreated s \<le> numCreated s2" using ev s1 by (simp_all add: evolves_def)
  have "(a, q) \<in> set (activeTimers s)" if act: "(a, q) \<in> set (activeTimers s')"
  proof (cases "a \<in> X")
    case True
    then have "a \<in> A" "kept s2 a" using act tq_invD(4)[OF inv', of a q] tq_invD(7)[OF inv2] by (auto simp: X_def)
    then show ?thesis using act tq_invD(4)[OF inv', of a q] tq_invD(4)[OF inv, of a q] heap'[of a] True by simp
  next
    case False
    then have "(a, q) \<in> set (activeTimers s2)"
      using act tq_invD(4)[OF inv', of a q] tq_invD(4)[OF inv2, of a q] heap'[of a] by simp
    then have "(a, q) \<in> set (activeTimers s1)"
      using ev gone i s1(2) by (fastforce simp: evolves_def gone_def)
    then show ?thesis using tq_invD(4)[OF inv1, of a q] tq_invD(4)[OF inv, of a q] s1(1) by simp
  qed
  then show ?thesis using gone i num num' by (auto simp: gone_def)
qed

lemma tq_steps_gone:
  assumes "(tq_step alloc)\<^sup>*\<^sup>* s s'" and al: "alloc_ok alloc" and rest: "tq_rest s" and gone: "gone s i"
  shows "gone s' i"
  using assms(1)
proof (induction rule: rtranclp_induct)
  case base
  show ?case by (rule gone)
next
  case (step s1 s2)
  have rest1: "tq_rest s1" using step.hyps(1) al rest by (rule tq_steps_rest)
  from step.hyps(2) show ?case
  proof cases
    case (call op)
    obtain A' s'' where "tq_exec alloc op s1 = Some s''" "evolves {} s1 A' s''"
      using tq_exec_ok[OF tq_rest_inv[OF rest1] al] by blast
    with call step.IH show ?thesis by (cases i) (fastforce simp: evolves_def gone_def)
  next
    case (wakeup beh)
    then show ?thesis by (rule handleRead_gone[OF al rest1 step.IH])
  qed
qed

section \<open>Properties\<close>

text \<open>An allocator that satisfies \<^const>\<open>alloc_ok\<close>, for the witnesses: first fit.\<close>

definition first_fit :: "(addr \<Rightarrow> 'cb timer option) \<Rightarrow> addr" where
  "first_fit h = enat (LEAST n. h (enat n) = None)"

lemma first_fit_ok: "alloc_ok first_fit"
  unfolding alloc_ok_def
proof (intro allI impI)
  fix h :: "addr \<Rightarrow> 'cb timer option" assume "finite (dom h)"
  moreover have "infinite (range enat)" by (simp add: finite_image_iff inj_def)
  ultimately obtain n where "h (enat n) = None" by (meson domIff finite_subset image_subsetI)
  then have "h (enat (LEAST n. h (enat n) = None)) = None" by (rule LeastI)
  then show "first_fit h \<notin> dom h \<and> first_fit h \<noteq> \<infinity>" by (simp add: first_fit_def domIff)
qed

lemma first_fit_empty [simp]: "first_fit Map.empty = 0"
  by (simp add: first_fit_def zero_enat_def)

text \<open>
  C1. Whatever sequence of \<open>addTimer\<close>, \<open>cancel\<close> and timer wakeups a queue lives through, and whatever
  its callbacks add and cancel while they run, its two sets stay consistent with the timers, and
  the next call or wakeup neither fails an assertion nor touches a deleted timer.  The destructor
  deletes every timer still alive, each once, so none is leaked.
\<close>

theorem timer_queue_safe:
  assumes "alloc_ok alloc" and "0 < now" and "(tq_step alloc)\<^sup>*\<^sup>* (new_TimerQueue now created) s"
  shows "tq_wf s \<and> (\<forall>op. tq_exec alloc op s \<noteq> None) \<and> (\<forall>beh. handleRead alloc beh s \<noteq> None) \<and>
     (\<exists>s'. delete_TimerQueue s = Some s' \<and> heap s' = Map.empty)"
proof -
  have rest: "tq_rest s" using tq_steps_rest[OF assms(3,1) tq_rest_new[OF assms(2)]] .
  have "tq_exec alloc op s \<noteq> None" for op using tq_exec_ok[OF tq_rest_inv[OF rest] assms(1), of op] by auto
  moreover have "handleRead alloc beh s \<noteq> None" for beh
    using handleRead_ok[OF tq_rest_inv[OF rest] assms(1) tq_rest_clock[OF rest], of beh] by auto
  ultimately show ?thesis using rest delete_TimerQueue_ok[of s] by (simp add: tq_rest_def)
qed

theorem timer_queue_safe_witness:
  "handleRead first_fit (\<lambda>cb s. [CancelTimer (0, 1), AddTimer cb 9 0]) (new_TimerQueue 5 0 :: nat tqueue) \<noteq> None"
  using timer_queue_safe[OF first_fit_ok, of 5 0 "new_TimerQueue 5 0 :: nat tqueue"] by simp

text \<open>
  C30. No timer is forgotten: whenever the queue is not empty, the \<open>timerfd\<close> is armed, and fires no
  later than the earliest timer expires, or than 100 microseconds after it was armed.
\<close>

theorem timer_queue_armed:
  assumes "alloc_ok alloc" and "0 < now" and "(tq_step alloc)\<^sup>*\<^sup>* (new_TimerQueue now created) s"
    and "timers s \<noteq> []"
  shows "\<exists>a. timerfd s = Some a \<and> fst a \<le> clock s \<and> fires_at a \<le> max (fst a + 100) (fst (hd (timers s)))"
  using tq_steps_rest[OF assms(3,1) tq_rest_new[OF assms(2)]] assms(4)
  by (simp add: tq_rest_def armed_if_def armed_def)

definition example_queue :: "nat tqueue" where
  "example_queue = \<lparr>clock = 5, timerfd = Some (5, \<lparr>tv_sec = 0, tv_nsec = 395000\<rparr>),
     heap = [0 \<mapsto> \<lparr>callback = 7, expiration = 400, interval = 1 / 2, repeat = True, sequence = 1\<rparr>],
     numCreated = 1, timers = [(400, 0)], activeTimers = [(0, 1)], callingExpiredTimers = False,
     cancelingTimers = []\<rparr>"

lemma example_exec: "tq_exec first_fit (AddTimer 7 400 (1 / 2)) (new_TimerQueue 5 0) = Some example_queue"
  by (simp add: addTimer_def timerId_of_def alloc_timer_def addTimerInLoop_def tq_insert_def new_TimerQueue_def
      new_Timer_def Let_def resetTimerfd_def howMuchTimeFromNow_def kMicroSecondsPerSecond_def example_queue_def)

lemma example_steps: "(tq_step first_fit)\<^sup>*\<^sup>* (new_TimerQueue 5 0) example_queue"
  by (rule r_into_rtranclp[of "tq_step first_fit", OF tq_step.call[OF example_exec]])

lemma example_wf: "tq_wf example_queue"
  using tq_steps_rest[OF example_steps first_fit_ok tq_rest_new] by (simp add: tq_rest_def)

theorem timer_queue_armed_witness:
  "timers example_queue \<noteq> [] \<and> timerfd example_queue = Some (5, \<lparr>tv_sec = 0, tv_nsec = 395000\<rparr>) \<and>
   fires_at (5, \<lparr>tv_sec = 0, tv_nsec = 395000\<rparr>) \<le> 400"
  using timer_queue_armed[OF first_fit_ok _ example_steps] by (simp add: example_queue_def)

text \<open>
  \<open>getExpired\<close> returns exactly the timers whose expiration is not after \<open>now\<close>, in the order of
  their expirations, and takes exactly those out of both sets; no timer is deleted.
\<close>

theorem getExpired_exact:
  assumes "tq_wf s"
  shows "\<exists>s'. getExpired s now = Some (filter (\<lambda>e. fst e \<le> now) (timers s), s') \<and>
     sorted (map fst (filter (\<lambda>e. fst e \<le> now) (timers s))) \<and>
     timers s' = filter (\<lambda>e. now < fst e) (timers s) \<and>
     set (activeTimers s') = {i \<in> set (activeTimers s). now < expiration (the (heap s (fst i)))} \<and>
     heap s' = heap s"
proof -
  have inv: "tq_inv (snd ` set (timers s)) {} s" using assms by (simp add: tq_wf_def)
  let ?X = "{a \<in> snd ` set (timers s). expiration (the (heap s a)) \<le> now}"
  obtain acts where g: "getExpired s now = Some (filter (\<lambda>e. fst e \<le> now) (timers s),
        s\<lparr>timers := filter (\<lambda>e. now < fst e) (timers s), activeTimers := acts\<rparr>)"
    and inv': "tq_inv (snd ` set (timers s) - ?X) ?X
        (s\<lparr>timers := filter (\<lambda>e. now < fst e) (timers s), activeTimers := acts\<rparr>)"
    using getExpired_ok[OF inv, of now] by blast
  have "set acts = {i \<in> set (activeTimers s). now < expiration (the (heap s (fst i)))}"
    using tq_invD(4)[OF inv] tq_invD(4)[OF inv'] by auto
  moreover have "sorted_wrt (\<lambda>x y. fst x \<le> fst y) (timers s)"
    using tq_invD(1)[OF inv]
    by (rule sorted_wrt_mono_rel[rotated]) (auto simp: less_prod_def)
  then have "sorted (map fst (filter (\<lambda>e. fst e \<le> now) (timers s)))"
    by (simp add: sorted_map sorted_wrt_filter)
  ultimately show ?thesis using g by simp
qed

theorem getExpired_exact_witness:
  "\<exists>s'. getExpired example_queue 400 = Some ([(400, 0)], s') \<and> timers s' = [] \<and> set (activeTimers s') = {}"
  using getExpired_exact[OF example_wf, of 400] by (auto simp: example_queue_def cong: conj_cong)



text \<open>
  A callback of the batch may cancel any timer, its own and the other expired ones included:
  after the wakeup the timer is not in the queue, although \<open>reset\<close> puts repeating timers back.
\<close>

theorem cancel_in_callback:
  assumes "alloc_ok alloc" and "0 < now" and "(tq_step alloc)\<^sup>*\<^sup>* (new_TimerQueue now created) s"
    and "snd i \<le> numCreated s" and "getExpired (readTimerfd s) (clock s) = Some (expired, s0)"
    and "cancels_in alloc beh expired (s0\<lparr>callingExpiredTimers := True, cancelingTimers := []\<rparr>) i"
  shows "\<exists>s'. handleRead alloc beh s = Some s' \<and> i \<notin> set (activeTimers s')"
proof -
  define A where "A = snd ` set (timers s)"
  have rest: "tq_rest s" using tq_steps_rest[OF assms(3,1) tq_rest_new[OF assms(2)]] .
  have inv: "tq_inv A {} s" unfolding A_def by (rule tq_rest_inv[OF rest])
  define X where "X = {a \<in> A. expiration (the (heap s a)) \<le> clock s}"
  define s1 where "s1 = s0\<lparr>callingExpiredTimers := True, cancelingTimers := []\<rparr>"
  obtain A2 s2 s' where inv1: "tq_inv (A - X) X s1" and s1: "heap s1 = heap s" "numCreated s1 = numCreated s"
    and ex: "snd ` set expired = X" and run: "run_expired alloc beh expired s1 = Some s2"
    and ev: "evolves X s1 A2 s2" and h: "handleRead alloc beh s = Some s'"
    and inv': "tq_inv (A2 \<union> {a \<in> X. kept s2 a}) {} s'"
    and heap': "\<And>a. heap s' a = (if a \<in> X
        then (if kept s2 a then Some (restart (the (heap s a)) (clock s)) else None) else heap s2 a)"
    using handleRead_ok[OF inv assms(1) tq_rest_clock[OF rest], of beh, folded X_def] assms(5)
    by (auto simp: s1_def)
  have inv2: "tq_inv A2 X s2" and same: "\<And>a. a \<in> X \<Longrightarrow> heap s2 a = heap s a"
    using ev s1 by (simp_all add: evolves_def)
  have "dead X s2 i"
    by (rule run_expired_dead[OF assms(1) inv1 _ _ _ _ run])
      (use ex assms(4,6) s1(2) in \<open>simp_all add: s1_def\<close>)
  moreover obtain a q where i: "i = (a, q)" by (cases i)
  ultimately have dead: "(a, q) \<notin> set (activeTimers s2)"
    "a \<in> X \<Longrightarrow> q = sequence (the (heap s a)) \<Longrightarrow> (a, q) \<in> set (cancelingTimers s2)"
    using same by (auto simp: dead_def)
  have "(a, q) \<notin> set (activeTimers s')"
  proof (cases "a \<in> X")
    case True
    then have "a \<notin> A2" using tq_invD(7)[OF inv2] by blast
    then show ?thesis
      using True dead(2) heap'[of a] same[of a] tq_invD(4)[OF inv', of a q]
      by (auto simp: kept_def split: option.splits)
  next
    case False
    then show ?thesis
      using dead(1) heap'[of a] tq_invD(4)[OF inv', of a q] tq_invD(4)[OF inv2, of a q] by simp
  qed
  with h i show ?thesis by blast
qed

text \<open>The same queue 500 microseconds later, its timer expired.\<close>

lemma example_late: "(tq_step first_fit)\<^sup>*\<^sup>* (new_TimerQueue 5 0) (example_queue\<lparr>clock := 505\<rparr>)"
proof -
  have "tq_exec first_fit (Elapse 500) example_queue = Some (example_queue\<lparr>clock := 505\<rparr>)"
    by (simp add: example_queue_def)
  then show ?thesis by (rule rtranclp.rtrancl_into_rtrancl[OF example_steps tq_step.call])
qed

theorem cancel_in_callback_witness:
  "\<exists>s'. handleRead first_fit (\<lambda>cb s. [CancelTimer (0, 1)]) (example_queue\<lparr>clock := 505\<rparr>) = Some s' \<and>
     (0, 1) \<notin> set (activeTimers s')"
  using cancel_in_callback[OF first_fit_ok _ example_late, of "(0, 1)" _ _ "\<lambda>cb s. [CancelTimer (0, 1)]"]
  by (simp add: example_queue_def getExpired_def lower_bound_def readTimerfd_def fires_at_def UINTPTR_MAX_def
      set_erase_def)

text \<open>
  A wakeup deletes the timers it ran, except the repeating ones that were not cancelled
  meanwhile: those are back in the queue, due one interval after the wakeup, under the same
  identity.
\<close>

theorem repeat_restarts:
  assumes "alloc_ok alloc" and "0 < now" and "(tq_step alloc)\<^sup>*\<^sup>* (new_TimerQueue now created) s"
    and "(a, q) \<in> set (activeTimers s)" and "heap s a = Some t" and "expiration t \<le> clock s"
  shows "\<exists>s'. handleRead alloc beh s = Some s' \<and>
    (if repeat t \<and> (a, q) \<notin> set (cancelingTimers s')
     then (a, q) \<in> set (activeTimers s') \<and> (addTime (clock s) (interval t), a) \<in> set (timers s') \<and>
       heap s' a = Some (t\<lparr>expiration := addTime (clock s) (interval t)\<rparr>)
     else (a, q) \<notin> set (activeTimers s') \<and> heap s' a = None)"
proof -
  define A where "A = snd ` set (timers s)"
  have rest: "tq_rest s" using tq_steps_rest[OF assms(3,1) tq_rest_new[OF assms(2)]] .
  have inv: "tq_inv A {} s" unfolding A_def by (rule tq_rest_inv[OF rest])
  define X where "X = {a \<in> A. expiration (the (heap s a)) \<le> clock s}"
  have X: "a \<in> X" and q: "q = sequence t"
    using tq_inv_active_in[OF inv assms(4)] assms(5,6) by (auto simp: X_def)
  obtain s1 A2 s2 s' where s1: "heap s1 = heap s"
    and ev: "evolves X s1 A2 s2" and h: "handleRead alloc beh s = Some s'"
    and inv': "tq_inv (A2 \<union> {a \<in> X. kept s2 a}) {} s'"
    and heap': "\<And>a. heap s' a = (if a \<in> X
        then (if kept s2 a then Some (restart (the (heap s a)) (clock s)) else None) else heap s2 a)"
    and c: "cancelingTimers s' = cancelingTimers s2"
    using handleRead_ok[OF inv assms(1) tq_rest_clock[OF rest], of beh, folded X_def] by blast
  have "heap s2 a = Some t" using ev X s1 assms(5) by (simp add: evolves_def)
  then have k: "kept s2 a \<longleftrightarrow> repeat t \<and> (a, q) \<notin> set (cancelingTimers s')" using q c by (simp add: kept_def)
  have "a \<notin> A2" using ev X tq_invD(7)[of A2 X s2] by (auto simp: evolves_def)
  then show ?thesis
    using h k X q heap'[of a] assms(5) tq_invD(4)[OF inv', of a q]
      tq_invD(3)[OF inv', of "addTime (clock s) (interval t)" a]
    by (auto simp: restart_def)
qed

theorem repeat_restarts_witness:
  "\<exists>s'. handleRead first_fit (\<lambda>cb s. []) (example_queue\<lparr>clock := 505\<rparr>) = Some s' \<and>
     ((0, 1) \<notin> set (cancelingTimers s') \<longrightarrow> (addTime 505 (1 / 2), 0) \<in> set (timers s'))"
  using repeat_restarts[OF first_fit_ok _ example_late, of 0 1 _ "\<lambda>cb s. []"]
  by (auto simp: example_queue_def split: if_splits)

text \<open>
  C38. Called from another thread, \<open>addTimer\<close> reads the timer it queued for the loop after the loop
  may have run it: for a one-shot timer that is already due, there is an interleaving in which
  \<open>handleRead\<close> has deleted the timer before \<open>timer->sequence()\<close> is read.
\<close>

theorem addTimer_other_thread_race:
  assumes "alloc_ok alloc" and "0 < now" and "(tq_step alloc)\<^sup>*\<^sup>* (new_TimerQueue now created) s"
    and "when \<le> clock s" and "ivl \<le> 0" and "alloc_timer alloc s cb when ivl = (timer, s1)"
  shows "\<exists>s2 s3. addTimerInLoop s1 timer = Some s2 \<and> handleRead alloc beh s2 = Some s3 \<and>
     timerId_of s3 timer = None"
proof -
  have rest: "tq_rest s" using tq_steps_rest[OF assms(3,1) tq_rest_new[OF assms(2)]] .
  let ?t = "new_Timer cb when ivl (numCreated s + 1)"
  have timer: "timer = alloc (heap s)" using assms(6) by (simp add: alloc_timer_def Let_def)
  obtain s2 where add: "addTimer alloc s cb when ivl = Some ((timer, numCreated s + 1), s2)"
    and s2: "heap s2 = (heap s)(timer := Some ?t)" "clock s2 = clock s"
      "(timer, numCreated s + 1) \<in> set (activeTimers s2)"
    using addTimer_ok[OF tq_rest_inv[OF rest] assms(1), of cb "when" ivl] by (auto simp: timer)
  then have "tq_step alloc s s2" by (intro tq_step.call[of _ "AddTimer cb when ivl"]) simp
  then have "(tq_step alloc)\<^sup>*\<^sup>* (new_TimerQueue now created) s2" using assms(3) by simp
  then have rest2: "tq_rest s2" using tq_steps_rest[OF _ assms(1) tq_rest_new[OF assms(2)]] by blast
  define A where "A = snd ` set (timers s2)"
  have inv: "tq_inv A {} s2" unfolding A_def by (rule tq_rest_inv[OF rest2])
  have "timer \<in> A" using tq_invD(4)[OF inv] s2(3) by blast
  then have X: "timer \<in> {a \<in> A. expiration (the (heap s2 a)) \<le> clock s2}"
    using s2 assms(4) by (simp add: new_Timer_def)
  obtain s1' A2 s2' s3 where h: "handleRead alloc beh s2 = Some s3" and s1': "heap s1' = heap s2"
    and ev: "evolves {a \<in> A. expiration (the (heap s2 a)) \<le> clock s2} s1' A2 s2'"
    and heap': "\<And>a. heap s3 a = (if a \<in> {a \<in> A. expiration (the (heap s2 a)) \<le> clock s2}
        then (if kept s2' a then Some (restart (the (heap s2 a)) (clock s2)) else None) else heap s2' a)"
    using handleRead_ok[OF inv assms(1) tq_rest_clock[OF rest2], of beh] by blast
  have "heap s2' timer = Some ?t" using ev X s1' s2(1) by (simp add: evolves_def)
  then have "\<not> kept s2' timer" using assms(5) by (simp add: kept_def new_Timer_def)
  then have "timerId_of s3 timer = None" using heap'[of timer] X by (simp add: timerId_of_def)
  moreover have "addTimerInLoop s1 timer = Some s2"
    using add assms(6) by (auto simp: addTimer_def split: bind_splits)
  ultimately show ?thesis using h by blast
qed

theorem addTimer_other_thread_race_witness:
  "\<exists>s1 s2 s3. alloc_timer first_fit (new_TimerQueue 5 0) (7 :: nat) 5 0 = (0, s1) \<and>
     addTimerInLoop s1 0 = Some s2 \<and> handleRead first_fit (\<lambda>cb s. []) s2 = Some s3 \<and> timerId_of s3 0 = None"
  using addTimer_other_thread_race[OF first_fit_ok, of 5 0 "new_TimerQueue 5 0" 5 0 "7 :: nat" 0 _ "\<lambda>cb s. []"]
  by (auto simp: alloc_timer_def new_TimerQueue_def)

end
