(* ===== verification/Net_Channel.thy ===== *)
theory Net_Channel
  imports Muduo_Prelude Timestamps "HOL-Library.Word"
begin

text \<open>
  The channel of a file descriptor (\<open>muduo/net/Channel.h\<close>, \<open>Channel.cc\<close>): which events it asks
  for, and which callbacks it runs for the events it is given.  Event sets are C \<open>int\<close>s used as bit
  sets.  A callback is an abstract value \<open>'cb\<close>; what it does when it is called, to whatever state
  the program has, is the argument \<open>call\<close> of \<open>handleEvent\<close>.  Channels are objects on the heap,
  \<open>None\<close> once destroyed.
\<close>

unbundle bit_operations_syntax

section \<open>Events\<close>

text \<open>The constants of \<open>poll.h\<close> on Linux.\<close>

definition POLLIN :: "32 word" where "POLLIN = 0x001"
definition POLLPRI :: "32 word" where "POLLPRI = 0x002"
definition POLLOUT :: "32 word" where "POLLOUT = 0x004"
definition POLLERR :: "32 word" where "POLLERR = 0x008"
definition POLLHUP :: "32 word" where "POLLHUP = 0x010"
definition POLLNVAL :: "32 word" where "POLLNVAL = 0x020"
definition POLLRDHUP :: "32 word" where "POLLRDHUP = 0x2000"

lemmas poll_flags = POLLIN_def POLLPRI_def POLLOUT_def POLLERR_def POLLHUP_def POLLNVAL_def POLLRDHUP_def

definition kNoneEvent :: "32 word" where
  "kNoneEvent = 0"

definition kReadEvent :: "32 word" where
  "kReadEvent = POLLIN OR POLLPRI"

definition kWriteEvent :: "32 word" where
  "kWriteEvent = POLLOUT"

text \<open>A bit set as a C condition.\<close>

definition has :: "32 word \<Rightarrow> 32 word \<Rightarrow> bool" where
  "has ev flags \<longleftrightarrow> ev AND flags \<noteq> 0"

section \<open>The channel\<close>

type_synonym chan_id = nat

record 'cb channel =
  fd :: int
  events :: "32 word"
  revents :: "32 word"
  index :: int
  logHup :: bool
  tied :: bool
  eventHandling :: bool
  addedToLoop :: bool
  readCallback :: "'cb option"
  writeCallback :: "'cb option"
  closeCallback :: "'cb option"
  errorCallback :: "'cb option"

definition new_Channel :: "int \<Rightarrow> 'cb channel" where
  "new_Channel fd' =
     \<lparr>fd = fd', events = 0, revents = 0, index = -1, logHup = True, tied = False, eventHandling = False,
      addedToLoop = False, readCallback = None, writeCallback = None, closeCallback = None,
      errorCallback = None\<rparr>"

definition isNoneEvent :: "'cb channel \<Rightarrow> bool" where
  "isNoneEvent ch \<longleftrightarrow> events ch = kNoneEvent"

definition isWriting :: "'cb channel \<Rightarrow> bool" where
  "isWriting ch \<longleftrightarrow> has (events ch) kWriteEvent"

definition isReading :: "'cb channel \<Rightarrow> bool" where
  "isReading ch \<longleftrightarrow> has (events ch) kReadEvent"

definition tie :: "'cb channel \<Rightarrow> 'cb channel" where
  "tie ch = ch\<lparr>tied := True\<rparr>"

text \<open>The event sets that the operations of a channel can reach.\<close>

definition reachable_events :: "32 word set" where
  "reachable_events = {0, 3, 4, 7}"

lemma reachable_events_ops [simp]:
  assumes "ev \<in> reachable_events"
  shows "ev OR kReadEvent \<in> reachable_events" "ev AND NOT kReadEvent \<in> reachable_events"
    "ev OR kWriteEvent \<in> reachable_events" "ev AND NOT kWriteEvent \<in> reachable_events"
  using assms by (auto simp: reachable_events_def kReadEvent_def kWriteEvent_def poll_flags)

lemma event_nonzero [simp]: "kReadEvent \<noteq> 0" "kWriteEvent \<noteq> 0" "kNoneEvent \<in> reachable_events"
  by (simp_all add: kReadEvent_def kWriteEvent_def kNoneEvent_def reachable_events_def poll_flags)

section \<open>Dispatching\<close>

text \<open>
  \<open>get\<close> finds the channel in the state and \<open>upd\<close> changes it; one \<open>if\<close> of the handler reads the
  channel again, since the callback before it may have changed or destroyed it.
\<close>

definition invoke ::
    "('s \<Rightarrow> 'cb channel option) \<Rightarrow> ('cb \<Rightarrow> 's \<Rightarrow> 's option) \<Rightarrow> ('cb channel \<Rightarrow> bool) \<Rightarrow>
     ('cb channel \<Rightarrow> 'cb option) \<Rightarrow> 's \<Rightarrow> 's option" where
  "invoke get call cond cb s = do {
     ch \<leftarrow> get s;
     if cond ch then (case cb ch of None \<Rightarrow> Some s | Some f \<Rightarrow> call f s) else Some s
   }"

definition handleEventWithGuard ::
    "('s \<Rightarrow> 'cb channel option) \<Rightarrow> (('cb channel \<Rightarrow> 'cb channel) \<Rightarrow> 's \<Rightarrow> 's) \<Rightarrow>
     ('cb \<Rightarrow> 's \<Rightarrow> 's option) \<Rightarrow> (timestamp \<Rightarrow> 'cb \<Rightarrow> 's \<Rightarrow> 's option) \<Rightarrow> timestamp \<Rightarrow> 's \<Rightarrow> 's option" where
  "handleEventWithGuard get upd call callRead receiveTime s = do {
     _ \<leftarrow> get s;
     let s0 = upd (eventHandling_update (\<lambda>_. True)) s;
     s1 \<leftarrow> invoke get call (\<lambda>ch. has (revents ch) POLLHUP \<and> \<not> has (revents ch) POLLIN) closeCallback s0;
     s2 \<leftarrow> invoke get call (\<lambda>ch. has (revents ch) (POLLERR OR POLLNVAL)) errorCallback s1;
     s3 \<leftarrow> invoke get (callRead receiveTime)
       (\<lambda>ch. has (revents ch) (POLLIN OR POLLPRI OR POLLRDHUP)) readCallback s2;
     s4 \<leftarrow> invoke get call (\<lambda>ch. has (revents ch) POLLOUT) writeCallback s3;
     _ \<leftarrow> get s4;
     Some (upd (eventHandling_update (\<lambda>_. False)) s4)
   }"

text \<open>\<open>lock\<close>: whether the owner the channel is tied to is still alive.\<close>

definition handleEvent ::
    "('s \<Rightarrow> 'cb channel option) \<Rightarrow> (('cb channel \<Rightarrow> 'cb channel) \<Rightarrow> 's \<Rightarrow> 's) \<Rightarrow> ('s \<Rightarrow> bool) \<Rightarrow>
     ('cb \<Rightarrow> 's \<Rightarrow> 's option) \<Rightarrow> (timestamp \<Rightarrow> 'cb \<Rightarrow> 's \<Rightarrow> 's option) \<Rightarrow> timestamp \<Rightarrow> 's \<Rightarrow> 's option" where
  "handleEvent get upd lock call callRead receiveTime s = do {
     ch \<leftarrow> get s;
     if tied ch
     then if lock s then handleEventWithGuard get upd call callRead receiveTime s else Some s
     else handleEventWithGuard get upd call callRead receiveTime s
   }"

section \<open>Properties\<close>

text \<open>Which callbacks a channel runs, with the callbacks that only leave a trace.\<close>

datatype event_kind = CloseEvent | ErrorEvent | ReadEvent timestamp | WriteEvent

definition trace_channel :: "32 word \<Rightarrow> bool \<Rightarrow> event_kind channel" where
  "trace_channel ev td = (new_Channel 0)\<lparr>revents := ev, tied := td, readCallback := Some (ReadEvent 0),
     writeCallback := Some WriteEvent, closeCallback := Some CloseEvent, errorCallback := Some ErrorEvent\<rparr>"

definition trace_handleEvent :: "bool \<Rightarrow> timestamp \<Rightarrow> event_kind channel \<Rightarrow> (event_kind channel \<times> event_kind list) option" where
  "trace_handleEvent alive t ch = handleEvent (\<lambda>s. Some (fst s)) apfst (\<lambda>_. alive)
     (\<lambda>cb s. Some (fst s, snd s @ [cb])) (\<lambda>t _ s. Some (fst s, snd s @ [ReadEvent t])) t (ch, [])"


end
