(* ===== verification/Net_Poller.thy ===== *)
theory Net_Poller
  imports Net_Channel
begin

text \<open>
  I/O multiplexing (\<open>muduo/net/Poller.h\<close>, \<open>Poller.cc\<close>, \<open>poller/PollPoller.cc\<close>,
  \<open>poller/EPollPoller.cc\<close>) and the operations of a channel that go through it (\<open>Channel.h\<close>,
  \<open>Channel.cc\<close>, \<open>EventLoop.cc\<close>).  A \<open>reactor\<close> holds the channel objects, by identity, and the
  poller they are registered with.  The locale \<open>poller\<close> is what the rest of the library relies
  on, whichever poller is in use: which channel each file descriptor belongs to, and which events
  of it the kernel has been asked for (\<open>monitors\<close>).  Both pollers are shown to provide it.  The
  kernel is outside the repository: what \<open>poll\<close> and \<open>epoll_wait\<close> report is an argument, and
  \<open>epoll_ctl\<close> is a parameter with its documented behaviour as the hypothesis \<open>epoll_ctl_ok\<close>.
\<close>

record ('cb, 'p) reactor =
  chans :: "chan_id \<Rightarrow> 'cb channel option"
  mux :: 'p

abbreviation set_chan :: "chan_id \<Rightarrow> 'cb channel \<Rightarrow> ('cb, 'p) reactor \<Rightarrow> ('cb, 'p) reactor" where
  "set_chan c ch s \<equiv> s\<lparr>chans := (chans s)(c := Some ch)\<rparr>"

section \<open>PollPoller\<close>

text \<open>The \<open>short\<close> fields of \<open>struct pollfd\<close> have 16 bits.\<close>

record pollfd =
  pfd_fd :: int
  pfd_events :: "16 word"
  pfd_revents :: "16 word"

record poll_poller =
  poll_channels :: "int \<Rightarrow> chan_id option"
  pollfds :: "pollfd list"

definition new_PollPoller :: poll_poller where
  "new_PollPoller = \<lparr>poll_channels = Map.empty, pollfds = []\<rparr>"

type_synonym 'cb poll_reactor = "('cb, poll_poller) reactor"

definition poll_updateChannel :: "chan_id \<Rightarrow> 'cb poll_reactor \<Rightarrow> 'cb poll_reactor option" where
  "poll_updateChannel channel s = do {
     ch \<leftarrow> chans s channel;
     let p = mux s;
     if index ch < 0 then do {
       assert_that (poll_channels p (fd ch) = None);
       let pfd = \<lparr>pfd_fd = fd ch, pfd_events = ucast (events ch), pfd_revents = 0\<rparr>;
       let idx = int (length (pollfds p @ [pfd])) - 1;
       Some ((set_chan channel (ch\<lparr>index := idx\<rparr>) s)
               \<lparr>mux := p\<lparr>poll_channels := (poll_channels p)(fd ch := Some channel),
                          pollfds := pollfds p @ [pfd]\<rparr>\<rparr>)
     } else do {
       assert_that (poll_channels p (fd ch) \<noteq> None);
       assert_that (poll_channels p (fd ch) = Some channel);
       let idx = index ch;
       assert_that (0 \<le> idx \<and> idx < int (length (pollfds p)));
       let pfd = pollfds p ! nat idx;
       assert_that (pfd_fd pfd = fd ch \<or> pfd_fd pfd = - fd ch - 1);
       let pfd' = \<lparr>pfd_fd = (if isNoneEvent ch then - fd ch - 1 else fd ch),
                   pfd_events = ucast (events ch), pfd_revents = 0\<rparr>;
       Some (s\<lparr>mux := p\<lparr>pollfds := (pollfds p)[nat idx := pfd']\<rparr>\<rparr>)
     }
   }"

text \<open>\<open>iter_swap\<close> with the last element, then \<open>pop_back\<close>.\<close>

definition swap_pop :: "nat \<Rightarrow> 'a list \<Rightarrow> 'a list" where
  "swap_pop idx xs = butlast (xs[idx := last xs, length xs - 1 := xs ! idx])"

definition poll_removeChannel :: "chan_id \<Rightarrow> 'cb poll_reactor \<Rightarrow> 'cb poll_reactor option" where
  "poll_removeChannel channel s = do {
     ch \<leftarrow> chans s channel;
     let p = mux s;
     assert_that (poll_channels p (fd ch) \<noteq> None);
     assert_that (poll_channels p (fd ch) = Some channel);
     assert_that (isNoneEvent ch);
     let idx = index ch;
     assert_that (0 \<le> idx \<and> idx < int (length (pollfds p)));
     let pfd = pollfds p ! nat idx;
     assert_that (pfd_fd pfd = - fd ch - 1 \<and> scast (pfd_events pfd) = events ch);
     let channels' = (poll_channels p)(fd ch := None);
     if nat idx = length (pollfds p) - 1 then
       Some (s\<lparr>mux := p\<lparr>poll_channels := channels', pollfds := butlast (pollfds p)\<rparr>\<rparr>)
     else do {
       let channelAtEnd0 = pfd_fd (last (pollfds p));
       let channelAtEnd = (if channelAtEnd0 < 0 then - channelAtEnd0 - 1 else channelAtEnd0);
       c' \<leftarrow> channels' channelAtEnd;
       ch' \<leftarrow> chans s c';
       Some ((set_chan c' (ch'\<lparr>index := idx\<rparr>) s)
               \<lparr>mux := p\<lparr>poll_channels := channels', pollfds := swap_pop (nat idx) (pollfds p)\<rparr>\<rparr>)
     }
   }"

text \<open>
  \<open>fillActiveChannels\<close> after \<open>poll\<close> has set the \<open>revents\<close>; it stops once it has seen
  \<open>numEvents\<close> of them.
\<close>

fun poll_fill :: "pollfd list \<Rightarrow> int \<Rightarrow> chan_id list \<Rightarrow> 'cb poll_reactor \<Rightarrow> ('cb poll_reactor \<times> chan_id list) option" where
  "poll_fill [] numEvents active s = Some (s, active)"
| "poll_fill (pfd # pfds) numEvents active s =
     (if numEvents > 0 then
        if 0 < sint (pfd_revents pfd) then do {
          c \<leftarrow> poll_channels (mux s) (pfd_fd pfd);
          ch \<leftarrow> chans s c;
          assert_that (fd ch = pfd_fd pfd);
          poll_fill pfds (numEvents - 1) (active @ [c]) (set_chan c (ch\<lparr>revents := scast (pfd_revents pfd)\<rparr>) s)
        } else poll_fill pfds numEvents active s
      else Some (s, active))"

text \<open>
  \<open>PollPoller::poll\<close>: \<open>ready\<close> says which events the kernel reports for a file descriptor; it
  ignores the negative ones and returns the number of entries with events, or \<open>-1\<close> on error
  (\<open>ready = None\<close>).
\<close>

definition kernel_poll :: "(int \<Rightarrow> 16 word) \<Rightarrow> pollfd list \<Rightarrow> pollfd list" where
  "kernel_poll ready = map (\<lambda>p. p\<lparr>pfd_revents := if pfd_fd p < 0 then 0 else ready (pfd_fd p)\<rparr>)"

definition poll_poll :: "(int \<Rightarrow> 16 word) option \<Rightarrow> 'cb poll_reactor \<Rightarrow> ('cb poll_reactor \<times> chan_id list) option" where
  "poll_poll ready s = (case ready of
       None \<Rightarrow> Some (s, [])
     | Some r \<Rightarrow>
         let pfds = kernel_poll r (pollfds (mux s));
             s' = s\<lparr>mux := (mux s)\<lparr>pollfds := pfds\<rparr>\<rparr>;
             numEvents = length (filter (\<lambda>p. pfd_revents p \<noteq> 0) pfds)
         in if numEvents > 0 then poll_fill pfds (int numEvents) [] s' else Some (s', []))"

definition poll_hasChannel :: "chan_id \<Rightarrow> 'cb poll_reactor \<Rightarrow> bool option" where
  "poll_hasChannel channel s = do { ch \<leftarrow> chans s channel; Some (poll_channels (mux s) (fd ch) = Some channel) }"

section \<open>EPollPoller\<close>

datatype epoll_op = EPOLL_CTL_ADD | EPOLL_CTL_MOD | EPOLL_CTL_DEL

text \<open>\<open>epollfd\<close> is the kernel's object; \<open>ep_events\<close> the size of the array for \<open>epoll_wait\<close>.\<close>

record 'k epoll_poller =
  ep_channels :: "int \<Rightarrow> chan_id option"
  epollfd :: 'k
  ep_events :: nat

type_synonym ('cb, 'k) epoll_reactor = "('cb, 'k epoll_poller) reactor"

text \<open>\<open>epoll_ctl\<close>: the operation, the descriptor, its events and \<open>data.ptr\<close>; \<open>None\<close> for an error.\<close>

type_synonym 'k epoll_ctl = "epoll_op \<Rightarrow> int \<Rightarrow> 32 word \<times> chan_id \<Rightarrow> 'k \<Rightarrow> 'k option"

definition kNew :: int where "kNew = -1"
definition kAdded :: int where "kAdded = 1"
definition kDeleted :: int where "kDeleted = 2"

definition kInitEventListSize :: nat where
  "kInitEventListSize = 16"

definition new_EPollPoller :: "'k \<Rightarrow> 'k epoll_poller" where
  "new_EPollPoller k = \<lparr>ep_channels = Map.empty, epollfd = k, ep_events = kInitEventListSize\<rparr>"

text \<open>A failed \<open>EPOLL_CTL_DEL\<close> is logged, any other failure ends the program.\<close>

definition epoll_update :: "'k epoll_ctl \<Rightarrow> epoll_op \<Rightarrow> chan_id \<Rightarrow> ('cb, 'k) epoll_reactor \<Rightarrow> ('cb, 'k) epoll_reactor option" where
  "epoll_update ctl operation channel s = do {
     ch \<leftarrow> chans s channel;
     case ctl operation (fd ch) (events ch, channel) (epollfd (mux s)) of
       None \<Rightarrow> (if operation = EPOLL_CTL_DEL then Some s else None)
     | Some k \<Rightarrow> Some (s\<lparr>mux := (mux s)\<lparr>epollfd := k\<rparr>\<rparr>)
   }"

definition epoll_set_index :: "chan_id \<Rightarrow> int \<Rightarrow> ('cb, 'k) epoll_reactor \<Rightarrow> ('cb, 'k) epoll_reactor option" where
  "epoll_set_index channel idx s = do { ch \<leftarrow> chans s channel; Some (set_chan channel (ch\<lparr>index := idx\<rparr>) s) }"

definition epoll_updateChannel :: "'k epoll_ctl \<Rightarrow> chan_id \<Rightarrow> ('cb, 'k) epoll_reactor \<Rightarrow> ('cb, 'k) epoll_reactor option" where
  "epoll_updateChannel ctl channel s = do {
     ch \<leftarrow> chans s channel;
     let p = mux s;
     if index ch = kNew \<or> index ch = kDeleted then do {
       s1 \<leftarrow> (if index ch = kNew then do {
                assert_that (ep_channels p (fd ch) = None);
                Some (s\<lparr>mux := p\<lparr>ep_channels := (ep_channels p)(fd ch := Some channel)\<rparr>\<rparr>)
              } else do {
                assert_that (ep_channels p (fd ch) \<noteq> None);
                assert_that (ep_channels p (fd ch) = Some channel);
                Some s
              });
       s2 \<leftarrow> epoll_set_index channel kAdded s1;
       epoll_update ctl EPOLL_CTL_ADD channel s2
     } else do {
       assert_that (ep_channels p (fd ch) \<noteq> None);
       assert_that (ep_channels p (fd ch) = Some channel);
       assert_that (index ch = kAdded);
       if isNoneEvent ch then do {
         s1 \<leftarrow> epoll_update ctl EPOLL_CTL_DEL channel s;
         epoll_set_index channel kDeleted s1
       } else epoll_update ctl EPOLL_CTL_MOD channel s
     }
   }"

definition epoll_removeChannel :: "'k epoll_ctl \<Rightarrow> chan_id \<Rightarrow> ('cb, 'k) epoll_reactor \<Rightarrow> ('cb, 'k) epoll_reactor option" where
  "epoll_removeChannel ctl channel s = do {
     ch \<leftarrow> chans s channel;
     let p = mux s;
     assert_that (ep_channels p (fd ch) \<noteq> None);
     assert_that (ep_channels p (fd ch) = Some channel);
     assert_that (isNoneEvent ch);
     assert_that (index ch = kAdded \<or> index ch = kDeleted);
     let s1 = s\<lparr>mux := p\<lparr>ep_channels := (ep_channels p)(fd ch := None)\<rparr>\<rparr>;
     s2 \<leftarrow> (if index ch = kAdded then epoll_update ctl EPOLL_CTL_DEL channel s1 else Some s1);
     epoll_set_index channel kNew s2
   }"

fun epoll_fill :: "(32 word \<times> chan_id) list \<Rightarrow> chan_id list \<Rightarrow> ('cb, 'k) epoll_reactor \<Rightarrow>
    (('cb, 'k) epoll_reactor \<times> chan_id list) option" where
  "epoll_fill [] active s = Some (s, active)"
| "epoll_fill (e # es) active s = do {
     ch \<leftarrow> chans s (snd e);
     assert_that (ep_channels (mux s) (fd ch) \<noteq> None);
     assert_that (ep_channels (mux s) (fd ch) = Some (snd e));
     epoll_fill es (active @ [snd e]) (set_chan (snd e) (ch\<lparr>revents := fst e\<rparr>) s)
   }"

text \<open>\<open>ready\<close>: the entries that \<open>epoll_wait\<close> writes, \<open>None\<close> on error.\<close>

definition epoll_poll :: "(32 word \<times> chan_id) list option \<Rightarrow> ('cb, 'k) epoll_reactor \<Rightarrow>
    (('cb, 'k) epoll_reactor \<times> chan_id list) option" where
  "epoll_poll ready s = (case ready of
       None \<Rightarrow> Some (s, [])
     | Some es \<Rightarrow>
         if length es > 0 then do {
           assert_that (length es \<le> ep_events (mux s));
           (s', active) \<leftarrow> epoll_fill es [] s;
           Some (if length es = ep_events (mux s)
                 then (s'\<lparr>mux := (mux s')\<lparr>ep_events := ep_events (mux s') * 2\<rparr>\<rparr>, active) else (s', active))
         } else Some (s, []))"

definition epoll_hasChannel :: "chan_id \<Rightarrow> ('cb, 'k) epoll_reactor \<Rightarrow> bool option" where
  "epoll_hasChannel channel s = do { ch \<leftarrow> chans s channel; Some (ep_channels (mux s) (fd ch) = Some channel) }"

section \<open>Channel operations\<close>

text \<open>\<open>Channel::update\<close> through \<open>EventLoop::updateChannel\<close>; \<open>upd\<close> and \<open>rm\<close> are the poller's.\<close>

definition Channel_update :: "(chan_id \<Rightarrow> ('cb, 'p) reactor \<Rightarrow> ('cb, 'p) reactor option) \<Rightarrow> chan_id \<Rightarrow>
    ('cb, 'p) reactor \<Rightarrow> ('cb, 'p) reactor option" where
  "Channel_update upd c s = do { ch \<leftarrow> chans s c; upd c (set_chan c (ch\<lparr>addedToLoop := True\<rparr>) s) }"

definition change_events :: "(32 word \<Rightarrow> 32 word) \<Rightarrow> (chan_id \<Rightarrow> ('cb, 'p) reactor \<Rightarrow> ('cb, 'p) reactor option) \<Rightarrow>
    chan_id \<Rightarrow> ('cb, 'p) reactor \<Rightarrow> ('cb, 'p) reactor option" where
  "change_events f upd c s = do { ch \<leftarrow> chans s c; Channel_update upd c (set_chan c (ch\<lparr>events := f (events ch)\<rparr>) s) }"

definition enableReading where "enableReading = change_events (\<lambda>ev. ev OR kReadEvent)"
definition disableReading where "disableReading = change_events (\<lambda>ev. ev AND NOT kReadEvent)"
definition enableWriting where "enableWriting = change_events (\<lambda>ev. ev OR kWriteEvent)"
definition disableWriting where "disableWriting = change_events (\<lambda>ev. ev AND NOT kWriteEvent)"
definition disableAll where "disableAll = change_events (\<lambda>_. kNoneEvent)"

definition Channel_remove :: "(chan_id \<Rightarrow> ('cb, 'p) reactor \<Rightarrow> ('cb, 'p) reactor option) \<Rightarrow> chan_id \<Rightarrow>
    ('cb, 'p) reactor \<Rightarrow> ('cb, 'p) reactor option" where
  "Channel_remove rm c s = do {
     ch \<leftarrow> chans s c;
     assert_that (isNoneEvent ch);
     rm c (set_chan c (ch\<lparr>addedToLoop := False\<rparr>) s)
   }"

definition delete_Channel :: "(chan_id \<Rightarrow> ('cb, 'p) reactor \<Rightarrow> bool option) \<Rightarrow> chan_id \<Rightarrow>
    ('cb, 'p) reactor \<Rightarrow> ('cb, 'p) reactor option" where
  "delete_Channel hasChannel c s = do {
     ch \<leftarrow> chans s c;
     assert_that (\<not> eventHandling ch);
     assert_that (\<not> addedToLoop ch);
     h \<leftarrow> hasChannel c s;
     assert_that (\<not> h);
     Some (s\<lparr>chans := (chans s)(c := None)\<rparr>)
   }"

text \<open>A program's use of channels, and when the library allows each call.\<close>

datatype chan_op = NewChannel chan_id int | EnableReading chan_id | DisableReading chan_id
  | EnableWriting chan_id | DisableWriting chan_id | DisableAll chan_id | RemoveChannel chan_id

fun chan_exec :: "(chan_id \<Rightarrow> ('cb, 'p) reactor \<Rightarrow> ('cb, 'p) reactor option) \<Rightarrow>
    (chan_id \<Rightarrow> ('cb, 'p) reactor \<Rightarrow> ('cb, 'p) reactor option) \<Rightarrow> chan_op \<Rightarrow>
    ('cb, 'p) reactor \<Rightarrow> ('cb, 'p) reactor option" where
  "chan_exec upd rm (NewChannel c f) s = Some (set_chan c (new_Channel f) s)"
| "chan_exec upd rm (EnableReading c) s = enableReading upd c s"
| "chan_exec upd rm (DisableReading c) s = disableReading upd c s"
| "chan_exec upd rm (EnableWriting c) s = enableWriting upd c s"
| "chan_exec upd rm (DisableWriting c) s = disableWriting upd c s"
| "chan_exec upd rm (DisableAll c) s = disableAll upd c s"
| "chan_exec upd rm (RemoveChannel c) s = Channel_remove rm c s"

text \<open>
  A channel starts out by enabling something, on a descriptor no other channel has; it disables
  something only while it has something enabled, and is removed after it has disabled everything.
\<close>

definition may_enable :: "(int \<Rightarrow> chan_id option) \<Rightarrow> (chan_id \<Rightarrow> 'cb channel option) \<Rightarrow> chan_id \<Rightarrow> bool" where
  "may_enable owner cs c \<longleftrightarrow> (case cs c of None \<Rightarrow> False
     | Some ch \<Rightarrow> owner (fd ch) = Some c \<or> owner (fd ch) = None \<and> index ch = -1)"

definition may_disable :: "(int \<Rightarrow> chan_id option) \<Rightarrow> (chan_id \<Rightarrow> 'cb channel option) \<Rightarrow> chan_id \<Rightarrow> bool" where
  "may_disable owner cs c \<longleftrightarrow> (case cs c of None \<Rightarrow> False
     | Some ch \<Rightarrow> owner (fd ch) = Some c \<and> events ch \<noteq> 0)"

fun chan_legal :: "(int \<Rightarrow> chan_id option) \<Rightarrow> (chan_id \<Rightarrow> 'cb channel option) \<Rightarrow> chan_op \<Rightarrow> bool" where
  "chan_legal owner cs (NewChannel c f) \<longleftrightarrow> cs c = None \<and> 0 \<le> f"
| "chan_legal owner cs (EnableReading c) \<longleftrightarrow> may_enable owner cs c"
| "chan_legal owner cs (EnableWriting c) \<longleftrightarrow> may_enable owner cs c"
| "chan_legal owner cs (DisableReading c) \<longleftrightarrow> may_disable owner cs c"
| "chan_legal owner cs (DisableWriting c) \<longleftrightarrow> may_disable owner cs c"
| "chan_legal owner cs (DisableAll c) \<longleftrightarrow> may_disable owner cs c"
| "chan_legal owner cs (RemoveChannel c) \<longleftrightarrow> (case cs c of None \<Rightarrow> False
     | Some ch \<Rightarrow> owner (fd ch) = Some c \<and> events ch = 0)"

text \<open>A run of such calls; \<open>None\<close> where one is not allowed or does not return.\<close>

fun chan_run :: "(('cb, 'p) reactor \<Rightarrow> int \<Rightarrow> chan_id option) \<Rightarrow>
    (chan_id \<Rightarrow> ('cb, 'p) reactor \<Rightarrow> ('cb, 'p) reactor option) \<Rightarrow>
    (chan_id \<Rightarrow> ('cb, 'p) reactor \<Rightarrow> ('cb, 'p) reactor option) \<Rightarrow> chan_op list \<Rightarrow>
    ('cb, 'p) reactor \<Rightarrow> bool \<times> ('cb, 'p) reactor option" where
  "chan_run owner upd rm [] s = (True, Some s)"
| "chan_run owner upd rm (op # ops) s =
     (if chan_legal (owner s) (chans s) op
      then (case chan_exec upd rm op s of
              None \<Rightarrow> (True, None)
            | Some s' \<Rightarrow> chan_run owner upd rm ops s')
      else (False, None))"

section \<open>The contract of a poller\<close>

definition interest_of :: "32 word \<Rightarrow> 32 word option" where
  "interest_of ev = (if ev = 0 then None else Some ev)"

text \<open>What the channels of the reactor ask for, by descriptor.\<close>

definition asked :: "(('cb, 'p) reactor \<Rightarrow> int \<Rightarrow> chan_id option) \<Rightarrow> ('cb, 'p) reactor \<Rightarrow> int \<Rightarrow> 32 word option" where
  "asked owner s f = (case owner s f of None \<Rightarrow> None
     | Some c \<Rightarrow> (case chans s c of None \<Rightarrow> None | Some ch \<Rightarrow> interest_of (events ch)))"

text \<open>The poller may only change the index of a channel.\<close>

definition same_chans :: "('cb, 'p) reactor \<Rightarrow> ('cb, 'p) reactor \<Rightarrow> bool" where
  "same_chans s s' \<longleftrightarrow> (\<forall>c. map_option (index_update (\<lambda>_. 0)) (chans s' c) = map_option (index_update (\<lambda>_. 0)) (chans s c))"

lemma same_chans_Some:
  assumes "same_chans s s'" and "chans s c = Some ch"
  shows "\<exists>i. chans s' c = Some (ch\<lparr>index := i\<rparr>)"
proof -
  have "map_option (index_update (\<lambda>_. 0)) (chans s' c) = Some (ch\<lparr>index := 0\<rparr>)"
    using assms by (simp add: same_chans_def)
  then obtain ch' where c: "chans s' c = Some ch'" "ch'\<lparr>index := 0\<rparr> = ch\<lparr>index := 0\<rparr>" by auto
  then have "ch' = ch\<lparr>index := index ch'\<rparr>"
    by (cases ch, cases ch') simp
  with c(1) show ?thesis by metis
qed

lemma same_chans_sym: "same_chans s s' \<Longrightarrow> same_chans s' s"
  by (simp add: same_chans_def)

locale poller =
  fixes inv :: "('cb, 'p) reactor \<Rightarrow> bool"
    and owner :: "('cb, 'p) reactor \<Rightarrow> int \<Rightarrow> chan_id option"
    and monitors :: "('cb, 'p) reactor \<Rightarrow> int \<Rightarrow> 32 word option"
    and upd :: "chan_id \<Rightarrow> ('cb, 'p) reactor \<Rightarrow> ('cb, 'p) reactor option"
    and rm :: "chan_id \<Rightarrow> ('cb, 'p) reactor \<Rightarrow> ('cb, 'p) reactor option"
  assumes inv_update: "\<lbrakk> inv s; chans s c = Some ch; fd ch' = fd ch; index ch' = index ch \<rbrakk> \<Longrightarrow> inv (set_chan c ch' s)"
    and inv_new: "\<lbrakk> inv s; chans s c = None \<rbrakk> \<Longrightarrow> inv (set_chan c ch s)"
    and frame: "owner (set_chan c ch s) = owner s" "monitors (set_chan c ch s) = monitors s"
    and owner_chan: "\<lbrakk> inv s; owner s f = Some c \<rbrakk> \<Longrightarrow> \<exists>ch. chans s c = Some ch \<and> fd ch = f"
    and upd_ok: "\<lbrakk> inv s; chans s c = Some ch; events ch \<in> reachable_events; 0 \<le> fd ch;
        owner s (fd ch) = Some c \<and> (events ch \<noteq> 0 \<or> monitors s (fd ch) \<noteq> None) \<or>
        owner s (fd ch) = None \<and> index ch = -1 \<and> events ch \<noteq> 0 \<rbrakk> \<Longrightarrow>
      \<exists>s'. upd c s = Some s' \<and> inv s' \<and> same_chans s s' \<and> owner s' = (owner s)(fd ch := Some c) \<and>
        monitors s' = (monitors s)(fd ch := interest_of (events ch))"
    and rm_ok: "\<lbrakk> inv s; chans s c = Some ch; owner s (fd ch) = Some c; events ch = 0; 0 \<le> fd ch;
        monitors s (fd ch) = None \<rbrakk> \<Longrightarrow>
      \<exists>s'. rm c s = Some s' \<and> inv s' \<and> same_chans s s' \<and> owner s' = (owner s)(fd ch := None) \<and>
        monitors s' = monitors s"
begin

text \<open>What the kernel watches is what the registered channels ask for, and nothing else.\<close>

definition in_sync :: "('cb, 'p) reactor \<Rightarrow> bool" where
  "in_sync s \<longleftrightarrow> inv s \<and>
     (\<forall>c ch. chans s c = Some ch \<longrightarrow> 0 \<le> fd ch \<and> events ch \<in> reachable_events \<and>
        (owner s (fd ch) = Some c \<longrightarrow> monitors s (fd ch) = interest_of (events ch))) \<and>
     (\<forall>f. owner s f = None \<longrightarrow> monitors s f = None)"

lemma in_syncD:
  assumes "in_sync s"
  shows "inv s" "chans s c = Some ch \<Longrightarrow> 0 \<le> fd ch" "chans s c = Some ch \<Longrightarrow> events ch \<in> reachable_events"
    "chans s c = Some ch \<Longrightarrow> owner s (fd ch) = Some c \<Longrightarrow> monitors s (fd ch) = interest_of (events ch)"
    "owner s f = None \<Longrightarrow> monitors s f = None"
  using assms by (auto simp: in_sync_def)

lemma in_sync_asked:
  assumes "in_sync s"
  shows "monitors s = asked owner s"
proof
  fix f
  show "monitors s f = asked owner s f"
  proof (cases "owner s f")
    case None
    then show ?thesis using in_syncD(5)[OF assms] by (simp add: asked_def)
  next
    case (Some c)
    then obtain ch where "chans s c = Some ch" "fd ch = f" using owner_chan[OF in_syncD(1)[OF assms]] by blast
    then show ?thesis using in_syncD(4)[OF assms, of c ch] Some by (simp add: asked_def)
  qed
qed

text \<open>After the poller has accepted a change of channel \<open>c\<close>, everything is in step again.\<close>

lemma in_sync_after:
  assumes sync: "in_sync s" and c: "chans s c = Some ch"
    and s': "inv s'" "same_chans (set_chan c ch' s) s'" "fd ch' = fd ch" "events ch' \<in> reachable_events"
    and own: "owner s' = (owner s)(fd ch := x)" "owner s (fd ch) = Some c \<or> owner s (fd ch) = None"
      "x = Some c \<or> x = None"
    and mon: "monitors s' = (monitors s)(fd ch := interest_of (events ch'))" "x = None \<longrightarrow> events ch' = 0"
  shows "in_sync s'"
  unfolding in_sync_def
proof (intro conjI allI impI)
  fix d dh' assume d: "chans s' d = Some dh'"
  then obtain dh i where dh: "chans (set_chan c ch' s) d = Some dh" "dh = dh'\<lparr>index := i\<rparr>"
    using same_chans_Some[OF same_chans_sym[OF s'(2)]] by blast
  then have dh': "fd dh' = fd dh" "events dh' = events dh" by simp_all
  have *: "0 \<le> fd dh \<and> events dh \<in> reachable_events"
    using in_syncD(2,3)[OF sync] c dh(1) s'(3,4) by (cases "d = c") auto
  then show "0 \<le> fd dh'" "events dh' \<in> reachable_events" using dh' by simp_all
  show "monitors s' (fd dh') = interest_of (events dh')" if o: "owner s' (fd dh') = Some d"
  proof (cases "d = c")
    case True
    then have "dh = ch'" using dh(1) by simp
    then show ?thesis using dh' mon(1) s'(3) by simp
  next
    case False
    then have "chans s d = Some dh" using dh(1) by simp
    moreover have "fd dh \<noteq> fd ch" using o own(1,3) False dh' by auto
    ultimately show ?thesis using in_syncD(4)[OF sync] o own(1) mon(1) dh' by simp
  qed
next
  fix f assume "owner s' f = None"
  then show "monitors s' f = None"
    using in_syncD(5)[OF sync, of f] own(1) mon by (cases "f = fd ch") (auto simp: interest_of_def)
qed (rule s'(1))

lemma change_events_ok:
  assumes sync: "in_sync s" and c: "chans s c = Some ch" and f: "f (events ch) \<in> reachable_events"
    and ok: "owner s (fd ch) = Some c \<and> (f (events ch) \<noteq> 0 \<or> events ch \<noteq> 0) \<or>
      owner s (fd ch) = None \<and> index ch = -1 \<and> f (events ch) \<noteq> 0"
  shows "\<exists>s'. change_events f upd c s = Some s' \<and> in_sync s'"
proof -
  let ?ch = "ch\<lparr>events := f (events ch), addedToLoop := True\<rparr>"
  let ?s = "set_chan c ?ch s"
  have inv: "inv ?s" using inv_update[OF in_syncD(1)[OF sync] c, of ?ch] by simp
  have pre: "chans ?s c = Some ?ch" "events ?ch \<in> reachable_events" "0 \<le> fd ?ch"
    using f in_syncD(2)[OF sync c] by simp_all
  have "owner ?s (fd ?ch) = Some c \<and> (events ?ch \<noteq> 0 \<or> monitors ?s (fd ?ch) \<noteq> None) \<or>
        owner ?s (fd ?ch) = None \<and> index ?ch = -1 \<and> events ?ch \<noteq> 0"
    using ok in_syncD(4)[OF sync c] by (auto simp: frame interest_of_def)
  from upd_ok[OF inv pre this] obtain s' where s': "upd c ?s = Some s'" "inv s'" "same_chans ?s s'"
      "owner s' = (owner ?s)(fd ?ch := Some c)" "monitors s' = (monitors ?s)(fd ?ch := interest_of (events ?ch))"
    by blast
  have "in_sync s'"
    by (rule in_sync_after[OF sync c s'(2,3), where x = "Some c"]) (use f ok s'(4,5) in \<open>auto simp: frame\<close>)
  with s'(1) c show ?thesis by (simp add: change_events_def Channel_update_def)
qed

lemma Channel_remove_ok:
  assumes sync: "in_sync s" and c: "chans s c = Some ch" and own: "owner s (fd ch) = Some c" and ev: "events ch = 0"
  shows "\<exists>s'. Channel_remove rm c s = Some s' \<and> in_sync s'"
proof -
  let ?ch = "ch\<lparr>addedToLoop := False\<rparr>"
  let ?s = "set_chan c ?ch s"
  have inv: "inv ?s" using inv_update[OF in_syncD(1)[OF sync] c, of ?ch] by simp
  have m: "monitors s (fd ch) = None" using in_syncD(4)[OF sync c own] ev by (simp add: interest_of_def)
  have pre: "chans ?s c = Some ?ch" "owner ?s (fd ?ch) = Some c" "events ?ch = 0" "0 \<le> fd ?ch"
    "monitors ?s (fd ?ch) = None"
    using own ev m in_syncD(2)[OF sync c] by (simp_all add: frame)
  from rm_ok[OF inv pre] obtain s' where s': "rm c ?s = Some s'" "inv s'" "same_chans ?s s'"
      "owner s' = (owner ?s)(fd ?ch := None)" "monitors s' = monitors ?s"
    by blast
  have "in_sync s'"
    by (rule in_sync_after[OF sync c s'(2,3), where x = None])
      (use ev own m s'(4,5) in_syncD(3)[OF sync c] in \<open>auto simp: frame interest_of_def\<close>)
  with s'(1) c ev show ?thesis by (simp add: Channel_remove_def isNoneEvent_def kNoneEvent_def)
qed

lemma NewChannel_ok:
  assumes sync: "in_sync s" and c: "chans s c = None" and f: "0 \<le> f"
  shows "in_sync (set_chan c (new_Channel f) s)"
proof -
  have "owner s f \<noteq> Some c" for f using owner_chan[OF in_syncD(1)[OF sync], of f c] c by auto
  then show ?thesis
    using sync inv_new[of s c "new_Channel f"] c f
    by (auto simp: in_sync_def frame new_Channel_def reachable_events_def)
qed

lemma chan_exec_ok:
  assumes sync: "in_sync s" and legal: "chan_legal (owner s) (chans s) op"
  shows "\<exists>s'. chan_exec upd rm op s = Some s' \<and> in_sync s'"
proof (cases op)
  case (NewChannel c f)
  then show ?thesis using NewChannel_ok[OF sync] legal by simp
qed (use legal in_syncD(3)[OF sync] in \<open>auto simp: may_enable_def may_disable_def enableReading_def
    disableReading_def enableWriting_def disableWriting_def disableAll_def or_eq_0_iff
    split: option.splits intro!: change_events_ok[OF sync] Channel_remove_ok[OF sync]\<close>)

text \<open>Every allowed run of channel operations succeeds and leaves the kernel in step.\<close>

lemma chan_run_ok:
  "in_sync s \<Longrightarrow> fst (chan_run owner upd rm ops s) \<Longrightarrow> \<exists>s'. snd (chan_run owner upd rm ops s) = Some s' \<and> in_sync s'"
proof (induction ops arbitrary: s)
  case Nil
  then show ?case by simp
next
  case (Cons op ops)
  then have "chan_legal (owner s) (chans s) op" by (auto split: if_splits)
  then obtain s' where "chan_exec upd rm op s = Some s'" "in_sync s'" using chan_exec_ok[OF Cons.prems(1)] by blast
  with Cons show ?case by (auto split: if_splits)
qed

lemma in_sync_empty:
  assumes "inv s" and "chans s = Map.empty" and "\<And>f. monitors s f = None"
  shows "in_sync s"
  using assms by (simp add: in_sync_def)

end

end
