(* ===== verification/Pollers.thy ===== *)
theory Pollers
  imports Net_Poller
begin

text \<open>
  The two pollers provide the contract of \<open>Net_Poller\<close>: for \<open>EPollPoller\<close> under the documented
  behaviour of \<open>epoll_ctl\<close>, for \<open>PollPoller\<close> from its own bookkeeping of the \<open>pollfd\<close> array.  The
  properties say that the kernel always watches exactly what the channels ask for, that \<open>poll\<close>
  reports exactly the channels with events, and what happens outside the contract.
\<close>

section \<open>EPollPoller\<close>

text \<open>
  \<open>epoll_ctl\<close> as documented: \<open>interest\<close> is the interest list; adding needs an absent descriptor,
  modifying and deleting a present one.
\<close>

definition epoll_ctl_ok :: "'k epoll_ctl \<Rightarrow> ('k \<Rightarrow> int \<Rightarrow> (32 word \<times> chan_id) option) \<Rightarrow> bool" where
  "epoll_ctl_ok ctl interest \<longleftrightarrow> (\<forall>k f e.
     (interest k f = None \<longrightarrow>
        (\<exists>k'. ctl EPOLL_CTL_ADD f e k = Some k' \<and> interest k' = (interest k)(f := Some e))) \<and>
     (interest k f \<noteq> None \<longrightarrow>
        (\<exists>k'. ctl EPOLL_CTL_MOD f e k = Some k' \<and> interest k' = (interest k)(f := Some e)) \<and>
        (\<exists>k'. ctl EPOLL_CTL_DEL f e k = Some k' \<and> interest k' = (interest k)(f := None))))"

definition epoll_monitors ::
    "('k \<Rightarrow> int \<Rightarrow> (32 word \<times> chan_id) option) \<Rightarrow> ('cb, 'k) epoll_reactor \<Rightarrow> int \<Rightarrow> 32 word option" where
  "epoll_monitors interest s f = map_option fst (interest (epollfd (mux s)) f)"

definition epoll_owner :: "('cb, 'k) epoll_reactor \<Rightarrow> int \<Rightarrow> chan_id option" where
  "epoll_owner s = ep_channels (mux s)"

definition epoll_entry ::
    "('k \<Rightarrow> int \<Rightarrow> (32 word \<times> chan_id) option) \<Rightarrow> ('cb, 'k) epoll_reactor \<Rightarrow> int \<Rightarrow> chan_id \<Rightarrow> bool" where
  "epoll_entry interest s f c \<longleftrightarrow> (\<exists>ch. chans s c = Some ch \<and> fd ch = f \<and>
     (index ch = kAdded \<and> (\<exists>ev. interest (epollfd (mux s)) f = Some (ev, c)) \<or>
      index ch = kDeleted \<and> interest (epollfd (mux s)) f = None))"

definition epoll_inv ::
    "('k \<Rightarrow> int \<Rightarrow> (32 word \<times> chan_id) option) \<Rightarrow> ('cb, 'k) epoll_reactor \<Rightarrow> bool" where
  "epoll_inv interest s \<longleftrightarrow>
     (\<forall>f c. ep_channels (mux s) f = Some c \<longrightarrow> epoll_entry interest s f c) \<and>
     (\<forall>f. ep_channels (mux s) f = None \<longrightarrow> interest (epollfd (mux s)) f = None)"

lemmas epoll_indices = kNew_def kAdded_def kDeleted_def

text \<open>One channel and its entry change, the others stay.\<close>

lemma epoll_inv_change:
  assumes inv: "epoll_inv interest s" and ch: "chans s c = Some ch"
    and own: "ep_channels (mux s) (fd ch) = Some c \<or> ep_channels (mux s) (fd ch) = None"
    and s': "chans s' = (chans s)(c := Some ch')" "fd ch' = fd ch"
      "ep_channels (mux s') = (ep_channels (mux s))(fd ch := x)"
      "interest (epollfd (mux s')) = (interest (epollfd (mux s)))(fd ch := e)"
    and x: "x = Some c \<and> (index ch' = kAdded \<and> (\<exists>ev. e = Some (ev, c)) \<or> index ch' = kDeleted \<and> e = None) \<or>
      x = None \<and> e = None"
  shows "epoll_inv interest s'"
  unfolding epoll_inv_def
proof (intro conjI allI impI)
  fix f d assume d: "ep_channels (mux s') f = Some d"
  show "epoll_entry interest s' f d"
  proof (cases "f = fd ch")
    case True
    then have "d = c" using d s'(3) x by auto
    then show ?thesis using True d s' x by (auto simp: epoll_entry_def)
  next
    case False
    then have "epoll_entry interest s f d" using d s'(3) inv by (simp add: epoll_inv_def)
    moreover from this have "d \<noteq> c" using False ch by (auto simp: epoll_entry_def)
    ultimately show ?thesis using False s' by (simp add: epoll_entry_def)
  qed
next
  fix f assume "ep_channels (mux s') f = None"
  then show "interest (epollfd (mux s')) f = None"
    using inv s'(3,4) x by (cases "f = fd ch") (auto simp: epoll_inv_def)
qed

lemma epoll_inv_update:
  "epoll_inv interest s \<Longrightarrow> chans s c = Some ch \<Longrightarrow> fd ch' = fd ch \<Longrightarrow> index ch' = index ch \<Longrightarrow>
   epoll_inv interest (set_chan c ch' s)"
  by (fastforce simp: epoll_inv_def epoll_entry_def)

lemma epoll_inv_new: "epoll_inv interest s \<Longrightarrow> chans s c = None \<Longrightarrow> epoll_inv interest (set_chan c ch s)"
  by (fastforce simp: epoll_inv_def epoll_entry_def)

lemma epoll_frame:
  "epoll_owner (set_chan c ch s) = epoll_owner s" "epoll_monitors interest (set_chan c ch s) = epoll_monitors interest s"
  by (simp_all add: epoll_owner_def epoll_monitors_def fun_eq_iff)

lemma epoll_owner_chan: "epoll_inv interest s \<Longrightarrow> epoll_owner s f = Some c \<Longrightarrow> \<exists>ch. chans s c = Some ch \<and> fd ch = f"
  by (auto simp: epoll_inv_def epoll_entry_def epoll_owner_def)

locale epoll_kernel =
  fixes ctl :: "'k epoll_ctl" and interest :: "'k \<Rightarrow> int \<Rightarrow> (32 word \<times> chan_id) option"
  assumes ctl_ok: "epoll_ctl_ok ctl interest"
begin

lemma ctl_add:
  assumes "interest k f = None"
  obtains k' where "ctl EPOLL_CTL_ADD f e k = Some k'" "interest k' = (interest k)(f := Some e)"
  using ctl_ok assms unfolding epoll_ctl_ok_def by blast

lemma ctl_mod:
  assumes "interest k f = Some x"
  obtains k' where "ctl EPOLL_CTL_MOD f e k = Some k'" "interest k' = (interest k)(f := Some e)"
  using ctl_ok assms unfolding epoll_ctl_ok_def by blast

lemma ctl_del:
  assumes "interest k f = Some x"
  obtains k' where "ctl EPOLL_CTL_DEL f e k = Some k'" "interest k' = (interest k)(f := None)"
  using ctl_ok assms unfolding epoll_ctl_ok_def by blast

lemma epoll_add:
  assumes inv: "epoll_inv interest s" and ch: "chans s c = Some ch"
    and idx: "index ch = kNew \<and> ep_channels (mux s) (fd ch) = None \<or>
      index ch = kDeleted \<and> ep_channels (mux s) (fd ch) = Some c"
  shows "\<exists>k. epoll_updateChannel ctl c s = Some (s\<lparr>chans := (chans s)(c := Some (ch\<lparr>index := kAdded\<rparr>)),
      mux := (mux s)\<lparr>ep_channels := (ep_channels (mux s))(fd ch := Some c), epollfd := k\<rparr>\<rparr>) \<and>
      interest k = (interest (epollfd (mux s)))(fd ch := Some (events ch, c))"
proof -
  have "interest (epollfd (mux s)) (fd ch) = None"
  proof (cases "index ch = kDeleted")
    case True
    then have "epoll_entry interest s (fd ch) c" using idx inv by (auto simp: epoll_inv_def epoll_indices)
    then show ?thesis using True ch by (auto simp: epoll_entry_def epoll_indices)
  next
    case False
    then show ?thesis using idx inv by (auto simp: epoll_inv_def)
  qed
  then obtain k where k: "ctl EPOLL_CTL_ADD (fd ch) (events ch, c) (epollfd (mux s)) = Some k"
      "interest k = (interest (epollfd (mux s)))(fd ch := Some (events ch, c))" by (rule ctl_add)
  have same: "(ep_channels (mux s))(fd ch := Some c) = ep_channels (mux s)" if "index ch = kDeleted"
    using that idx by (auto simp: epoll_indices fun_upd_idem)
  show ?thesis
    using idx ch k same
    by (intro exI[of _ k])
      (auto simp: epoll_updateChannel_def epoll_update_def epoll_set_index_def epoll_indices Let_def)
qed

lemma epoll_upd_ok:
  assumes inv: "epoll_inv interest s" and ch: "chans s c = Some ch"
    and ok: "epoll_owner s (fd ch) = Some c \<and> (events ch \<noteq> 0 \<or> epoll_monitors interest s (fd ch) \<noteq> None) \<or>
        epoll_owner s (fd ch) = None \<and> index ch = -1 \<and> events ch \<noteq> 0"
  shows "\<exists>s'. epoll_updateChannel ctl c s = Some s' \<and> epoll_inv interest s' \<and> same_chans s s' \<and>
        epoll_owner s' = (epoll_owner s)(fd ch := Some c) \<and>
        epoll_monitors interest s' = (epoll_monitors interest s)(fd ch := interest_of (events ch))"
proof -
  let ?own = "ep_channels (mux s)" and ?int = "interest (epollfd (mux s))"
  have entry: "epoll_entry interest s (fd ch) c" if "?own (fd ch) = Some c"
    using inv that by (simp add: epoll_inv_def)
  consider (added) "?own (fd ch) = Some c" "index ch = kAdded"
    | (add) "index ch = kNew \<and> ?own (fd ch) = None \<or> index ch = kDeleted \<and> ?own (fd ch) = Some c" "events ch \<noteq> 0"
    using ok entry ch by (auto simp: epoll_owner_def epoll_entry_def epoll_monitors_def kNew_def)
  then show ?thesis
  proof cases
    case add
    obtain k where k: "epoll_updateChannel ctl c s = Some (s\<lparr>chans := (chans s)(c := Some (ch\<lparr>index := kAdded\<rparr>)),
      mux := (mux s)\<lparr>ep_channels := ?own(fd ch := Some c), epollfd := k\<rparr>\<rparr>)"
      "interest k = ?int(fd ch := Some (events ch, c))" using epoll_add[OF inv ch add(1)] by blast
    let ?s = "s\<lparr>chans := (chans s)(c := Some (ch\<lparr>index := kAdded\<rparr>)),
      mux := (mux s)\<lparr>ep_channels := ?own(fd ch := Some c), epollfd := k\<rparr>\<rparr>"
    have "epoll_inv interest ?s"
      by (rule epoll_inv_change[OF inv ch, where x = "Some c" and e = "Some (events ch, c)" and ch' = "ch\<lparr>index := kAdded\<rparr>"])
        (use add k in auto)
    with k add(2) ch show ?thesis
      by (auto simp: same_chans_def epoll_owner_def epoll_monitors_def fun_eq_iff interest_of_def)
  next
    case added
    then obtain ev where e: "?int (fd ch) = Some (ev, c)" using entry ch by (auto simp: epoll_entry_def epoll_indices)
    show ?thesis
    proof (cases "events ch = 0")
      case True
      obtain k where k: "ctl EPOLL_CTL_DEL (fd ch) (events ch, c) (epollfd (mux s)) = Some k" "interest k = ?int(fd ch := None)"
        using e by (rule ctl_del)
      let ?s = "s\<lparr>chans := (chans s)(c := Some (ch\<lparr>index := kDeleted\<rparr>)), mux := (mux s)\<lparr>epollfd := k\<rparr>\<rparr>"
      have upd: "epoll_updateChannel ctl c s = Some ?s"
        using added True ch k(1)
        by (simp add: epoll_updateChannel_def epoll_update_def epoll_set_index_def epoll_indices isNoneEvent_def kNoneEvent_def)
      have "epoll_inv interest ?s"
        by (rule epoll_inv_change[OF inv ch, where x = "Some c" and e = None and ch' = "ch\<lparr>index := kDeleted\<rparr>"])
          (use added k(2) in \<open>auto simp: fun_upd_idem\<close>)
      with upd added k(2) ch True show ?thesis
        by (auto simp: same_chans_def epoll_owner_def epoll_monitors_def fun_eq_iff interest_of_def)
    next
      case False
      obtain k where k: "ctl EPOLL_CTL_MOD (fd ch) (events ch, c) (epollfd (mux s)) = Some k"
          "interest k = ?int(fd ch := Some (events ch, c))"
        using e by (rule ctl_mod)
      let ?s = "s\<lparr>mux := (mux s)\<lparr>epollfd := k\<rparr>\<rparr>"
      have upd: "epoll_updateChannel ctl c s = Some ?s"
        using added False ch k(1)
        by (simp add: epoll_updateChannel_def epoll_update_def epoll_indices isNoneEvent_def kNoneEvent_def)
      have "epoll_inv interest ?s"
        by (rule epoll_inv_change[OF inv ch, where x = "Some c" and e = "Some (events ch, c)" and ch' = ch])
          (use added k(2) ch in \<open>auto simp: fun_upd_idem\<close>)
      with upd added k(2) ch False show ?thesis
        by (auto simp: same_chans_def epoll_owner_def epoll_monitors_def fun_eq_iff interest_of_def)
    qed
  qed
qed

lemma epoll_rm_ok:
  assumes inv: "epoll_inv interest s" and ch: "chans s c = Some ch" and own: "epoll_owner s (fd ch) = Some c"
    and ev: "events ch = 0" and mon: "epoll_monitors interest s (fd ch) = None"
  shows "\<exists>s'. epoll_removeChannel ctl c s = Some s' \<and> epoll_inv interest s' \<and> same_chans s s' \<and>
    epoll_owner s' = (epoll_owner s)(fd ch := None) \<and> epoll_monitors interest s' = epoll_monitors interest s"
proof -
  let ?own = "ep_channels (mux s)"
  have "epoll_entry interest s (fd ch) c" using inv own by (simp add: epoll_inv_def epoll_owner_def)
  then have del: "index ch = kDeleted" "interest (epollfd (mux s)) (fd ch) = None"
    using mon ch by (auto simp: epoll_entry_def epoll_monitors_def)
  let ?s = "s\<lparr>chans := (chans s)(c := Some (ch\<lparr>index := kNew\<rparr>)), mux := (mux s)\<lparr>ep_channels := ?own(fd ch := None)\<rparr>\<rparr>"
  have rm: "epoll_removeChannel ctl c s = Some ?s"
    using own ev ch del(1)
    by (simp add: epoll_removeChannel_def epoll_owner_def isNoneEvent_def kNoneEvent_def epoll_set_index_def epoll_indices Let_def)
  have "epoll_inv interest ?s"
    by (rule epoll_inv_change[OF inv ch, where x = None and e = None and ch' = "ch\<lparr>index := kNew\<rparr>"])
      (use own del(2) in \<open>auto simp: epoll_owner_def fun_upd_idem\<close>)
  with rm ch show ?thesis by (auto simp: same_chans_def epoll_owner_def epoll_monitors_def fun_eq_iff)
qed

end

sublocale epoll_kernel \<subseteq> ep: poller "epoll_inv interest" epoll_owner "epoll_monitors interest"
    "epoll_updateChannel ctl" "epoll_removeChannel ctl"
  by unfold_locales
    (simp_all add: epoll_inv_update epoll_inv_new epoll_frame epoll_owner_chan epoll_upd_ok epoll_rm_ok)

section \<open>PollPoller\<close>

definition poll_owner :: "'cb poll_reactor \<Rightarrow> int \<Rightarrow> chan_id option" where
  "poll_owner s = poll_channels (mux s)"

text \<open>What \<open>poll\<close> looks at: the entries with a descriptor that is not negative.\<close>

definition poll_monitors :: "'cb poll_reactor \<Rightarrow> int \<Rightarrow> 32 word option" where
  "poll_monitors s f = (if f < 0 then None
     else map_of (map (\<lambda>p. (pfd_fd p, scast (pfd_events p))) (pollfds (mux s))) f)"

definition real_fd :: "pollfd \<Rightarrow> int" where
  "real_fd p = (if pfd_fd p < 0 then - pfd_fd p - 1 else pfd_fd p)"

definition poll_slot :: "'cb poll_reactor \<Rightarrow> nat \<Rightarrow> chan_id \<Rightarrow> bool" where
  "poll_slot s i c \<longleftrightarrow> i < length (pollfds (mux s)) \<and>
     poll_channels (mux s) (real_fd (pollfds (mux s) ! i)) = Some c \<and>
     (\<exists>ch. chans s c = Some ch \<and> fd ch = real_fd (pollfds (mux s) ! i) \<and> index ch = int i)"

definition poll_inv :: "'cb poll_reactor \<Rightarrow> bool" where
  "poll_inv s \<longleftrightarrow>
     (\<forall>i < length (pollfds (mux s)). \<exists>c. poll_slot s i c) \<and>
     (\<forall>f c. poll_channels (mux s) f = Some c \<longrightarrow> 0 \<le> f \<and> (\<exists>i ch. poll_slot s i c \<and> chans s c = Some ch \<and> fd ch = f)) \<and>
     (\<forall>i < length (pollfds (mux s)). pfd_fd (pollfds (mux s) ! i) < 0 \<longrightarrow> pfd_events (pollfds (mux s) ! i) = 0)"

lemma poll_slot_ex:
  assumes "poll_inv s" and "i < length (pollfds (mux s))"
  obtains c where "poll_slot s i c"
  using assms by (auto simp: poll_inv_def)

lemma poll_slot_unique:
  assumes "poll_slot s i c" and "poll_slot s j d" and "real_fd (pollfds (mux s) ! i) = real_fd (pollfds (mux s) ! j) \<or> c = d"
  shows "i = j \<and> c = d"
proof -
  have own: "poll_channels (mux s) (real_fd (pollfds (mux s) ! i)) = Some c"
    "poll_channels (mux s) (real_fd (pollfds (mux s) ! j)) = Some d"
    and idx: "map_option index (chans s c) = Some (int i)" "map_option index (chans s d) = Some (int j)"
    using assms(1,2) unfolding poll_slot_def by auto
  have "c = d" using assms(3)
  proof
    assume "real_fd (pollfds (mux s) ! i) = real_fd (pollfds (mux s) ! j)"
    then show "c = d" using own by (metis option.inject)
  qed
  with idx show ?thesis by simp
qed

lemma map_of_unique_key:
  "p \<in> set xs \<Longrightarrow> \<forall>q\<in>set xs. f q = k \<longleftrightarrow> q = p \<Longrightarrow> map_of (map (\<lambda>q. (f q, g q)) xs) k = Some (g p)"
  by (induction xs) auto

lemma poll_monitors_slot:
  assumes inv: "poll_inv s" and slot: "poll_slot s i c"
  defines "p \<equiv> pollfds (mux s) ! i"
  shows "poll_monitors s (real_fd p) = (if pfd_fd p < 0 then None else Some (scast (pfd_events p)))"
proof -
  let ?xs = "pollfds (mux s)"
  have pos: "0 \<le> real_fd p" using inv slot unfolding poll_inv_def poll_slot_def p_def by blast
  have uniq: "k = j" if "k < length ?xs" "j < length ?xs" "real_fd (?xs ! k) = real_fd (?xs ! j)" for k j
    using inv that poll_slot_unique unfolding poll_inv_def by metis
  have key: "pfd_fd q = real_fd p \<longleftrightarrow> q = p \<and> \<not> pfd_fd p < 0" if q: "q \<in> set ?xs" for q
  proof -
    obtain j where j: "j < length ?xs" "q = ?xs ! j" using q by (auto simp: in_set_conv_nth)
    have "0 \<le> real_fd p" by (rule pos)
    then show ?thesis
      using uniq[OF j(1), of i] slot j(2) unfolding p_def by (auto simp: poll_slot_def real_fd_def)
  qed
  have p: "p \<in> set ?xs" using slot by (simp add: p_def poll_slot_def)
  note pos
  moreover have "map_of (map (\<lambda>p. (pfd_fd p, scast (pfd_events p) :: 32 word)) ?xs) (real_fd p) = Some (scast (pfd_events p))"
    if "\<not> pfd_fd p < 0" by (rule map_of_unique_key[OF p]) (use key that in blast)
  moreover have "map_of (map (\<lambda>p. (pfd_fd p, scast (pfd_events p) :: 32 word)) ?xs) (real_fd p) = None"
    if "pfd_fd p < 0"
  proof -
    have "real_fd p \<notin> pfd_fd ` set ?xs" using key that by (metis imageE)
    then show ?thesis by (simp add: map_of_eq_None_iff image_image)
  qed
  ultimately show ?thesis by (simp add: poll_monitors_def)
qed

lemma poll_monitors_None:
  assumes inv: "poll_inv s" and own: "poll_owner s f = None"
  shows "poll_monitors s f = None"
proof -
  have "f \<notin> pfd_fd ` set (pollfds (mux s))" if "0 \<le> f"
  proof
    assume "f \<in> pfd_fd ` set (pollfds (mux s))"
    then obtain i where i: "i < length (pollfds (mux s))" "pfd_fd (pollfds (mux s) ! i) = f"
      by (auto simp: in_set_conv_nth)
    then obtain c where "poll_slot s i c" using inv unfolding poll_inv_def by blast
    then show False using own i(2) that by (simp add: poll_slot_def poll_owner_def real_fd_def)
  qed
  then show ?thesis by (simp add: poll_monitors_def map_of_eq_None_iff image_image)
qed

lemma poll_slotD:
  assumes "poll_slot s i c" and "chans s c = Some ch"
  shows "i < length (pollfds (mux s))" "real_fd (pollfds (mux s) ! i) = fd ch" "index ch = int i"
    "poll_channels (mux s) (fd ch) = Some c"
  using assms by (auto simp: poll_slot_def)

lemma poll_owner_slot:
  assumes "poll_inv s" and "poll_owner s f = Some c"
  obtains i where "poll_slot s i c" "real_fd (pollfds (mux s) ! i) = f" "0 \<le> f"
  using assms poll_slotD(2) unfolding poll_inv_def poll_owner_def by metis

text \<open>
  Two states with the same owners watch the same descriptors when each owner's entry says so.
\<close>

lemma poll_monitors_eqI:
  assumes inv: "poll_inv s" "poll_inv s'"
    and other: "\<And>g. g \<noteq> f \<Longrightarrow> poll_owner s' g = poll_owner s g"
    and entry: "\<And>g c i j. g \<noteq> f \<Longrightarrow> poll_slot s i c \<Longrightarrow> real_fd (pollfds (mux s) ! i) = g \<Longrightarrow> poll_slot s' j c \<Longrightarrow>
      pollfds (mux s') ! j = pollfds (mux s) ! i"
    and f: "poll_monitors s' f = x"
  shows "poll_monitors s' = (poll_monitors s)(f := x)"
proof
  fix g
  show "poll_monitors s' g = ((poll_monitors s)(f := x)) g"
  proof (cases "g = f")
    case True
    with f show ?thesis by simp
  next
    case False
    show ?thesis
    proof (cases "poll_owner s g")
      case None
      with False other show ?thesis
        using poll_monitors_None[OF inv(1)] poll_monitors_None[OF inv(2)] by simp
    next
      case (Some c)
      then have o: "poll_owner s' g = Some c" using other False by simp
      obtain i where i: "poll_slot s i c" "real_fd (pollfds (mux s) ! i) = g" using poll_owner_slot[OF inv(1) Some] .
      obtain j where j: "poll_slot s' j c" "real_fd (pollfds (mux s') ! j) = g" using poll_owner_slot[OF inv(2) o] .
      show ?thesis
        using entry[OF False i j(1)] poll_monitors_slot[OF inv(1) i(1)] poll_monitors_slot[OF inv(2) j(1)] i(2) j(2) False
        by simp
    qed
  qed
qed

lemma scast_ucast_events [simp]: "ev \<in> reachable_events \<Longrightarrow> scast (ucast ev :: 16 word) = ev"
  by (auto simp: reachable_events_def)

lemma poll_upd_old:
  assumes inv: "poll_inv s" and ch: "chans s c = Some ch" and own: "poll_owner s (fd ch) = Some c"
    and ev: "events ch \<in> reachable_events"
  shows "\<exists>s'. poll_updateChannel c s = Some s' \<and> poll_inv s' \<and> same_chans s s' \<and>
        poll_owner s' = (poll_owner s)(fd ch := Some c) \<and>
        poll_monitors s' = (poll_monitors s)(fd ch := interest_of (events ch))"
proof -
  let ?p = "mux s"
  obtain i where slot: "poll_slot s i c" and i: "real_fd (pollfds ?p ! i) = fd ch" and pos: "0 \<le> fd ch"
    using poll_owner_slot[OF inv own] .
  note d = poll_slotD[OF slot ch]
  let ?pfd = "\<lparr>pfd_fd = (if isNoneEvent ch then - fd ch - 1 else fd ch), pfd_events = ucast (events ch), pfd_revents = 0\<rparr>"
  let ?s = "s\<lparr>mux := ?p\<lparr>pollfds := (pollfds ?p)[i := ?pfd]\<rparr>\<rparr>"
  have real: "real_fd ?pfd = fd ch" using pos by (simp add: real_fd_def)
  have pfd: "pfd_fd (pollfds ?p ! i) = fd ch \<or> pfd_fd (pollfds ?p ! i) = - fd ch - 1"
    using i by (auto simp: real_fd_def split: if_splits)
  have upd: "poll_updateChannel c s = Some ?s"
    using ch d(1,3,4) pfd by (simp add: poll_updateChannel_def Let_def)
  have same: "real_fd ((pollfds ?p)[i := ?pfd] ! k) = real_fd (pollfds ?p ! k)" if "k < length (pollfds ?p)" for k
    using that real i d(1) by (cases "k = i") simp_all
  have slots: "poll_slot ?s k e \<longleftrightarrow> poll_slot s k e" for k e
    by (cases "k < length (pollfds ?p)") (simp_all add: poll_slot_def same)
  have inv': "poll_inv ?s"
    using inv pos d(1) unfolding poll_inv_def slots
    by (auto simp: nth_list_update isNoneEvent_def kNoneEvent_def)
  have "poll_monitors ?s = (poll_monitors s)(fd ch := interest_of (events ch))"
  proof (rule poll_monitors_eqI[OF inv inv'])
    have "poll_slot ?s i c" using slot slots by blast
    from poll_monitors_slot[OF inv' this] show "poll_monitors ?s (fd ch) = interest_of (events ch)"
      using d(1) real pos ev by (simp add: interest_of_def isNoneEvent_def kNoneEvent_def)
  next
    fix g e k j assume "g \<noteq> fd ch" "poll_slot s k e" "real_fd (pollfds (mux s) ! k) = g" "poll_slot ?s j e"
    then show "pollfds (mux ?s) ! j = pollfds (mux s) ! k"
      using poll_slot_unique[of s k e j e] slots i by (cases "k = i") auto
  qed (simp add: poll_owner_def)
  with upd inv' own show ?thesis by (auto simp: same_chans_def poll_owner_def fun_upd_idem)
qed

lemma poll_upd_new:
  assumes inv: "poll_inv s" and ch: "chans s c = Some ch" and own: "poll_owner s (fd ch) = None"
    and idx: "index ch = -1" and pos: "0 \<le> fd ch" and ev: "events ch \<in> reachable_events" "events ch \<noteq> 0"
  shows "\<exists>s'. poll_updateChannel c s = Some s' \<and> poll_inv s' \<and> same_chans s s' \<and>
        poll_owner s' = (poll_owner s)(fd ch := Some c) \<and>
        poll_monitors s' = (poll_monitors s)(fd ch := interest_of (events ch))"
proof -
  let ?p = "mux s"
  let ?n = "length (pollfds ?p)"
  let ?pfd = "\<lparr>pfd_fd = fd ch, pfd_events = ucast (events ch), pfd_revents = 0\<rparr>"
  let ?s = "(set_chan c (ch\<lparr>index := int ?n\<rparr>) s)\<lparr>mux := ?p\<lparr>poll_channels := (poll_channels ?p)(fd ch := Some c),
                          pollfds := pollfds ?p @ [?pfd]\<rparr>\<rparr>"
  have real: "real_fd ?pfd = fd ch" using pos by (simp add: real_fd_def)
  have upd: "poll_updateChannel c s = Some ?s"
    using ch idx own by (simp add: poll_updateChannel_def Let_def poll_owner_def)
  have no_slot: "\<not> poll_slot s k c" for k using poll_slotD(4)[OF _ ch, of k] own by (auto simp: poll_owner_def)
  have fd_free: "real_fd (pollfds ?p ! k) \<noteq> fd ch" if k: "k < ?n" for k
  proof -
    obtain e where "poll_slot s k e" using inv k unfolding poll_inv_def by blast
    then have "poll_channels ?p (real_fd (pollfds ?p ! k)) = Some e" unfolding poll_slot_def by blast
    then show ?thesis using own by (auto simp: poll_owner_def)
  qed
  have slots: "poll_slot ?s k e \<longleftrightarrow> poll_slot s k e \<or> k = ?n \<and> e = c" for k e
  proof (cases "k < ?n")
    case True
    then have "poll_slot ?s k e \<longleftrightarrow> poll_slot s k e" if "e \<noteq> c"
      using that fd_free[OF True] by (simp add: poll_slot_def nth_append)
    moreover have "\<not> poll_slot ?s k c" using True fd_free[OF True] by (simp add: poll_slot_def nth_append)
    ultimately show ?thesis using True no_slot by (cases "e = c") auto
  next
    case False
    then have "\<not> poll_slot s k e" by (simp add: poll_slot_def)
    moreover have "poll_slot ?s k e \<longleftrightarrow> k = ?n \<and> e = c"
      using False real by (cases "k = ?n") (auto simp: poll_slot_def nth_append)
    ultimately show ?thesis by blast
  qed
  have inv': "poll_inv ?s"
    unfolding poll_inv_def slots
  proof (intro conjI allI impI)
    fix k assume "k < length (pollfds (mux ?s))"
    then show "\<exists>e. poll_slot s k e \<or> k = ?n \<and> e = c" using inv by (auto simp: poll_inv_def less_Suc_eq)
  next
    fix f e assume f: "poll_channels (mux ?s) f = Some e"
    show "0 \<le> f" using f inv pos by (cases "f = fd ch") (auto simp: poll_inv_def)
    show "\<exists>i ch. (poll_slot s i e \<or> i = ?n \<and> e = c) \<and> chans ?s e = Some ch \<and> fd ch = f"
    proof (cases "f = fd ch")
      case True
      then have "e = c" using f by simp
      then show ?thesis using True by auto
    next
      case False
      then have "poll_channels ?p f = Some e" using f by simp
      then obtain i eh where i: "poll_slot s i e" "chans s e = Some eh" "fd eh = f"
        using inv unfolding poll_inv_def by blast
      then have "e \<noteq> c" using no_slot by blast
      then show ?thesis using i by (intro exI[of _ i]) simp
    qed
  next
    fix k assume "k < length (pollfds (mux ?s))" "pfd_fd (pollfds (mux ?s) ! k) < 0"
    then show "pfd_events (pollfds (mux ?s) ! k) = 0"
      using inv pos by (auto simp: poll_inv_def nth_append split: if_splits)
  qed
  have "poll_monitors ?s = (poll_monitors s)(fd ch := interest_of (events ch))"
  proof (rule poll_monitors_eqI[OF inv inv'])
    have "poll_slot ?s ?n c" using slots by blast
    from poll_monitors_slot[OF inv' this] show "poll_monitors ?s (fd ch) = interest_of (events ch)"
      using real pos ev by (simp add: interest_of_def)
  next
    fix g e k j assume k: "poll_slot s k e" and "poll_slot ?s j e"
    then have "j = k" using poll_slot_unique[of s k e j e] slots no_slot by blast
    then show "pollfds (mux ?s) ! j = pollfds (mux s) ! k" using k by (simp add: poll_slot_def nth_append)
  qed (simp add: poll_owner_def)
  with upd inv' ch show ?thesis by (auto simp: same_chans_def poll_owner_def)
qed

text \<open>The array without the entry \<open>i\<close>, whose place the last entry takes.\<close>

lemma swap_pop_nth:
  assumes "i < length xs" and "k < length xs - 1"
  shows "swap_pop i xs ! k = (if k = i then xs ! (length xs - 1) else xs ! k)"
  using assms by (cases xs rule: rev_cases) (auto simp: swap_pop_def nth_butlast nth_append nth_list_update)

lemma length_swap_pop [simp]: "length (swap_pop i xs) = length xs - 1"
  by (simp add: swap_pop_def)

lemma poll_rm_state:
  assumes inv: "poll_inv s" and ch: "chans s c = Some ch" and slot: "poll_slot s i c" and ev: "events ch = 0"
    and mon: "poll_monitors s (fd ch) = None"
  defines "n \<equiv> length (pollfds (mux s))"
  shows "\<exists>cs ys. poll_removeChannel c s = Some (s\<lparr>chans := cs, mux := (mux s)\<lparr>poll_channels := (poll_channels (mux s))(fd ch := None), pollfds := ys\<rparr>\<rparr>) \<and>
     length ys = n - 1 \<and> (\<forall>k < n - 1. ys ! k = (if k = i then pollfds (mux s) ! (n - 1) else pollfds (mux s) ! k)) \<and>
     (\<forall>e. cs e = (if poll_slot s (n - 1) e \<and> e \<noteq> c then map_option (index_update (\<lambda>_. int i)) (chans s e) else chans s e))"
proof -
  let ?xs = "pollfds (mux s)"
  note d = poll_slotD[OF slot ch]
  have neg: "pfd_fd (?xs ! i) = - fd ch - 1"
    using poll_monitors_slot[OF inv slot] d(2) mon by (auto simp: real_fd_def split: if_splits)
  have "0 \<le> fd ch" using inv d(4) unfolding poll_inv_def by blast
  then have zero: "pfd_events (?xs ! i) = 0" using inv neg d(1) by (simp add: poll_inv_def)
  have asserts: "poll_channels (mux s) (fd ch) = Some c" "isNoneEvent ch" "0 \<le> index ch \<and> index ch < int n"
    "scast (pfd_events (?xs ! i)) = events ch" "nat (index ch) = i"
    using d ev zero by (simp_all add: n_def isNoneEvent_def kNoneEvent_def)
  show ?thesis
  proof (cases "i = n - 1")
    case True
    then have "\<not> (poll_slot s (n - 1) e \<and> e \<noteq> c)" for e using poll_slot_unique[of s "n - 1" e i c] slot by blast
    moreover have "poll_removeChannel c s = Some (s\<lparr>mux := (mux s)\<lparr>poll_channels := (poll_channels (mux s))(fd ch := None), pollfds := butlast ?xs\<rparr>\<rparr>)"
      using ch asserts neg True by (simp add: poll_removeChannel_def Let_def n_def)
    ultimately show ?thesis using True d(1)
      by (intro exI[of _ "chans s"] exI[of _ "butlast ?xs"]) (auto simp: nth_butlast n_def)
  next
    case False
    then have len: "i < n - 1" using d(1) by (simp add: n_def)
    have "?xs \<noteq> []" using d(1) by auto
    then have last: "last ?xs = ?xs ! (n - 1)" by (simp add: n_def last_conv_nth)
    obtain c' where slot': "poll_slot s (n - 1) c'" using inv len unfolding poll_inv_def n_def by force
    then obtain ch' where ch': "chans s c' = Some ch'" unfolding poll_slot_def by blast
    note d' = poll_slotD[OF slot' ch']
    have "c' \<noteq> c" using poll_slot_unique[OF slot' slot] False by blast
    then have ne: "fd ch' \<noteq> fd ch" using d(4) d'(4) by auto
    have lookup: "((poll_channels (mux s))(fd ch := None)) (real_fd (?xs ! (n - 1))) = Some c'"
      using ne d' by simp
    have "poll_removeChannel c s = Some (s\<lparr>chans := (chans s)(c' := Some (ch'\<lparr>index := index ch\<rparr>)),
        mux := (mux s)\<lparr>poll_channels := (poll_channels (mux s))(fd ch := None), pollfds := swap_pop i ?xs\<rparr>\<rparr>)"
      using ch asserts neg False lookup ch' last
      by (simp add: poll_removeChannel_def Let_def n_def real_fd_def del: fun_upd_apply)
    moreover have "poll_slot s (n - 1) e \<longleftrightarrow> e = c'" for e using slot' poll_slot_unique by blast
    ultimately show ?thesis
      using \<open>c' \<noteq> c\<close> ch' d(1,3) len
      by (intro exI[of _ "(chans s)(c' := Some (ch'\<lparr>index := index ch\<rparr>))"] exI[of _ "swap_pop i ?xs"])
        (simp add: swap_pop_nth n_def)
  qed
qed

lemma poll_rm_ok:
  assumes inv: "poll_inv s" and ch: "chans s c = Some ch" and own: "poll_owner s (fd ch) = Some c"
    and ev: "events ch = 0" and mon: "poll_monitors s (fd ch) = None"
  shows "\<exists>s'. poll_removeChannel c s = Some s' \<and> poll_inv s' \<and> same_chans s s' \<and>
    poll_owner s' = (poll_owner s)(fd ch := None) \<and> poll_monitors s' = poll_monitors s"
proof -
  let ?xs = "pollfds (mux s)"
  define n where "n = length ?xs"
  obtain i where slot: "poll_slot s i c" using poll_owner_slot[OF inv own] .
  note d = poll_slotD[OF slot ch]
  obtain cs ys where rm: "poll_removeChannel c s = Some (s\<lparr>chans := cs,
        mux := (mux s)\<lparr>poll_channels := (poll_channels (mux s))(fd ch := None), pollfds := ys\<rparr>\<rparr>)"
    and ys: "length ys = n - 1" "\<And>k. k < n - 1 \<Longrightarrow> ys ! k = (if k = i then ?xs ! (n - 1) else ?xs ! k)"
    and cs: "\<And>e. cs e = (if poll_slot s (n - 1) e \<and> e \<noteq> c then map_option (index_update (\<lambda>_. int i)) (chans s e) else chans s e)"
    using poll_rm_state[OF inv ch slot ev mon] unfolding n_def by blast
  let ?s = "s\<lparr>chans := cs, mux := (mux s)\<lparr>poll_channels := (poll_channels (mux s))(fd ch := None), pollfds := ys\<rparr>\<rparr>"
  have other: "real_fd (?xs ! k) \<noteq> fd ch" if "poll_slot s k e" "e \<noteq> c" for k e
    using that d(4) by (auto simp: poll_slot_def)
  have keep: "poll_slot ?s k e \<and> ys ! k = ?xs ! k" if "poll_slot s k e" "e \<noteq> c" "k \<noteq> n - 1" for k e
  proof -
    have "k \<noteq> i" using poll_slot_unique[OF that(1) slot] that(2) by blast
    moreover have k: "k < n - 1" using that(1,3) by (auto simp: poll_slot_def n_def)
    ultimately have y: "ys ! k = ?xs ! k" by (simp add: ys(2))
    have "\<not> poll_slot s (n - 1) e" using poll_slot_unique[OF that(1)] that(3) by blast
    then have e: "cs e = chans s e" by (simp add: cs)
    show ?thesis using that(1) other[OF that(1,2)] k unfolding poll_slot_def by (simp add: ys(1) y e)
  qed
  have move: "poll_slot ?s i e \<and> ys ! i = ?xs ! (n - 1)" if sl: "poll_slot s (n - 1) e" and ne: "e \<noteq> c" for e
  proof -
    have "n - 1 \<noteq> i" using poll_slot_unique[OF sl slot] ne by blast
    then have i: "i < n - 1" using d(1) by (simp add: n_def)
    then have y: "ys ! i = ?xs ! (n - 1)" by (simp add: ys(2))
    have e: "cs e = map_option (index_update (\<lambda>_. int i)) (chans s e)" using sl ne by (simp add: cs)
    obtain eh where eh: "chans s e = Some eh" using sl unfolding poll_slot_def by blast
    show ?thesis
      using poll_slotD[OF sl eh] other[OF sl ne] i unfolding poll_slot_def by (simp add: ys(1) y e eh)
  qed
  have slot_ex: "\<exists>k'. poll_slot ?s k' e \<and> ys ! k' = ?xs ! k" if "poll_slot s k e" "e \<noteq> c" for k e
    using keep[of k e] move[of e] that by (cases "k = n - 1") auto
  have inv': "poll_inv ?s"
    unfolding poll_inv_def
  proof (intro conjI allI impI)
    fix k assume "k < length (pollfds (mux ?s))"
    then have k: "k < n - 1" using ys by simp
    show "\<exists>e. poll_slot ?s k e"
    proof (cases "k = i")
      case True
      obtain e where e: "poll_slot s (n - 1) e" using inv k unfolding poll_inv_def n_def by force
      then have "e \<noteq> c" using poll_slot_unique[OF e slot] k True by force
      then show ?thesis using move[OF e] True by blast
    next
      case False
      obtain e where e: "poll_slot s k e" using inv k unfolding poll_inv_def n_def by force
      then have "e \<noteq> c" using poll_slot_unique[OF e slot] False by blast
      then show ?thesis using keep[OF e] k by blast
    qed
    show "pfd_events (pollfds (mux ?s) ! k) = 0" if "pfd_fd (pollfds (mux ?s) ! k) < 0"
      using that inv ys(2)[OF k] k by (auto simp: poll_inv_def n_def split: if_splits)
  next
    fix f e assume f: "poll_channels (mux ?s) f = Some e"
    then have f': "poll_channels (mux s) f = Some e" "f \<noteq> fd ch" by (auto split: if_splits)
    then obtain k eh where k: "poll_slot s k e" "chans s e = Some eh" "fd eh = f" "0 \<le> f"
      using inv unfolding poll_inv_def by blast
    show "0 \<le> f" by (rule k(4))
    have "e \<noteq> c" using k(2,3) ch f'(2) by auto
    then show "\<exists>i eh. poll_slot ?s i e \<and> chans ?s e = Some eh \<and> fd eh = f"
      using slot_ex[OF k(1)] k(2,3) cs[of e] by auto
  qed
  have "poll_monitors ?s = (poll_monitors s)(fd ch := None)"
  proof (rule poll_monitors_eqI[OF inv inv'])
    show "poll_monitors ?s (fd ch) = None" by (rule poll_monitors_None[OF inv']) (simp add: poll_owner_def)
  next
    fix g e k j assume "g \<noteq> fd ch" and k: "poll_slot s k e" "real_fd (?xs ! k) = g" and j: "poll_slot ?s j e"
    then have "e \<noteq> c" using d(2) poll_slot_unique[OF k(1) slot] by blast
    then obtain k' where "poll_slot ?s k' e" "ys ! k' = ?xs ! k" using slot_ex[OF k(1)] by blast
    then show "pollfds (mux ?s) ! j = ?xs ! k" using poll_slot_unique[OF j, of k' e] by auto
  qed (simp add: poll_owner_def)
  then have "poll_monitors ?s = poll_monitors s" using mon by (simp add: fun_upd_idem)
  moreover have "same_chans s ?s" by (simp add: same_chans_def cs option.map_comp comp_def)
  ultimately show ?thesis using rm inv' by (auto simp: poll_owner_def)
qed

lemma poll_inv_update:
  assumes "poll_inv s" and "chans s c = Some ch" and "fd ch' = fd ch" and "index ch' = index ch"
  shows "poll_inv (set_chan c ch' s)"
proof -
  have "poll_slot (set_chan c ch' s) i e = poll_slot s i e" for i e
    using assms(2-4) by (cases "e = c") (simp_all add: poll_slot_def)
  then have "poll_slot (set_chan c ch' s) = poll_slot s" by (intro ext)
  moreover have "(\<exists>eh. chans (set_chan c ch' s) e = Some eh \<and> fd eh = f) = (\<exists>eh. chans s e = Some eh \<and> fd eh = f)" for e f
    using assms(2-4) by (cases "e = c") simp_all
  ultimately show ?thesis using assms(1) unfolding poll_inv_def by simp
qed

lemma poll_inv_new:
  assumes "poll_inv s" and "chans s c = None"
  shows "poll_inv (set_chan c ch s)"
proof -
  have ne: "e \<noteq> c" if "poll_channels (mux s) f = Some e" for e f
    using assms that unfolding poll_inv_def by fastforce
  then have "poll_slot (set_chan c ch s) i e = poll_slot s i e" for i e
    by (cases "e = c") (auto simp: poll_slot_def)
  then have "poll_slot (set_chan c ch s) = poll_slot s" by (intro ext)
  moreover have "chans (set_chan c ch s) e = chans s e" if "poll_channels (mux s) f = Some e" for e f
    using ne[OF that] by simp
  ultimately show ?thesis using assms(1) unfolding poll_inv_def by simp
qed

lemma poll_frame: "poll_owner (set_chan c ch s) = poll_owner s" "poll_monitors (set_chan c ch s) = poll_monitors s"
  by (simp_all add: poll_owner_def poll_monitors_def fun_eq_iff)

interpretation pp: poller poll_inv poll_owner poll_monitors poll_updateChannel poll_removeChannel
proof
  fix s :: "'cb poll_reactor" and f c
  assume "poll_inv s" "poll_owner s f = Some c"
  then show "\<exists>ch. chans s c = Some ch \<and> fd ch = f" by (auto simp: poll_inv_def poll_owner_def)
next
  fix s :: "'cb poll_reactor" and c ch
  assume "poll_inv s" "chans s c = Some ch" "events ch \<in> reachable_events" "0 \<le> fd ch"
    "poll_owner s (fd ch) = Some c \<and> (events ch \<noteq> 0 \<or> poll_monitors s (fd ch) \<noteq> None) \<or>
     poll_owner s (fd ch) = None \<and> index ch = -1 \<and> events ch \<noteq> 0"
  then show "\<exists>s'. poll_updateChannel c s = Some s' \<and> poll_inv s' \<and> same_chans s s' \<and>
      poll_owner s' = (poll_owner s)(fd ch := Some c) \<and>
      poll_monitors s' = (poll_monitors s)(fd ch := interest_of (events ch))"
    using poll_upd_old poll_upd_new by blast
qed (simp_all add: poll_inv_update poll_inv_new poll_frame poll_rm_ok)

section \<open>Properties\<close>

text \<open>
  C12. With \<open>PollPoller\<close>, every sequence of channel operations within the rules (a channel enables
  something first, on its own descriptor, disables only what is enabled, and is removed once
  everything is disabled) runs without failing an assertion, and afterwards \<open>poll\<close> is given
  exactly the events the registered channels ask for.
\<close>

theorem poll_in_step:
  fixes s :: "'cb poll_reactor"
  assumes "s = \<lparr>chans = Map.empty, mux = new_PollPoller\<rparr>"
    and "fst (chan_run poll_owner poll_updateChannel poll_removeChannel ops s)"
  shows "\<exists>s'. snd (chan_run poll_owner poll_updateChannel poll_removeChannel ops s) = Some s' \<and>
    poll_monitors s' = asked poll_owner s'"
proof -
  have "pp.in_sync s" unfolding assms(1)
    by (rule pp.in_sync_empty) (simp_all add: poll_inv_def poll_slot_def poll_monitors_def new_PollPoller_def)
  from pp.chan_run_ok[OF this assms(2)] show ?thesis using pp.in_sync_asked by blast
qed

lemmas chan_ops_defs = enableReading_def disableReading_def enableWriting_def disableWriting_def disableAll_def
  change_events_def Channel_update_def Channel_remove_def new_Channel_def isNoneEvent_def kNoneEvent_def
  kReadEvent_def kWriteEvent_def poll_flags may_enable_def may_disable_def

lemmas poll_defs = poll_updateChannel_def poll_removeChannel_def poll_owner_def new_PollPoller_def swap_pop_def

theorem poll_in_step_witness:
  "\<exists>s' :: nat poll_reactor. snd (chan_run poll_owner poll_updateChannel poll_removeChannel
      [NewChannel 0 5, EnableReading 0, NewChannel 1 6, EnableWriting 1, DisableAll 0, RemoveChannel 0, EnableReading 1]
      \<lparr>chans = Map.empty, mux = new_PollPoller\<rparr>) = Some s' \<and> poll_monitors s' = asked poll_owner s'"
  by (rule poll_in_step[OF refl]) (simp add: chan_ops_defs poll_defs Let_def)

context epoll_kernel
begin

lemma run_in_step:
  assumes "s = \<lparr>chans = Map.empty, mux = new_EPollPoller k\<rparr>" and "interest k = Map.empty"
    and "fst (chan_run epoll_owner (epoll_updateChannel ctl) (epoll_removeChannel ctl) ops s)"
  shows "\<exists>s'. snd (chan_run epoll_owner (epoll_updateChannel ctl) (epoll_removeChannel ctl) ops s) = Some s' \<and>
    epoll_monitors interest s' = asked epoll_owner s'"
proof -
  have "ep.in_sync s" unfolding assms(1)
    by (rule ep.in_sync_empty) (simp_all add: epoll_inv_def epoll_monitors_def new_EPollPoller_def assms(2))
  from ep.chan_run_ok[OF this assms(3)] show ?thesis using ep.in_sync_asked by blast
qed

end

text \<open>The interest list as a map, with the errors \<open>EEXIST\<close> and \<open>ENOENT\<close> of \<open>epoll_ctl(2)\<close>.\<close>

fun interest_ctl :: "(int \<Rightarrow> (32 word \<times> chan_id) option) epoll_ctl" where
  "interest_ctl EPOLL_CTL_ADD f e k = (if k f = None then Some (k(f := Some e)) else None)"
| "interest_ctl EPOLL_CTL_MOD f e k = (if k f = None then None else Some (k(f := Some e)))"
| "interest_ctl EPOLL_CTL_DEL f e k = (if k f = None then None else Some (k(f := None)))"

interpretation linux: epoll_kernel interest_ctl "\<lambda>k. k"
  by unfold_locales (simp add: epoll_ctl_ok_def)

text \<open>
  C11. The same holds with \<open>EPollPoller\<close>, for every kernel whose \<open>epoll_ctl\<close> behaves as documented:
  no \<open>epoll_ctl\<close> of such a run fails, and the interest list is what the channels ask for.
\<close>

theorem epoll_in_step:
  assumes "epoll_ctl_ok ctl interest"
    and "s = \<lparr>chans = Map.empty, mux = new_EPollPoller k\<rparr>" and "interest k = Map.empty"
    and "fst (chan_run epoll_owner (epoll_updateChannel ctl) (epoll_removeChannel ctl) ops s)"
  shows "\<exists>s'. snd (chan_run epoll_owner (epoll_updateChannel ctl) (epoll_removeChannel ctl) ops s) = Some s' \<and>
    epoll_monitors interest s' = asked epoll_owner s'"
  using epoll_kernel.run_in_step[OF epoll_kernel.intro[OF assms(1)] assms(2-4)] .

lemmas epoll_defs = epoll_updateChannel_def epoll_removeChannel_def epoll_owner_def new_EPollPoller_def
  epoll_update_def epoll_set_index_def epoll_indices

theorem epoll_in_step_witness:
  "\<exists>s' :: (nat, int \<Rightarrow> (32 word \<times> chan_id) option) epoll_reactor. snd (chan_run epoll_owner
      (epoll_updateChannel interest_ctl) (epoll_removeChannel interest_ctl)
      [NewChannel 0 5, EnableReading 0, EnableWriting 0, DisableReading 0, DisableWriting 0, RemoveChannel 0]
      \<lparr>chans = Map.empty, mux = new_EPollPoller Map.empty\<rparr>) = Some s' \<and>
    epoll_monitors (\<lambda>k. k) s' = asked epoll_owner s'"
  by (rule epoll_in_step[OF linux.ctl_ok refl]) (simp_all add: chan_ops_defs epoll_defs Let_def)

text \<open>What \<open>fillActiveChannels\<close> does to the channels it reports.\<close>

definition set_revents :: "(int \<Rightarrow> 16 word) \<Rightarrow> chan_id set \<Rightarrow> (chan_id \<Rightarrow> 'cb channel option) \<Rightarrow> chan_id \<Rightarrow> 'cb channel option" where
  "set_revents r C cs c = (if c \<in> C then map_option (\<lambda>ch. ch\<lparr>revents := scast (r (fd ch))\<rparr>) (cs c) else cs c)"

lemma poll_fill_skip:
  assumes "pfd_revents p = 0" and "0 \<le> n"
  shows "poll_fill (p # pfds) n active s = poll_fill pfds n active s"
proof (cases "n = 0")
  case True
  then show ?thesis by (cases pfds) simp_all
next
  case False
  then show ?thesis using assms by simp
qed

definition reportable :: "(int \<Rightarrow> 16 word) \<Rightarrow> 'cb poll_reactor \<Rightarrow> pollfd \<Rightarrow> bool" where
  "reportable r s p \<longleftrightarrow> 0 < sint (pfd_revents p) \<and> pfd_revents p = r (pfd_fd p) \<and>
     (\<exists>c ch. poll_channels (mux s) (pfd_fd p) = Some c \<and> chans s c = Some ch \<and> fd ch = pfd_fd p)"

lemma poll_fill_ok:
  "\<forall>p\<in>set pfds. pfd_revents p \<noteq> 0 \<longrightarrow> reportable r s p \<Longrightarrow>
   poll_fill pfds (int (length (filter (\<lambda>p. pfd_revents p \<noteq> 0) pfds))) active s =
     (let cs = map (\<lambda>p. the (poll_channels (mux s) (pfd_fd p))) (filter (\<lambda>p. pfd_revents p \<noteq> 0) pfds)
      in Some (s\<lparr>chans := set_revents r (set cs) (chans s)\<rparr>, active @ cs))"
proof (induction pfds arbitrary: active s)
  case Nil
  have "set_revents r {} (chans s) = chans s" by (simp add: set_revents_def fun_eq_iff)
  then show ?case by simp
next
  case (Cons p pfds)
  show ?case
  proof (cases "pfd_revents p = 0")
    case True
    then have "filter (\<lambda>p. pfd_revents p \<noteq> 0) (p # pfds) = filter (\<lambda>p. pfd_revents p \<noteq> 0) pfds" by simp
    moreover have "\<forall>q\<in>set pfds. pfd_revents q \<noteq> 0 \<longrightarrow> reportable r s q" using Cons.prems by simp
    ultimately show ?thesis using Cons.IH by (simp only: poll_fill_skip[OF True] of_nat_0_le_iff)
  next
    case False
    then have "reportable r s p" using Cons.prems by simp
    then obtain c ch where c: "poll_channels (mux s) (pfd_fd p) = Some c" "chans s c = Some ch" "fd ch = pfd_fd p"
      and r: "0 < sint (pfd_revents p)" "pfd_revents p = r (pfd_fd p)" unfolding reportable_def by blast
    let ?ch = "ch\<lparr>revents := scast (pfd_revents p)\<rparr>"
    let ?s = "set_chan c ?ch s"
    have "reportable r ?s q" if "reportable r s q" for q
    proof -
      obtain d dh where d: "poll_channels (mux s) (pfd_fd q) = Some d" "chans s d = Some dh" "fd dh = pfd_fd q"
        and rq: "0 < sint (pfd_revents q)" "pfd_revents q = r (pfd_fd q)"
        using \<open>reportable r s q\<close> unfolding reportable_def by blast
      have "\<exists>dh. chans ?s d = Some dh \<and> fd dh = pfd_fd q" using c(2) d by (cases "d = c") simp_all
      then show ?thesis using rq d(1) unfolding reportable_def by simp
    qed
    then have "\<forall>q\<in>set pfds. pfd_revents q \<noteq> 0 \<longrightarrow> reportable r ?s q" using Cons.prems by simp
    note IH = Cons.IH[OF this, of "active @ [c]"]
    define cs where "cs = map (\<lambda>p. the (poll_channels (mux s) (pfd_fd p))) (filter (\<lambda>p. pfd_revents p \<noteq> 0) pfds)"
    have "poll_fill (p # pfds) (int (length (filter (\<lambda>p. pfd_revents p \<noteq> 0) (p # pfds)))) active s =
        poll_fill pfds (int (length (filter (\<lambda>p. pfd_revents p \<noteq> 0) pfds))) (active @ [c]) ?s"
      using False r(1) c by simp
    also have "\<dots> = Some (?s\<lparr>chans := set_revents r (set cs) (chans ?s)\<rparr>, (active @ [c]) @ cs)"
      unfolding IH by (simp add: Let_def cs_def)
    also have "set_revents r (set cs) (chans ?s) = set_revents r (set (c # cs)) (chans s)"
      unfolding set_revents_def fun_eq_iff using c(2,3) r(2) by simp
    finally show ?thesis using False c(1) by (simp add: Let_def cs_def)
  qed
qed

lemma kernel_poll_fds:
  "map pfd_fd (filter (\<lambda>p. pfd_revents p \<noteq> 0) (kernel_poll r xs)) = filter (\<lambda>f. 0 \<le> f \<and> r f \<noteq> 0) (map pfd_fd xs)"
  by (induction xs) (simp_all add: kernel_poll_def)

lemma poll_monitors_iff: "poll_monitors s f \<noteq> None \<longleftrightarrow> 0 \<le> f \<and> f \<in> set (map pfd_fd (pollfds (mux s)))"
proof -
  have "poll_monitors s f = None \<longleftrightarrow> f < 0 \<or> f \<notin> set (map pfd_fd (pollfds (mux s)))"
    by (simp add: poll_monitors_def map_of_eq_None_iff image_image)
  then show ?thesis by (metis not_le)
qed

lemma poll_distinct_fds:
  assumes "poll_inv s"
  shows "distinct (map pfd_fd (pollfds (mux s)))"
  unfolding distinct_conv_nth
proof (intro allI impI notI)
  fix i j
  assume "i < length (map pfd_fd (pollfds (mux s)))" "j < length (map pfd_fd (pollfds (mux s)))" "i \<noteq> j"
    "map pfd_fd (pollfds (mux s)) ! i = map pfd_fd (pollfds (mux s)) ! j"
  then have ij: "i < length (pollfds (mux s))" "j < length (pollfds (mux s))"
    "real_fd (pollfds (mux s) ! i) = real_fd (pollfds (mux s) ! j)" by (simp_all add: real_fd_def)
  obtain c where c: "poll_slot s i c" using assms ij(1) by (rule poll_slot_ex)
  obtain d where d: "poll_slot s j d" using assms ij(2) by (rule poll_slot_ex)
  show False using poll_slot_unique[OF c d] ij(3) \<open>i \<noteq> j\<close> by simp
qed

lemma poll_fd_owner:
  assumes "poll_inv s" and "0 \<le> f" and "f \<in> set (map pfd_fd (pollfds (mux s)))"
  shows "\<exists>c ch. poll_channels (mux s) f = Some c \<and> chans s c = Some ch \<and> fd ch = f"
proof -
  obtain i where i: "i < length (pollfds (mux s))" "real_fd (pollfds (mux s) ! i) = f"
    using assms(2,3) by (auto simp: in_set_conv_nth real_fd_def)
  obtain c where "poll_slot s i c" using assms(1) i(1) by (rule poll_slot_ex)
  then show ?thesis using i(2) unfolding poll_slot_def by blast
qed

lemma poll_owner_inj:
  "poll_inv s \<Longrightarrow> poll_channels (mux s) f = Some c \<Longrightarrow> poll_channels (mux s) g = Some c \<Longrightarrow> f = g"
  unfolding poll_inv_def by (metis option.inject)

text \<open>
  After \<open>poll\<close> has reported, \<open>PollPoller::poll\<close> returns every channel whose descriptor is
  watched and has events, once, with the events in \<open>revents_\<close>, and no other; nothing else of the
  channels changes.
\<close>

theorem poll_reports_active:
  assumes inv: "poll_inv s" and r: "\<And>f. r f = 0 \<or> 0 < sint (r f)"
  shows "\<exists>s' active. poll_poll (Some r) s = Some (s', active) \<and> distinct active \<and>
    set active = {c. \<exists>f. poll_owner s f = Some c \<and> poll_monitors s f \<noteq> None \<and> r f \<noteq> 0} \<and>
    chans s' = set_revents r (set active) (chans s)"
proof -
  let ?ys = "kernel_poll r (pollfds (mux s))"
  let ?s = "s\<lparr>mux := (mux s)\<lparr>pollfds := ?ys\<rparr>\<rparr>"
  define zs where "zs = filter (\<lambda>p. pfd_revents p \<noteq> 0) ?ys"
  define fs where "fs = filter (\<lambda>f. 0 \<le> f \<and> r f \<noteq> 0) (map pfd_fd (pollfds (mux s)))"
  have fs: "map pfd_fd zs = fs" unfolding zs_def fs_def by (rule kernel_poll_fds)
  have own: "\<exists>c ch. poll_channels (mux s) f = Some c \<and> chans s c = Some ch \<and> fd ch = f" if "f \<in> set fs" for f
    using that poll_fd_owner[OF inv, of f] unfolding fs_def by simp
  have mem: "f \<in> set fs \<longleftrightarrow> poll_monitors s f \<noteq> None \<and> r f \<noteq> 0" for f
    unfolding fs_def poll_monitors_iff by auto
  have pre: "\<forall>p\<in>set ?ys. pfd_revents p \<noteq> 0 \<longrightarrow> reportable r ?s p"
  proof (intro ballI impI)
    fix p assume p: "p \<in> set ?ys" "pfd_revents p \<noteq> 0"
    then have "pfd_revents p = r (pfd_fd p)" by (auto simp: kernel_poll_def split: if_splits)
    moreover have "pfd_fd p \<in> set fs" using p unfolding fs[symmetric] zs_def by simp
    ultimately show "reportable r ?s p"
      using own[of "pfd_fd p"] r[of "pfd_fd p"] p(2) unfolding reportable_def by simp
  qed
  define cs where "cs = map (\<lambda>f. the (poll_channels (mux s) f)) fs"
  have cs: "map (\<lambda>p. the (poll_channels (mux s) (pfd_fd p))) zs = cs"
    unfolding cs_def fs[symmetric] by simp
  have "set_revents r {} (chans s) = chans s" by (simp add: set_revents_def fun_eq_iff)
  then have "poll_poll (Some r) s = Some (?s\<lparr>chans := set_revents r (set cs) (chans s)\<rparr>, cs)"
    using poll_fill_ok[OF pre, of "[]"] cs
    by (cases "zs = []") (auto simp: poll_poll_def Let_def zs_def[symmetric])
  moreover have "distinct cs"
    unfolding cs_def distinct_map
  proof
    show "distinct fs" unfolding fs_def by (rule distinct_filter[OF poll_distinct_fds[OF inv]])
    show "inj_on (\<lambda>f. the (poll_channels (mux s) f)) (set fs)"
      by (rule inj_onI) (metis own option.sel poll_owner_inj[OF inv])
  qed
  moreover have "set cs = {c. \<exists>f. poll_owner s f = Some c \<and> poll_monitors s f \<noteq> None \<and> r f \<noteq> 0}"
    unfolding cs_def poll_owner_def set_map mem[symmetric] by (force simp: image_iff dest: own)
  ultimately show ?thesis by simp
qed

theorem poll_reports_active_witness:
  "\<exists>s' active. poll_poll (Some (\<lambda>f. if f = 5 then 1 else 0))
      \<lparr>chans = [3 \<mapsto> (new_Channel 5 :: nat channel)\<lparr>events := 3, index := 0\<rparr>],
       mux = \<lparr>poll_channels = [5 \<mapsto> 3], pollfds = [\<lparr>pfd_fd = 5, pfd_events = 3, pfd_revents = 0\<rparr>]\<rparr>\<rparr> = Some (s', active) \<and>
    set active = {3}"
proof -
  let ?s = "\<lparr>chans = [3 \<mapsto> (new_Channel 5 :: nat channel)\<lparr>events := 3, index := 0\<rparr>],
       mux = \<lparr>poll_channels = [5 \<mapsto> 3], pollfds = [\<lparr>pfd_fd = 5, pfd_events = 3, pfd_revents = 0\<rparr>]\<rparr>\<rparr>"
  have "poll_inv ?s" by (simp add: poll_inv_def poll_slot_def real_fd_def new_Channel_def)
  moreover have "(if f = 5 then 1 else 0 :: 16 word) = 0 \<or> 0 < sint (if f = 5 then 1 else 0 :: 16 word)" for f :: int
    by simp
  ultimately obtain s' active where p: "poll_poll (Some (\<lambda>f. if f = 5 then 1 else 0)) ?s = Some (s', active)"
    and a: "set active = {c. \<exists>f. poll_owner ?s f = Some c \<and> poll_monitors ?s f \<noteq> None \<and> (if f = 5 then 1 else 0 :: 16 word) \<noteq> 0}"
    using poll_reports_active[of ?s "\<lambda>f. if f = 5 then 1 else 0"] by blast
  have e: "{c. \<exists>f. poll_owner ?s f = Some c \<and> poll_monitors ?s f \<noteq> None \<and> (if f = 5 then 1 else 0 :: 16 word) \<noteq> 0} = {3}"
    by (auto simp: poll_owner_def poll_monitors_def split: if_splits)
  show ?thesis by (rule exI[of _ s'], rule exI[of _ active], rule conjI[OF p]) (simp only: a e)
qed

lemma epoll_fill_ok:
  "\<forall>e\<in>set es. \<exists>ch. chans s (snd e) = Some ch \<and> ep_channels (mux s) (fd ch) = Some (snd e) \<Longrightarrow>
   distinct (map snd es) \<Longrightarrow>
   \<exists>s'. epoll_fill es active s = Some (s', active @ map snd es) \<and> mux s' = mux s \<and>
     (\<forall>c. chans s' c = (case map_of (map prod.swap es) c of None \<Rightarrow> chans s c
        | Some ev \<Rightarrow> map_option (revents_update (\<lambda>_. ev)) (chans s c)))"
proof (induction es arbitrary: active s)
  case Nil
  then show ?case by simp
next
  case (Cons e es)
  obtain ch where ch: "chans s (snd e) = Some ch" "ep_channels (mux s) (fd ch) = Some (snd e)" using Cons.prems by auto
  let ?s = "set_chan (snd e) (ch\<lparr>revents := fst e\<rparr>) s"
  have "\<forall>x\<in>set es. \<exists>ch. chans ?s (snd x) = Some ch \<and> ep_channels (mux ?s) (fd ch) = Some (snd x)"
  proof
    fix x assume x: "x \<in> set es"
    then have "snd x \<noteq> snd e" using Cons.prems(2) by (auto simp: rev_image_eqI)
    then show "\<exists>ch. chans ?s (snd x) = Some ch \<and> ep_channels (mux ?s) (fd ch) = Some (snd x)"
      using Cons.prems(1) x by simp
  qed
  moreover have "distinct (map snd es)" using Cons.prems(2) by simp
  ultimately obtain s' where s': "epoll_fill es (active @ [snd e]) ?s = Some (s', (active @ [snd e]) @ map snd es)" "mux s' = mux ?s"
     "\<And>c. chans s' c = (case map_of (map prod.swap es) c of None \<Rightarrow> chans ?s c
        | Some ev \<Rightarrow> map_option (revents_update (\<lambda>_. ev)) (chans ?s c))" using Cons.IH[of ?s "active @ [snd e]"] by blast
  have "map_of (map prod.swap es) (snd e) = None"
    using Cons.prems(2) by (simp add: map_of_eq_None_iff image_image)
  then have "chans s' c = (case map_of (map prod.swap (e # es)) c of None \<Rightarrow> chans s c
        | Some ev \<Rightarrow> map_option (revents_update (\<lambda>_. ev)) (chans s c))" for c
    using s'(3)[of c] ch(1) by (cases e, cases "c = snd e") (auto split: option.split)
  then show ?case using s'(1,2) ch by simp
qed

text \<open>
  \<open>EPollPoller::poll\<close> returns the channels that \<open>epoll_wait\<close> reports, in its order, each with the
  events reported for it in \<open>revents_\<close>; no assertion fails, since the kernel reports only channels
  of its interest list, and the array grows when it was full.
\<close>

theorem epoll_reports_active:
  assumes inv: "epoll_inv interest s" and "es \<noteq> []" and "length es \<le> ep_events (mux s)"
    and rep: "\<And>ev c. (ev, c) \<in> set es \<Longrightarrow> \<exists>f ev'. interest (epollfd (mux s)) f = Some (ev', c)" and dist: "distinct (map snd es)"
  shows "\<exists>s'. epoll_poll (Some es) s = Some (s', map snd es) \<and> epoll_inv interest s' \<and>
    (\<forall>ev c. (ev, c) \<in> set es \<longrightarrow> (\<exists>ch. chans s c = Some ch \<and> chans s' c = Some (ch\<lparr>revents := ev\<rparr>))) \<and>
    (\<forall>c. c \<notin> set (map snd es) \<longrightarrow> chans s' c = chans s c) \<and>
    ep_events (mux s') = (if length es = ep_events (mux s) then 2 * ep_events (mux s) else ep_events (mux s))"
proof -
  have reg: "\<forall>e\<in>set es. \<exists>ch. chans s (snd e) = Some ch \<and> ep_channels (mux s) (fd ch) = Some (snd e)"
  proof
    fix e assume "e \<in> set es"
    then obtain f ev' where f: "interest (epollfd (mux s)) f = Some (ev', snd e)" using rep[of "fst e" "snd e"] by auto
    then obtain c where c: "ep_channels (mux s) f = Some c" using inv by (fastforce simp: epoll_inv_def)
    then have "epoll_entry interest s f c" using inv by (simp add: epoll_inv_def)
    then show "\<exists>ch. chans s (snd e) = Some ch \<and> ep_channels (mux s) (fd ch) = Some (snd e)"
      using f c by (auto simp: epoll_entry_def)
  qed
  obtain s' where s': "epoll_fill es [] s = Some (s', map snd es)" "mux s' = mux s"
     "\<And>c. chans s' c = (case map_of (map prod.swap es) c of None \<Rightarrow> chans s c
        | Some ev \<Rightarrow> map_option (revents_update (\<lambda>_. ev)) (chans s c))"
    using epoll_fill_ok[OF reg dist, of "[]"] by auto
  define t where "t = (if length es = ep_events (mux s) then s'\<lparr>mux := (mux s')\<lparr>ep_events := ep_events (mux s') * 2\<rparr>\<rparr> else s')"
  have t: "chans t = chans s'" "ep_channels (mux t) = ep_channels (mux s)" "epollfd (mux t) = epollfd (mux s)"
    "ep_events (mux t) = (if length es = ep_events (mux s) then 2 * ep_events (mux s) else ep_events (mux s))"
    using s'(2) by (auto simp: t_def)
  have poll: "epoll_poll (Some es) s = Some (t, map snd es)"
    using assms(2,3) s'(1) by (simp add: epoll_poll_def t_def)
  have swap: "distinct (map fst (map prod.swap es))" using dist by (simp add: comp_def)
  have in_es: "\<exists>ch. chans s c = Some ch \<and> chans s' c = Some (ch\<lparr>revents := ev\<rparr>)" if e: "(ev, c) \<in> set es" for ev c
  proof -
    have "map_of (map prod.swap es) c = Some ev" using swap e by (intro map_of_is_SomeI) force+
    then show ?thesis using s'(3)[of c] reg e by force
  qed
  have out_es: "chans s' c = chans s c" if "c \<notin> set (map snd es)" for c
  proof -
    have "map_of (map prod.swap es) c = None" using that by (simp add: map_of_eq_None_iff image_image)
    then show ?thesis using s'(3)[of c] by simp
  qed
  have "epoll_entry interest t f c" if ent: "epoll_entry interest s f c" for f c
  proof (cases "c \<in> set (map snd es)")
    case True
    then obtain ev where "(ev, c) \<in> set es" by auto
    then show ?thesis using ent in_es[of ev c] t by (auto simp: epoll_entry_def)
  next
    case False
    then show ?thesis using ent out_es[OF False] t by (auto simp: epoll_entry_def)
  qed
  then have "epoll_inv interest t" using inv t by (simp add: epoll_inv_def)
  then show ?thesis using poll in_es out_es t by (intro exI[of _ t]) auto
qed

theorem epoll_reports_active_witness:
  "\<exists>s'. epoll_poll (Some [(1, 3)])
      \<lparr>chans = [3 \<mapsto> (new_Channel 5 :: nat channel)\<lparr>events := 3, index := kAdded\<rparr>],
       mux = \<lparr>ep_channels = [5 \<mapsto> 3], epollfd = [5 \<mapsto> (3, 3)] :: int \<Rightarrow> (32 word \<times> chan_id) option, ep_events = 1\<rparr>\<rparr> = Some (s', [3]) \<and> ep_events (mux s') = 2"
proof -
  let ?s = "\<lparr>chans = [3 \<mapsto> (new_Channel 5 :: nat channel)\<lparr>events := 3, index := kAdded\<rparr>],
       mux = \<lparr>ep_channels = [5 \<mapsto> 3], epollfd = [5 \<mapsto> (3, 3)] :: int \<Rightarrow> (32 word \<times> chan_id) option, ep_events = 1\<rparr>\<rparr>"
  have "epoll_inv (\<lambda>k. k) ?s" by (simp add: epoll_inv_def epoll_entry_def new_Channel_def)
  moreover have "\<exists>f ev'. epollfd (mux ?s) f = Some (ev', 3)" by (rule exI[of _ 5]) simp
  ultimately show ?thesis using epoll_reports_active[of "\<lambda>k. k" ?s "[(1, 3)]"] by auto
qed

text \<open>
  Outside the rules the pollers do not keep in step.  Disabling a channel that has already
  disabled everything adds it to the epoll set again: the kernel then watches, for hangups and
  errors, a descriptor whose channel asks for nothing.
\<close>

theorem epoll_disable_twice:
  assumes "epoll_ctl_ok ctl interest" and "epoll_inv interest s" and "chans s c = Some ch"
    and "ep_channels (mux s) (fd ch) = Some c" and "events ch = 0" and "interest (epollfd (mux s)) (fd ch) = None"
  shows "\<exists>s'. disableAll (epoll_updateChannel ctl) c s = Some s' \<and> asked epoll_owner s' (fd ch) = None \<and>
    epoll_monitors interest s' (fd ch) = Some 0"
proof -
  let ?ch = "ch\<lparr>events := 0, addedToLoop := True\<rparr>"
  have "epoll_entry interest s (fd ch) c" using assms(2,4) by (simp add: epoll_inv_def)
  then have idx: "index ch = kDeleted" using assms(3,6) by (auto simp: epoll_entry_def)
  have "epoll_inv interest (set_chan c ?ch s)" using epoll_inv_update[OF assms(2,3), of ?ch] by simp
  from epoll_kernel.epoll_add[OF epoll_kernel.intro[OF assms(1)] this, of c ?ch] idx assms(4)
  obtain k where "epoll_updateChannel ctl c (set_chan c ?ch s) = Some (s\<lparr>chans := (chans s)(c := Some (?ch\<lparr>index := kAdded\<rparr>)),
      mux := (mux s)\<lparr>ep_channels := (ep_channels (mux s))(fd ch := Some c), epollfd := k\<rparr>\<rparr>)"
      "interest k = (interest (epollfd (mux s)))(fd ch := Some (0, c))" by auto
  then show ?thesis
    using assms(3) by (simp add: disableAll_def change_events_def Channel_update_def kNoneEvent_def
        asked_def epoll_owner_def interest_of_def epoll_monitors_def)
qed

theorem epoll_disable_twice_witness:
  "\<exists>s'. disableAll (epoll_updateChannel interest_ctl) 3
      \<lparr>chans = [3 \<mapsto> (new_Channel 5 :: nat channel)\<lparr>index := kDeleted\<rparr>],
       mux = \<lparr>ep_channels = [5 \<mapsto> 3], epollfd = Map.empty, ep_events = 1\<rparr>\<rparr> = Some s' \<and>
    epoll_monitors (\<lambda>k. k) s' 5 = Some 0"
proof -
  let ?s = "\<lparr>chans = [3 \<mapsto> (new_Channel 5 :: nat channel)\<lparr>index := kDeleted\<rparr>],
       mux = \<lparr>ep_channels = [5 \<mapsto> 3], epollfd = Map.empty :: int \<Rightarrow> (32 word \<times> chan_id) option, ep_events = 1\<rparr>\<rparr>"
  have "epoll_inv (\<lambda>k. k) ?s" by (simp add: epoll_inv_def epoll_entry_def new_Channel_def)
  from epoll_disable_twice[OF linux.ctl_ok this, of 3] show ?thesis by (auto simp: new_Channel_def)
qed

text \<open>
  A channel that disables everything before it has ever enabled anything, as the channel of an
  acceptor does that is destroyed before it listens, cannot be removed from \<open>PollPoller\<close>, whose
  assertion fails; with \<open>EPollPoller\<close> it can.
\<close>

theorem remove_never_enabled:
  assumes "poll_inv s" and "chans s c = Some ch" and "poll_owner s (fd ch) = None" and "index ch = -1" and "0 \<le> fd ch"
    and "epoll_ctl_ok ctl interest" and "epoll_inv interest t" and "chans t c = Some ch" and "epoll_owner t (fd ch) = None"
  shows "(\<exists>s'. disableAll poll_updateChannel c s = Some s' \<and> Channel_remove poll_removeChannel c s' = None) \<and>
    (\<exists>t' t''. disableAll (epoll_updateChannel ctl) c t = Some t' \<and> Channel_remove (epoll_removeChannel ctl) c t' = Some t'')"
proof
  show "\<exists>s'. disableAll poll_updateChannel c s = Some s' \<and> Channel_remove poll_removeChannel c s' = None"
    using assms(2-5) by (simp add: disableAll_def change_events_def Channel_update_def kNoneEvent_def poll_updateChannel_def
        poll_owner_def Let_def Channel_remove_def poll_removeChannel_def nth_append)
next
  let ?ch = "ch\<lparr>events := 0, addedToLoop := True\<rparr>"
  have "epoll_inv interest (set_chan c ?ch t)" using epoll_inv_update[OF assms(7,8), of ?ch] by simp
  from epoll_kernel.epoll_add[OF epoll_kernel.intro[OF assms(6)] this, of c ?ch] assms(4,9)
  obtain k where upd: "epoll_updateChannel ctl c (set_chan c ?ch t) = Some (t\<lparr>chans := (chans t)(c := Some (?ch\<lparr>index := kAdded\<rparr>)),
      mux := (mux t)\<lparr>ep_channels := (ep_channels (mux t))(fd ch := Some c), epollfd := k\<rparr>\<rparr>)"
      and k: "interest k = (interest (epollfd (mux t)))(fd ch := Some (0, c))"
    by (auto simp: epoll_owner_def kNew_def)
  have "interest k (fd ch) = Some (0, c)" using k by simp
  then obtain k' where "ctl EPOLL_CTL_DEL (fd ch) (0, c) k = Some k'"
    by (rule epoll_kernel.ctl_del[OF epoll_kernel.intro[OF assms(6)]])
  then show "\<exists>t' t''. disableAll (epoll_updateChannel ctl) c t = Some t' \<and> Channel_remove (epoll_removeChannel ctl) c t' = Some t''"
    using assms(8) upd by (simp add: disableAll_def change_events_def Channel_update_def kNoneEvent_def Channel_remove_def
        isNoneEvent_def epoll_removeChannel_def epoll_update_def epoll_set_index_def Let_def)
qed

theorem remove_never_enabled_witness:
  "(\<exists>s'. disableAll poll_updateChannel 3 \<lparr>chans = [3 \<mapsto> (new_Channel 5 :: nat channel)], mux = new_PollPoller\<rparr> = Some s' \<and>
      Channel_remove poll_removeChannel 3 s' = None) \<and>
   (\<exists>t' t''. disableAll (epoll_updateChannel interest_ctl) 3
      \<lparr>chans = [3 \<mapsto> (new_Channel 5 :: nat channel)], mux = new_EPollPoller Map.empty\<rparr> = Some t' \<and>
      Channel_remove (epoll_removeChannel interest_ctl) 3 t' = Some t'')"
  by (rule remove_never_enabled[where ch = "new_Channel 5", OF _ _ _ _ _ linux.ctl_ok])
    (simp_all add: poll_inv_def poll_slot_def new_PollPoller_def poll_owner_def new_Channel_def epoll_inv_def
      new_EPollPoller_def epoll_owner_def)

end
