(* ===== verification/Event_Loop.thy ===== *)
theory Event_Loop
  imports Timer_Queue "HOL-Library.Sublist"
begin

text \<open>
  The event loop (\<open>muduo/net/EventLoop.h\<close>, \<open>EventLoop.cc\<close>): the loop of its own thread, the queue
  of functors other threads hand to it, and the \<open>eventfd\<close> that wakes it up.  The loop is a step
  relation, one step per action that other threads can observe, so that their calls come between
  any two of them.  \<open>pc\<close> is where the loop's thread is; \<open>wakers\<close> counts the other threads that
  are inside \<open>queueInLoop\<close> or \<open>quit\<close>, past the first half and before \<open>wakeup\<close>.  \<open>queued\<close> and \<open>ran\<close>
  record, for the statements, which functors were queued and run.  What a functor or an event
  handler does to its loop is the argument \<open>beh\<close>, the list of the calls it makes.
\<close>

datatype 'f loop_call = QueueInLoop 'f | RunInLoop 'f | Quit

text \<open>A channel that \<open>poll\<close> found active: the loop's own, or one with a user's handler.\<close>

datatype 'f active = WakeupChannel | UserChannel "'f loop_call list"

text \<open>The loop's thread: the calls left of the current callback, and the channels or functors left.\<close>

datatype 'f pc = Outside | LoopTest | InPoll
  | Handling "'f loop_call list" "'f active list"
  | Functors "'f loop_call list" "'f list"

record 'f eloop =
  looping :: bool
  quit :: bool
  eventHandling :: bool
  callingPendingFunctors :: bool
  iteration :: int
  wakeupFd :: nat
  pendingFunctors :: "'f list"
  pc :: "'f pc"
  wakers :: nat
  early :: bool
  queued :: "'f list"
  ran :: "'f list"

definition new_EventLoop :: "'f eloop" where
  "new_EventLoop =
     \<lparr>looping = False, quit = False, eventHandling = False, callingPendingFunctors = False, iteration = 0,
      wakeupFd = 0, pendingFunctors = [], pc = Outside, wakers = 0, early = False, queued = [], ran = []\<rparr>"

section \<open>Operations\<close>

text \<open>The counter of an \<open>eventfd\<close> cannot exceed \<open>2 ^ 64 - 2\<close>; a write that would is an error.\<close>

definition wakeup :: "'f eloop \<Rightarrow> 'f eloop" where
  "wakeup s = (if wakeupFd s + 1 \<le> 2 ^ 64 - 2 then s\<lparr>wakeupFd := wakeupFd s + 1\<rparr> else s)"

definition el_handleRead :: "'f eloop \<Rightarrow> 'f eloop" where
  "el_handleRead s = s\<lparr>wakeupFd := 0\<rparr>"

text \<open>\<open>queueInLoop\<close>: the part under the mutex, and the rest.\<close>

definition queueInLoop_push :: "'f \<Rightarrow> 'f eloop \<Rightarrow> 'f eloop" where
  "queueInLoop_push cb s = s\<lparr>pendingFunctors := pendingFunctors s @ [cb], queued := queued s @ [cb]\<rparr>"

definition queueInLoop_wake :: "bool \<Rightarrow> 'f eloop \<Rightarrow> 'f eloop" where
  "queueInLoop_wake isInLoopThread s =
     (if \<not> isInLoopThread \<or> callingPendingFunctors s then wakeup s else s)"

definition queueInLoop :: "'f \<Rightarrow> 'f eloop \<Rightarrow> 'f eloop" where
  "queueInLoop cb s = queueInLoop_wake True (queueInLoop_push cb s)"

text \<open>\<open>quit\<close> in the loop's thread, and its first half in another.\<close>

definition quit_set :: "'f eloop \<Rightarrow> 'f eloop" where
  "quit_set s = s\<lparr>quit := True\<rparr>"

text \<open>
  One call that a callback in the loop's thread makes; \<open>runInLoop\<close> runs its argument in place, so
  the calls of the argument come first.
\<close>

fun exec_call :: "('f \<Rightarrow> 'f loop_call list) \<Rightarrow> 'f loop_call \<Rightarrow> 'f eloop \<Rightarrow> 'f loop_call list \<times> 'f eloop" where
  "exec_call beh (QueueInLoop cb) s = ([], queueInLoop cb s)"
| "exec_call beh (RunInLoop cb) s = (beh cb, s)"
| "exec_call beh Quit s = ([], quit_set s)"

text \<open>Entering \<open>loop\<close>, its test, and its parts.\<close>

definition loop_enter :: "'f eloop \<Rightarrow> 'f eloop option" where
  "loop_enter s = do {
     assert_that (\<not> looping s);
     Some (s\<lparr>looping := True, quit := False, pc := LoopTest\<rparr>)
   }"

definition loop_test :: "'f eloop \<Rightarrow> 'f eloop" where
  "loop_test s = (if \<not> quit s then s\<lparr>pc := InPoll\<rparr> else s\<lparr>looping := False, pc := Outside\<rparr>)"

definition loop_poll_returns :: "'f active list \<Rightarrow> 'f eloop \<Rightarrow> 'f eloop" where
  "loop_poll_returns activeChannels s =
     s\<lparr>iteration := iteration s + 1, eventHandling := True, pc := Handling [] activeChannels\<rparr>"

fun loop_handle :: "'f active \<Rightarrow> 'f active list \<Rightarrow> 'f eloop \<Rightarrow> 'f eloop" where
  "loop_handle WakeupChannel rest s = (el_handleRead s)\<lparr>pc := Handling [] rest\<rparr>"
| "loop_handle (UserChannel calls) rest s = s\<lparr>pc := Handling calls rest\<rparr>"

text \<open>The end of the event handling and the first half of \<open>doPendingFunctors\<close>, which swaps the queue out.\<close>

definition doPendingFunctors_swap :: "'f eloop \<Rightarrow> 'f eloop" where
  "doPendingFunctors_swap s =
     s\<lparr>eventHandling := False, callingPendingFunctors := True, pc := Functors [] (pendingFunctors s),
       pendingFunctors := [], early := False\<rparr>"

definition doPendingFunctors_run :: "('f \<Rightarrow> 'f loop_call list) \<Rightarrow> 'f \<Rightarrow> 'f list \<Rightarrow> 'f eloop \<Rightarrow> 'f eloop" where
  "doPendingFunctors_run beh f rest s = s\<lparr>pc := Functors (beh f) rest, ran := ran s @ [f]\<rparr>"

definition doPendingFunctors_end :: "'f eloop \<Rightarrow> 'f eloop" where
  "doPendingFunctors_end s = s\<lparr>callingPendingFunctors := False, pc := LoopTest\<rparr>"

section \<open>The step relation\<close>

text \<open>
  \<open>poll\<close> returns when the loop's own channel is readable, when a user's channel has events, or
  after its timeout; it reports the loop's channel only when there is something to read.
\<close>

inductive el_step :: "('f \<Rightarrow> 'f loop_call list) \<Rightarrow> 'f eloop \<Rightarrow> 'f eloop \<Rightarrow> bool" for beh where
  outside_call: "pc s = Outside \<Longrightarrow> el_step beh s ((queueInLoop cb s)\<lparr>early := True\<rparr>)"
| enter: "pc s = Outside \<Longrightarrow> loop_enter s = Some s' \<Longrightarrow> el_step beh s s'"
| test: "pc s = LoopTest \<Longrightarrow> el_step beh s (loop_test s)"
| poll: "pc s = InPoll \<Longrightarrow> WakeupChannel \<in> set act \<longrightarrow> 0 < wakeupFd s \<Longrightarrow> el_step beh s (loop_poll_returns act s)"
| handle: "pc s = Handling [] (c # rest) \<Longrightarrow> el_step beh s (loop_handle c rest s)"
| handler_call: "pc s = Handling (c # calls) rest \<Longrightarrow> exec_call beh c s = (inner, s') \<Longrightarrow>
    el_step beh s (s'\<lparr>pc := Handling (inner @ calls) rest\<rparr>)"
| swap: "pc s = Handling [] [] \<Longrightarrow> el_step beh s (doPendingFunctors_swap s)"
| run: "pc s = Functors [] (f # rest) \<Longrightarrow> el_step beh s (doPendingFunctors_run beh f rest s)"
| functor_call: "pc s = Functors (c # calls) rest \<Longrightarrow> exec_call beh c s = (inner, s') \<Longrightarrow>
    el_step beh s (s'\<lparr>pc := Functors (inner @ calls) rest\<rparr>)"
| finish: "pc s = Functors [] [] \<Longrightarrow> el_step beh s (doPendingFunctors_end s)"
| other_queue: "el_step beh s ((queueInLoop_push cb s)\<lparr>wakers := wakers s + 1\<rparr>)"
| other_quit: "el_step beh s ((quit_set s)\<lparr>wakers := wakers s + 1\<rparr>)"
| other_wakeup: "0 < wakers s \<Longrightarrow> el_step beh s ((wakeup s)\<lparr>wakers := wakers s - 1\<rparr>)"

section \<open>Timers\<close>

definition runAt ::
    "((addr \<Rightarrow> 'cb timer option) \<Rightarrow> addr) \<Rightarrow> timestamp \<Rightarrow> 'cb \<Rightarrow> 'cb tqueue \<Rightarrow> (timer_id \<times> 'cb tqueue) option" where
  "runAt alloc time cb s = addTimer alloc s cb time 0"

definition runAfter ::
    "((addr \<Rightarrow> 'cb timer option) \<Rightarrow> addr) \<Rightarrow> rat \<Rightarrow> 'cb \<Rightarrow> 'cb tqueue \<Rightarrow> (timer_id \<times> 'cb tqueue) option" where
  "runAfter alloc delay cb s = runAt alloc (addTime (clock s) delay) cb s"

definition runEvery ::
    "((addr \<Rightarrow> 'cb timer option) \<Rightarrow> addr) \<Rightarrow> rat \<Rightarrow> 'cb \<Rightarrow> 'cb tqueue \<Rightarrow> (timer_id \<times> 'cb tqueue) option" where
  "runEvery alloc ivl cb s = addTimer alloc s cb (addTime (clock s) ivl) ivl"

section \<open>Invariant\<close>

fun in_flight :: "'f pc \<Rightarrow> 'f list" where
  "in_flight (Functors calls fs) = fs"
| "in_flight _ = []"

fun is_Handling :: "'f pc \<Rightarrow> bool" where
  "is_Handling (Handling calls act) = True"
| "is_Handling _ = False"

fun is_Functors :: "'f pc \<Rightarrow> bool" where
  "is_Functors (Functors calls fs) = True"
| "is_Functors _ = False"

definition will_wake :: "'f eloop \<Rightarrow> bool" where
  "will_wake s \<longleftrightarrow> 0 < wakeupFd s \<or> 0 < wakers s"

definition el_inv :: "'f eloop \<Rightarrow> bool" where
  "el_inv s \<longleftrightarrow>
     queued s = ran s @ in_flight (pc s) @ pendingFunctors s \<and>
     (looping s \<longleftrightarrow> pc s \<noteq> Outside) \<and>
     (eventHandling s \<longleftrightarrow> is_Handling (pc s)) \<and>
     (callingPendingFunctors s \<longleftrightarrow> is_Functors (pc s)) \<and>
     (\<not> is_Handling (pc s) \<and> pendingFunctors s \<noteq> [] \<longrightarrow> will_wake s \<or> early s) \<and>
     (pc s = InPoll \<and> quit s \<longrightarrow> will_wake s)"

lemma wakeup_simps [simp]:
  "queued (wakeup s) = queued s" "ran (wakeup s) = ran s" "pc (wakeup s) = pc s"
  "pendingFunctors (wakeup s) = pendingFunctors s" "looping (wakeup s) = looping s" "quit (wakeup s) = quit s"
  "eventHandling (wakeup s) = eventHandling s" "callingPendingFunctors (wakeup s) = callingPendingFunctors s"
  "early (wakeup s) = early s" "wakers (wakeup s) = wakers s" "0 < wakeupFd (wakeup s)" "wakeupFd (wakeup s) \<noteq> 0"
  "iteration (wakeup s) = iteration s"
  by (simp_all add: wakeup_def)

lemma exec_call_inv:
  assumes inv: "el_inv s" and call: "exec_call beh c s = (inner, s')"
    and pc: "is_Handling (pc s) \<or> is_Functors (pc s)"
    and p: "is_Handling p = is_Handling (pc s)" "is_Functors p = is_Functors (pc s)" "in_flight p = in_flight (pc s)"
  shows "el_inv (s'\<lparr>pc := p\<rparr>)"
proof -
  have p': "p \<noteq> Outside" "p \<noteq> InPoll" using pc p by (cases p; auto)+
  have pc': "pc s \<noteq> Outside" using pc by (cases "pc s") auto
  show ?thesis
  proof (cases c)
    case (QueueInLoop f)
    then have s': "s' = (if callingPendingFunctors s then wakeup (queueInLoop_push f s) else queueInLoop_push f s)"
      using call by (auto simp: queueInLoop_def queueInLoop_wake_def queueInLoop_push_def)
    show ?thesis
    proof (cases "is_Functors (pc s)")
      case True
      then show ?thesis
        using inv p p' pc' by (simp add: s' el_inv_def will_wake_def queueInLoop_push_def)
    next
      case False
      then show ?thesis
        using inv p p' pc' pc by (simp add: s' el_inv_def will_wake_def queueInLoop_push_def)
    qed
  next
    case (RunInLoop f)
    then show ?thesis using inv call p p' pc' by (simp add: el_inv_def will_wake_def)
  next
    case Quit
    then have "s' = quit_set s" using call by simp
    then show ?thesis using inv p p' pc' by (simp add: el_inv_def will_wake_def quit_set_def)
  qed
qed

lemma el_step_inv: "el_step beh s s' \<Longrightarrow> el_inv s \<Longrightarrow> el_inv s'"
proof (induction rule: el_step.induct)
  case (handle s c rest)
  then show ?case by (cases c) (auto simp: el_inv_def el_handleRead_def will_wake_def)
next
  case (handler_call s c calls rest inner s')
  then show ?case by (intro exec_call_inv) auto
next
  case (functor_call s c calls rest inner s')
  then show ?case by (intro exec_call_inv) auto
qed (auto simp: el_inv_def will_wake_def queueInLoop_def queueInLoop_wake_def queueInLoop_push_def quit_set_def
    loop_enter_def loop_test_def loop_poll_returns_def doPendingFunctors_swap_def doPendingFunctors_run_def
    doPendingFunctors_end_def)

lemma el_inv_new: "el_inv new_EventLoop"
  by (simp add: el_inv_def new_EventLoop_def)

lemma el_steps_inv: "(el_step beh)\<^sup>*\<^sup>* new_EventLoop s \<Longrightarrow> el_inv s"
  by (induction rule: rtranclp_induct) (auto intro: el_inv_new el_step_inv)

section \<open>Running what is queued\<close>

lemma steps3: "R a b \<Longrightarrow> R b c \<Longrightarrow> R c d \<Longrightarrow> R\<^sup>*\<^sup>* a d"
  by (rule converse_rtranclp_into_rtranclp, assumption, rule converse_rtranclp_into_rtranclp, assumption) blast

text \<open>The calls of a callback that does not nest \<open>runInLoop\<close>, one after another.\<close>

definition flat :: "'f loop_call list \<Rightarrow> bool" where
  "flat calls \<longleftrightarrow> (\<forall>c\<in>set calls. \<forall>f. c \<noteq> RunInLoop f)"

lemma functor_calls_run:
  "flat calls \<Longrightarrow> pc s = Functors calls rest \<Longrightarrow>
   \<exists>s'. (el_step beh)\<^sup>*\<^sup>* s s' \<and> pc s' = Functors [] rest \<and> ran s' = ran s"
proof (induction calls arbitrary: s)
  case Nil
  then show ?case by blast
next
  case (Cons c calls)
  obtain s1 where c: "exec_call beh c s = ([], s1)" and ran: "ran s1 = ran s"
    using Cons.prems(1) by (cases c) (auto simp: flat_def queueInLoop_def queueInLoop_wake_def queueInLoop_push_def quit_set_def)
  let ?s = "s1\<lparr>pc := Functors calls rest\<rparr>"
  have "el_step beh s ?s" using el_step.functor_call[OF Cons.prems(2) c] by simp
  moreover obtain s' where "(el_step beh)\<^sup>*\<^sup>* ?s s'" "pc s' = Functors [] rest" "ran s' = ran ?s"
    using Cons.IH[of ?s] Cons.prems(1) by (auto simp: flat_def)
  ultimately have "(el_step beh)\<^sup>*\<^sup>* s s' \<and> pc s' = Functors [] rest \<and> ran s' = ran s"
    using ran converse_rtranclp_into_rtranclp[of "el_step beh" s ?s s'] by simp
  then show ?case by blast
qed

lemma functors_run:
  assumes flat: "\<And>f. flat (beh f)"
  shows "pc s = Functors [] fs \<Longrightarrow>
    \<exists>s'. (el_step beh)\<^sup>*\<^sup>* s s' \<and> pc s' = Functors [] [] \<and> ran s' = ran s @ fs"
proof (induction fs arbitrary: s)
  case Nil
  then show ?case by auto
next
  case (Cons f fs)
  let ?s = "doPendingFunctors_run beh f fs s"
  have step: "el_step beh s ?s" using Cons.prems by (rule el_step.run)
  have pc: "pc ?s = Functors (beh f) fs" "ran ?s = ran s @ [f]" by (simp_all add: doPendingFunctors_run_def)
  obtain s1 where s1: "(el_step beh)\<^sup>*\<^sup>* ?s s1" "pc s1 = Functors [] fs" "ran s1 = ran ?s"
    using functor_calls_run[OF flat pc(1)] by blast
  obtain s2 where s2: "(el_step beh)\<^sup>*\<^sup>* s1 s2" "pc s2 = Functors [] []" "ran s2 = ran s1 @ fs"
    using Cons.IH[OF s1(2)] by blast
  have "(el_step beh)\<^sup>*\<^sup>* s s2"
    using step rtranclp_trans[OF s1(1) s2(1)] by (rule converse_rtranclp_into_rtranclp)
  with s2 s1(3) pc(2) show ?case by auto
qed

section \<open>Properties\<close>

text \<open>
  C4. Functors run in the order in which they were queued, each exactly once, whichever threads
  queue them and whatever the running ones queue meanwhile: what has been queued is what has run,
  followed by what was swapped out and still has to run, followed by the queue.
\<close>

theorem eventloop_fifo:
  assumes "(el_step beh)\<^sup>*\<^sup>* new_EventLoop s"
  shows "queued s = ran s @ in_flight (pc s) @ pendingFunctors s"
  using el_steps_inv[OF assms] by (simp add: el_inv_def)

lemma example_loop: "(el_step (\<lambda>f :: nat. [])) new_EventLoop ((queueInLoop_push 7 new_EventLoop)\<lparr>wakers := 1\<rparr>)"
  using el_step.other_queue[of "\<lambda>f. []" new_EventLoop 7] by (simp add: new_EventLoop_def)

theorem eventloop_fifo_witness:
  "queued ((queueInLoop_push (7 :: nat) new_EventLoop)\<lparr>wakers := 1\<rparr>) = [7] \<and>
   pendingFunctors ((queueInLoop_push (7 :: nat) new_EventLoop)\<lparr>wakers := 1\<rparr>) = [7]"
  using eventloop_fifo[OF r_into_rtranclp[of "el_step (\<lambda>f :: nat. [])", OF example_loop]]
  by (simp add: queueInLoop_push_def new_EventLoop_def)





end
