(* ===== verification/Event_Loop_Thread.thy ===== *)
theory Event_Loop_Thread
  imports Event_Loop
begin

text \<open>
  A thread that runs an event loop (\<open>muduo/net/EventLoopThread.h\<close>, \<open>EventLoopThread.cc\<close>): the thread itself,
  the thread that calls \<open>startLoop\<close>, and the thread that destroys the object.  \<open>elt_loop\<close> is the
  \<open>EventLoop\<close> on the stack of \<open>threadFunc\<close>, \<open>None\<close> before its construction and after its destruction;
  \<open>loop_ptr\<close> tells whether the member \<open>loop_\<close> points to it.
\<close>

datatype thread_pc = Unstarted | Constructing | Callback | Entering | InLoop | Leaving | Ended

datatype starter_pc = NotCalled | Testing | WaitingCond | Returning | Returned bool

datatype dtor_pc = Living | Checking | Quitting | Waking | Joining | Gone

record 'f elt =
  loop_ptr :: bool
  exiting :: bool
  elt_loop :: "'f eloop option"
  thr :: thread_pc
  starter :: starter_pc
  dtor :: dtor_pc

definition new_EventLoopThread :: "'f elt" where
  "new_EventLoopThread = \<lparr>loop_ptr = False, exiting = False, elt_loop = None, thr = Unstarted, starter = NotCalled, dtor = Living\<rparr>"

section \<open>Starting\<close>

text \<open>\<open>startLoop\<close>: starting the thread, the test under the mutex, and the second reading of \<open>loop_\<close>.\<close>

definition startLoop_start :: "'f elt \<Rightarrow> 'f elt option" where
  "startLoop_start s = do {
     assert_that (thr s = Unstarted);
     Some (s\<lparr>thr := Constructing, starter := Testing\<rparr>)
   }"

definition startLoop_test :: "'f elt \<Rightarrow> 'f elt" where
  "startLoop_test s = s\<lparr>starter := (if loop_ptr s then Returning else WaitingCond)\<rparr>"

definition startLoop_return :: "'f elt \<Rightarrow> 'f elt" where
  "startLoop_return s = s\<lparr>starter := Returned (loop_ptr s)\<rparr>"

section \<open>The thread\<close>

definition threadFunc_construct :: "'f elt \<Rightarrow> 'f elt" where
  "threadFunc_construct s = s\<lparr>elt_loop := Some new_EventLoop, thr := Callback\<rparr>"

definition threadFunc_publish :: "'f elt \<Rightarrow> 'f elt" where
  "threadFunc_publish s =
     s\<lparr>loop_ptr := True, starter := (if starter s = WaitingCond then Testing else starter s), thr := Entering\<rparr>"

definition threadFunc_loop :: "'f elt \<Rightarrow> 'f elt option" where
  "threadFunc_loop s = do {
     l \<leftarrow> elt_loop s;
     l' \<leftarrow> loop_enter l;
     Some (s\<lparr>elt_loop := Some l', thr := InLoop\<rparr>)
   }"

definition threadFunc_leave :: "'f elt \<Rightarrow> 'f elt" where
  "threadFunc_leave s = s\<lparr>loop_ptr := False, thr := Leaving\<rparr>"

definition threadFunc_end :: "'f elt \<Rightarrow> 'f elt" where
  "threadFunc_end s = s\<lparr>elt_loop := None, thr := Ended\<rparr>"

section \<open>The destructor\<close>

definition dtor_begin :: "'f elt \<Rightarrow> 'f elt" where
  "dtor_begin s = s\<lparr>exiting := True, dtor := Checking\<rparr>"

definition dtor_check :: "'f elt \<Rightarrow> 'f elt" where
  "dtor_check s = s\<lparr>dtor := (if loop_ptr s then Quitting else Gone)\<rparr>"

text \<open>\<open>loop_->quit()\<close> in two halves: setting the flag, and waking the loop.\<close>

definition dtor_quit :: "'f elt \<Rightarrow> 'f elt option" where
  "dtor_quit s = do { l \<leftarrow> elt_loop s; Some (s\<lparr>elt_loop := Some (quit_set l), dtor := Waking\<rparr>) }"

definition dtor_wake :: "'f elt \<Rightarrow> 'f elt option" where
  "dtor_wake s = do { l \<leftarrow> elt_loop s; Some (s\<lparr>elt_loop := Some (wakeup l), dtor := Joining\<rparr>) }"

definition dtor_joined :: "'f elt \<Rightarrow> 'f elt" where
  "dtor_joined s = s\<lparr>dtor := Gone\<rparr>"

section \<open>All steps\<close>

text \<open>
  What the loop does while it runs, and what other threads do to it, are steps of \<open>Event_Loop\<close>.  Here
  nobody but the destructor tells the loop to quit, so these steps do not set the flag; entering \<open>loop\<close> is
  a step of \<open>threadFunc\<close>.
\<close>

definition loop_step :: "('f \<Rightarrow> 'f loop_call list) \<Rightarrow> 'f eloop \<Rightarrow> 'f eloop \<Rightarrow> bool" where
  "loop_step beh l l' \<longleftrightarrow> el_step beh l l' \<and> (pc l = Outside \<longrightarrow> pc l' = Outside) \<and> (quit l' \<longrightarrow> quit l)"

inductive elt_step :: "('f \<Rightarrow> 'f loop_call list) \<Rightarrow> 'f elt \<Rightarrow> 'f elt option \<Rightarrow> bool" for beh where
  s_start: "starter s = NotCalled \<Longrightarrow> dtor s = Living \<Longrightarrow> elt_step beh s (startLoop_start s)"
| s_test: "starter s = Testing \<Longrightarrow> elt_step beh s (Some (startLoop_test s))"
| s_spurious: "starter s = WaitingCond \<Longrightarrow> elt_step beh s (Some (s\<lparr>starter := Testing\<rparr>))"
| s_return: "starter s = Returning \<Longrightarrow> elt_step beh s (Some (startLoop_return s))"
| t_construct: "thr s = Constructing \<Longrightarrow> elt_step beh s (Some (threadFunc_construct s))"
| t_publish: "thr s = Callback \<Longrightarrow> elt_step beh s (Some (threadFunc_publish s))"
| t_enter: "thr s = Entering \<Longrightarrow> elt_step beh s (threadFunc_loop s)"
| t_leave: "thr s = InLoop \<Longrightarrow> elt_loop s = Some l \<Longrightarrow> pc l = Outside \<Longrightarrow> elt_step beh s (Some (threadFunc_leave s))"
| t_end: "thr s = Leaving \<Longrightarrow> elt_step beh s (Some (threadFunc_end s))"
| l_step: "elt_loop s = Some l \<Longrightarrow> loop_step beh l l' \<Longrightarrow> elt_step beh s (Some (s\<lparr>elt_loop := Some l'\<rparr>))"
| d_begin: "dtor s = Living \<Longrightarrow> starter s = NotCalled \<or> starter s = Returned r \<Longrightarrow> elt_step beh s (Some (dtor_begin s))"
| d_check: "dtor s = Checking \<Longrightarrow> elt_step beh s (Some (dtor_check s))"
| d_quit: "dtor s = Quitting \<Longrightarrow> elt_step beh s (dtor_quit s)"
| d_wake: "dtor s = Waking \<Longrightarrow> elt_step beh s (dtor_wake s)"
| d_join: "dtor s = Joining \<Longrightarrow> thr s = Ended \<Longrightarrow> elt_step beh s (Some (dtor_joined s))"

inductive elt_reach :: "('f \<Rightarrow> 'f loop_call list) \<Rightarrow> 'f elt \<Rightarrow> bool" for beh where
  elt_init: "elt_reach beh new_EventLoopThread"
| elt_next: "elt_reach beh s \<Longrightarrow> elt_step beh s (Some s') \<Longrightarrow> elt_reach beh s'"

section \<open>The invariant\<close>

text \<open>When \<open>poll\<close> waits although the loop is to quit, somebody is about to wake it.\<close>

definition quit_wakes :: "bool \<Rightarrow> 'f eloop \<Rightarrow> bool" where
  "quit_wakes w l \<longleftrightarrow> (pc l = InPoll \<and> quit l \<longrightarrow> will_wake l \<or> w)"

definition loop_ok :: "bool \<Rightarrow> bool \<Rightarrow> 'f eloop \<Rightarrow> bool" where
  "loop_ok told w l \<longleftrightarrow> (quit l \<longrightarrow> told) \<and> quit_wakes w l \<and> (looping l \<longleftrightarrow> pc l \<noteq> Outside)"

fun elt_ok :: "thread_pc \<Rightarrow> bool \<Rightarrow> 'f eloop option \<Rightarrow> starter_pc \<Rightarrow> dtor_pc \<Rightarrow> bool" where
  "elt_ok Unstarted p l st d \<longleftrightarrow> \<not> p \<and> l = None \<and> st = NotCalled \<and> d \<in> {Living, Checking, Gone}"
| "elt_ok Constructing p l st d \<longleftrightarrow> \<not> p \<and> l = None \<and> st \<in> {Testing, WaitingCond} \<and> d = Living"
| "elt_ok Callback p l st d \<longleftrightarrow> \<not> p \<and> st \<in> {Testing, WaitingCond} \<and> d = Living \<and>
     (\<exists>l'. l = Some l' \<and> pc l' = Outside \<and> loop_ok False False l')"
| "elt_ok Entering p l st d \<longleftrightarrow> p \<and> (if d = Living then st \<in> {Testing, Returning, Returned True} else st = Returned True) \<and> d \<noteq> Gone \<and>
     (\<exists>l'. l = Some l' \<and> pc l' = Outside \<and> loop_ok (d \<in> {Waking, Joining}) (d = Waking) l')"
| "elt_ok InLoop p l st d \<longleftrightarrow> p \<and> (if d = Living then st \<in> {Testing, Returning, Returned True} else st = Returned True) \<and> d \<noteq> Gone \<and>
     (\<exists>l'. l = Some l' \<and> (pc l' = Outside \<longrightarrow> quit l') \<and> loop_ok (d \<in> {Waking, Joining}) (d = Waking) l')"
| "elt_ok Leaving p l st d \<longleftrightarrow> \<not> p \<and> l \<noteq> None \<and> st = Returned True \<and> d \<in> {Waking, Joining}"
| "elt_ok Ended p l st d \<longleftrightarrow> \<not> p \<and> l = None \<and> st = Returned True \<and> d \<in> {Waking, Joining, Gone}"

definition elt_inv :: "'f elt \<Rightarrow> bool" where
  "elt_inv s \<longleftrightarrow> elt_ok (thr s) (loop_ptr s) (elt_loop s) (starter s) (dtor s)"

lemmas loop_defs = queueInLoop_def queueInLoop_wake_def queueInLoop_push_def quit_set_def loop_enter_def loop_test_def
  loop_poll_returns_def doPendingFunctors_swap_def doPendingFunctors_run_def doPendingFunctors_end_def el_handleRead_def

lemma exec_call_fields:
  assumes "exec_call beh c s = (inner, s')"
  shows "looping s' = looping s"
  using assms by (cases c) (auto simp: loop_defs split: if_splits)

lemma el_step_looping: "el_step beh l l' \<Longrightarrow> (looping l \<longleftrightarrow> pc l \<noteq> Outside) \<Longrightarrow> (looping l' \<longleftrightarrow> pc l' \<noteq> Outside)"
proof (induction rule: el_step.induct)
  case (handle s c rest)
  then show ?case by (cases c) (simp_all add: loop_defs)
next
  case (handler_call s c calls rest inner s')
  then show ?case using exec_call_fields[OF handler_call(2)] by simp
next
  case (functor_call s c calls rest inner s')
  then show ?case using exec_call_fields[OF functor_call(2)] by simp
qed (auto simp: loop_defs)

lemma exec_call_in_poll: "quit_wakes w (s\<lparr>pc := Handling c r\<rparr>)" "quit_wakes w (s\<lparr>pc := Functors c f\<rparr>)"
  by (simp_all add: quit_wakes_def)

lemma el_step_quit_wakes:
  assumes "el_step beh l l'" and w: "quit_wakes w l" and q: "quit l' \<longrightarrow> quit l"
  shows "quit_wakes w l'"
  using assms(1)
proof cases
  case (outside_call cb)
  then show ?thesis by (simp add: quit_wakes_def loop_defs)
next
  case enter
  then show ?thesis by (auto simp: quit_wakes_def loop_enter_def)
next
  case test
  then show ?thesis by (simp add: quit_wakes_def loop_test_def)
next
  case (handle c rest)
  then show ?thesis by (cases c) (simp_all add: quit_wakes_def)
next
  case (other_queue cb)
  then show ?thesis by (simp add: quit_wakes_def will_wake_def)
next
  case other_quit
  then show ?thesis by (simp add: quit_wakes_def will_wake_def)
next
  case other_wakeup
  then show ?thesis by (simp add: quit_wakes_def will_wake_def)
qed (simp_all add: exec_call_in_poll quit_wakes_def loop_poll_returns_def doPendingFunctors_swap_def
    doPendingFunctors_run_def doPendingFunctors_end_def)

lemma el_step_leaves: "el_step beh l l' \<Longrightarrow> pc l' = Outside \<Longrightarrow> pc l = Outside \<or> quit l'"
proof (induction rule: el_step.induct)
  case (handle s c rest)
  then show ?case by (cases c) (simp_all add: loop_defs)
qed (auto simp: loop_defs split: if_splits)

lemma el_step_outside: "el_step beh l l' \<Longrightarrow> pc l = Outside \<Longrightarrow> pc l' = Outside \<Longrightarrow> quit l \<Longrightarrow> quit l'"
proof (induction rule: el_step.induct)
  case (handle s c rest)
  then show ?case by (cases c) (simp_all add: loop_defs)
qed (auto simp: loop_defs)

lemma loop_step_ok:
  assumes "loop_step beh l l'" and "loop_ok told w l"
  shows "loop_ok told w l'" "pc l = Outside \<Longrightarrow> pc l' = Outside \<and> quit l' = quit l"
    "pc l' = Outside \<Longrightarrow> pc l = Outside \<or> quit l'"
proof -
  have e: "el_step beh l l'" and o: "pc l = Outside \<longrightarrow> pc l' = Outside" and q: "quit l' \<longrightarrow> quit l"
    using assms(1) by (auto simp: loop_step_def)
  show "loop_ok told w l'"
    using el_step_looping[OF e] el_step_quit_wakes[OF e _ q] q assms(2) by (auto simp: loop_ok_def)
  show "pc l = Outside \<Longrightarrow> pc l' = Outside \<and> quit l' = quit l"
    using el_step_outside[OF e] o q by blast
  show "pc l' = Outside \<Longrightarrow> pc l = Outside \<or> quit l'" using el_step_leaves[OF e] by blast
qed

lemma loop_ok_wakeup: "loop_ok told w l \<Longrightarrow> loop_ok told w' (wakeup l)"
  by (auto simp: loop_ok_def quit_wakes_def will_wake_def)

lemma loop_ok_quit: "loop_ok told w l \<Longrightarrow> loop_ok True True (quit_set l)"
  by (auto simp: loop_ok_def quit_wakes_def quit_set_def)

lemma quit_set_simps [simp]: "pc (quit_set l) = pc l" "quit (quit_set l)"
  by (simp_all add: quit_set_def)

lemma loop_ok_new: "loop_ok told w new_EventLoop" "pc new_EventLoop = Outside"
  by (simp_all add: loop_ok_def quit_wakes_def new_EventLoop_def)

lemma loop_ok_enter:
  assumes "pc l = Outside" and "loop_ok told w l"
  shows "\<exists>l'. loop_enter l = Some l' \<and> pc l' = LoopTest \<and> \<not> quit l' \<and> loop_ok told w' l'"
  using assms by (simp add: loop_enter_def loop_ok_def quit_wakes_def)

lemmas elt_defs = startLoop_start_def startLoop_test_def startLoop_return_def threadFunc_construct_def
  threadFunc_publish_def threadFunc_loop_def threadFunc_leave_def threadFunc_end_def dtor_begin_def dtor_check_def
  dtor_quit_def dtor_wake_def dtor_joined_def

lemma elt_inv_new: "elt_inv new_EventLoopThread"
  by (simp add: elt_inv_def new_EventLoopThread_def)

lemma elt_inv_loop_step:
  assumes inv: "elt_inv s" and l: "elt_loop s = Some l" and st: "loop_step beh l l'"
  shows "elt_inv (s\<lparr>elt_loop := Some l'\<rparr>)"
proof (cases "thr s")
  case InLoop
  with inv l loop_step_ok[OF st, of "dtor s \<in> {Waking, Joining}" "dtor s = Waking"] show ?thesis
    by (auto simp: elt_inv_def)
qed (use inv l loop_step_ok[OF st] in \<open>auto simp: elt_inv_def\<close>)

lemma elt_inv_step:
  assumes "elt_step beh s r" and inv: "elt_inv s" and r: "r = Some s'"
  shows "elt_inv s'"
  using assms(1)
proof cases
  case s_start
  then show ?thesis using inv r by (cases "thr s") (auto simp: elt_inv_def elt_defs)
next
  case (l_step l l')
  then show ?thesis using elt_inv_loop_step[OF inv] r by simp
next
  case t_construct
  then show ?thesis using inv r by (auto simp: elt_inv_def elt_defs loop_ok_new)
next
  case t_enter
  then obtain l where l: "elt_loop s = Some l" "pc l = Outside" "loop_ok (dtor s \<in> {Waking, Joining}) (dtor s = Waking) l"
    using inv by (auto simp: elt_inv_def)
  with loop_ok_enter[OF l(2,3), of "dtor s = Waking"] show ?thesis
    using inv r t_enter by (auto simp: elt_inv_def elt_defs)
next
  case d_quit
  then show ?thesis using inv r by (cases "thr s") (auto simp: elt_inv_def elt_defs loop_ok_quit)
next
  case d_wake
  then show ?thesis using inv r by (cases "thr s") (auto simp: elt_inv_def elt_defs loop_ok_wakeup)
qed (use inv r in \<open>cases "thr s"; auto simp: elt_inv_def elt_defs loop_ok_def split: if_splits\<close>)+

lemma elt_reach_inv: "elt_reach beh s \<Longrightarrow> elt_inv s"
  by (induction rule: elt_reach.induct) (auto intro: elt_inv_new elt_inv_step)

text \<open>The only step that can fail is the second half of \<open>quit\<close>, when the thread has already ended.\<close>

lemma elt_step_fails:
  assumes "elt_step beh s None" and inv: "elt_inv s"
  shows "dtor s = Waking \<and> thr s = Ended"
  using assms(1)
proof cases
  case s_start
  then show ?thesis using inv by (cases "thr s") (auto simp: elt_inv_def elt_defs split: if_splits)
next
  case t_enter
  then obtain l where l: "elt_loop s = Some l" "pc l = Outside" "loop_ok (dtor s \<in> {Waking, Joining}) (dtor s = Waking) l"
    using inv by (auto simp: elt_inv_def)
  with loop_ok_enter[OF l(2,3), of True] show ?thesis using t_enter by (auto simp: elt_defs)
next
  case d_quit
  then show ?thesis using inv by (cases "thr s") (auto simp: elt_inv_def elt_defs)
next
  case d_wake
  then show ?thesis using inv by (cases "thr s") (auto simp: elt_inv_def elt_defs)
qed

section \<open>Two races of the destructor\<close>

lemma elt_nextI: "elt_reach beh s \<Longrightarrow> elt_step beh s r \<Longrightarrow> r = Some s' \<Longrightarrow> elt_reach beh s'"
  by (blast intro: elt_reach.intros)

text \<open>The loop is published and \<open>startLoop\<close> has returned, but the thread has not entered \<open>loop\<close> yet.\<close>

definition published :: "dtor_pc \<Rightarrow> 'f elt" where
  "published d = \<lparr>loop_ptr = True, exiting = (d \<noteq> Living), elt_loop = Some new_EventLoop, thr = Entering,
     starter = Returned True, dtor = d\<rparr>"

lemma published_reach: "elt_reach beh (published Living)"
proof -
  let ?s = "new_EventLoopThread :: 'a elt"
  let ?s1 = "?s\<lparr>thr := Constructing, starter := Testing\<rparr>"
  have "elt_reach beh ?s1"
    by (rule elt_nextI[OF elt_init elt_step.s_start]) (simp_all add: new_EventLoopThread_def elt_defs)
  then have "elt_reach beh (threadFunc_construct ?s1)"
    by (rule elt_nextI[OF _ elt_step.t_construct]) simp_all
  then have "elt_reach beh (threadFunc_publish (threadFunc_construct ?s1))"
    by (rule elt_nextI[OF _ elt_step.t_publish]) (simp_all add: elt_defs)
  then have "elt_reach beh (startLoop_test (threadFunc_publish (threadFunc_construct ?s1)))"
    by (rule elt_nextI[OF _ elt_step.s_test]) (simp_all add: elt_defs)
  then have "elt_reach beh (startLoop_return (startLoop_test (threadFunc_publish (threadFunc_construct ?s1))))"
    by (rule elt_nextI[OF _ elt_step.s_return]) (simp_all add: elt_defs)
  moreover have "startLoop_return (startLoop_test (threadFunc_publish (threadFunc_construct ?s1))) = published Living"
    by (simp add: published_def new_EventLoopThread_def elt_defs)
  ultimately show ?thesis by simp
qed

lemma published_quitting: "elt_reach beh (published Quitting)"
proof -
  let ?s = "published Living :: 'a elt"
  have "elt_reach beh (dtor_begin ?s)"
    by (rule elt_nextI[OF published_reach elt_step.d_begin]) (simp_all add: published_def)
  then have "elt_reach beh (dtor_check (dtor_begin ?s))"
    by (rule elt_nextI[OF _ elt_step.d_check]) (simp_all add: elt_defs)
  moreover have "dtor_check (dtor_begin ?s) = published Quitting"
    by (simp add: published_def elt_defs)
  ultimately show ?thesis by simp
qed

text \<open>The flag that \<open>quit\<close> sets before \<open>loop\<close> is entered is cleared by \<open>loop\<close>.\<close>

definition stuck :: "'f elt \<Rightarrow> bool" where
  "stuck s \<longleftrightarrow> dtor s = Joining \<and> thr s = InLoop \<and> starter s = Returned True \<and>
     (\<exists>l. elt_loop s = Some l \<and> \<not> quit l \<and> pc l \<noteq> Outside)"

lemma stuck_step: "elt_step beh s (Some s') \<Longrightarrow> stuck s \<Longrightarrow> stuck s'"
  by (erule elt_step.cases) (auto simp: stuck_def loop_step_def dest: el_step_leaves)

lemma stuck_steps: "(\<lambda>a b. elt_step beh a (Some b))\<^sup>*\<^sup>* s s' \<Longrightarrow> stuck s \<Longrightarrow> stuck s'"
  by (induction rule: rtranclp_induct) (auto intro: stuck_step)

lemma stuck_reach: "\<exists>s. elt_reach beh s \<and> stuck s"
proof -
  let ?s = "published Quitting :: 'a elt"
  let ?l = "wakeup (quit_set new_EventLoop) :: 'a eloop"
  let ?l' = "?l\<lparr>looping := True, quit := False, pc := LoopTest\<rparr>"
  have "elt_reach beh (?s\<lparr>elt_loop := Some (quit_set new_EventLoop), dtor := Waking\<rparr>)"
    by (rule elt_nextI[OF published_quitting elt_step.d_quit]) (simp_all add: published_def elt_defs)
  then have "elt_reach beh (?s\<lparr>elt_loop := Some ?l, dtor := Joining\<rparr>)"
    by (rule elt_nextI[OF _ elt_step.d_wake]) (simp_all add: published_def elt_defs)
  then have "elt_reach beh (?s\<lparr>elt_loop := Some ?l', dtor := Joining, thr := InLoop\<rparr>)"
    by (rule elt_nextI[OF _ elt_step.t_enter])
      (simp_all add: published_def elt_defs loop_enter_def quit_set_def new_EventLoop_def)
  moreover have "stuck (?s\<lparr>elt_loop := Some ?l', dtor := Joining, thr := InLoop\<rparr>)"
    by (simp add: stuck_def published_def)
  ultimately show ?thesis by blast
qed

text \<open>The thread sees the flag and ends between the two halves of \<open>quit\<close>.\<close>

lemma freed_reach: "\<exists>s. elt_reach beh s \<and> dtor s = Waking \<and> dtor_wake s = None"
proof -
  let ?s = "published Quitting :: 'a elt"
  let ?l = "new_EventLoop\<lparr>looping := True, quit := False, pc := LoopTest\<rparr> :: 'a eloop"
  let ?q = "quit_set ?l"
  have "elt_reach beh (?s\<lparr>elt_loop := Some ?l, thr := InLoop\<rparr>)"
    by (rule elt_nextI[OF published_quitting elt_step.t_enter])
      (simp_all add: published_def elt_defs loop_enter_def new_EventLoop_def)
  then have "elt_reach beh (?s\<lparr>elt_loop := Some ?q, thr := InLoop, dtor := Waking\<rparr>)"
    by (rule elt_nextI[OF _ elt_step.d_quit]) (simp_all add: published_def elt_defs)
  then have "elt_reach beh (?s\<lparr>elt_loop := Some (loop_test ?q), thr := InLoop, dtor := Waking\<rparr>)"
    by (rule elt_nextI[OF _ elt_step.l_step])
      (auto simp: loop_step_def loop_test_def quit_set_def intro!: el_step.test)
  then have "elt_reach beh (threadFunc_leave (?s\<lparr>elt_loop := Some (loop_test ?q), thr := InLoop, dtor := Waking\<rparr>))"
    by (rule elt_nextI[OF _ elt_step.t_leave[where l = "loop_test ?q"]]) (simp_all add: loop_test_def quit_set_def)
  then have "elt_reach beh (threadFunc_end (threadFunc_leave (?s\<lparr>elt_loop := Some (loop_test ?q), thr := InLoop, dtor := Waking\<rparr>)))"
    by (rule elt_nextI[OF _ elt_step.t_end]) (simp_all add: elt_defs)
  moreover have "dtor_wake (threadFunc_end t) = None" for t :: "'a elt" by (simp add: elt_defs)
  moreover have "dtor (threadFunc_end (threadFunc_leave (?s\<lparr>elt_loop := x, thr := InLoop, dtor := Waking\<rparr>))) = Waking" for x
    by (simp add: elt_defs)
  ultimately show ?thesis by blast
qed



text \<open>
  C39.  Both races that the comments of the destructor and of \<open>EventLoop::loop\<close> mention are real.  When the
  destructor runs after \<open>startLoop\<close> has returned but before the thread enters \<open>loop\<close>, \<open>loop\<close> clears the flag
  and the destructor waits in \<open>join\<close> for ever.  When the thread sees the flag at once, the destructor
  calls \<open>wakeup\<close> on a loop that is gone.
\<close>

theorem event_loop_thread_races:
  "(\<exists>s. elt_reach beh s \<and> dtor s = Joining \<and>
      (\<forall>s'. (\<lambda>a b. elt_step beh a (Some b))\<^sup>*\<^sup>* s s' \<longrightarrow> dtor s' = Joining \<and> thr s' \<noteq> Ended)) \<and>
   (\<exists>s. elt_reach beh s \<and> dtor s = Waking \<and> dtor_wake s = None)"
proof -
  obtain s where s: "elt_reach beh s" "stuck s" using stuck_reach by blast
  then have "\<forall>s'. (\<lambda>a b. elt_step beh a (Some b))\<^sup>*\<^sup>* s s' \<longrightarrow> dtor s' = Joining \<and> thr s' \<noteq> Ended"
    using stuck_steps unfolding stuck_def by fastforce
  moreover have "dtor s = Joining" using s(2) by (simp add: stuck_def)
  ultimately show ?thesis using s(1) freed_reach by blast
qed

theorem event_loop_thread_races_witness:
  "\<exists>s :: nat elt. elt_reach (\<lambda>f. []) s \<and> dtor s = Joining \<and> thr s \<noteq> Ended"
  using event_loop_thread_races[of "\<lambda>f :: nat. []"] by blast

end
