(* ===== verification/Tcp_Connection.thy ===== *)
theory Tcp_Connection
  imports Net_Buffer Net_Channel
begin

text \<open>
  One TCP connection (\<open>muduo/net/TcpConnection.h\<close>, \<open>TcpConnection.cc\<close>), as its loop's thread runs
  it.  The state has the connection's members, its channel, and \<open>functors\<close>, what has been queued
  for it with \<open>queueInLoop\<close> and \<open>runInLoop\<close>, in the order of the loop's queue (\<open>Event_Loop\<close>).  The
  kernel's answers to \<open>write\<close> and \<open>readv\<close> are inputs; the user's callbacks are functions on the state
  (\<open>user\<close>), of which only that they make legal calls on the connection is assumed.  \<open>wire\<close> is what
  the kernel has taken from the connection, \<open>shutdownWrite\<close> whether the write side of the socket is
  shut, and \<open>active\<close> whether the loop holds the channel among those it is about to handle.  For the
  statements, \<open>accepted\<close> records the bytes that \<open>sendInLoop\<close> has taken on and \<open>events_log\<close> the
  callbacks the user has seen.  \<open>None\<close> is a failed assertion.
\<close>

unbundle bit_operations_syntax

section \<open>State\<close>

datatype stateE = kDisconnected | kConnecting | kConnected | kDisconnecting

datatype tcp_cb = CbRead | CbWrite | CbClose | CbError

text \<open>\<open>write\<close>: the number of bytes taken, or \<open>errno\<close>, for the number of bytes it is given.\<close>

datatype write_result = Wrote nat | WriteErr int

type_synonym kernel_write = "nat \<Rightarrow> write_result"

definition EWOULDBLOCK :: int where "EWOULDBLOCK = 11"
definition EPIPE :: int where "EPIPE = 32"
definition ECONNRESET :: int where "ECONNRESET = 104"

datatype functor_tcp = SendF "byte list" | ShutdownF | ForceCloseF | StartReadF | StopReadF
  | WriteCompleteF | HighWaterMarkF nat | ConnectDestroyedF

text \<open>What the user is told: the connection is up, is down, a message has arrived, it is closed.\<close>

datatype tcp_event = Up | Down | Message timestamp | Closed | WriteComplete | HighWaterMark nat

record tcp =
  state :: stateE
  reading :: bool
  chan :: "tcp_cb channel"
  inputBuffer :: buffer
  outputBuffer :: buffer
  highWaterMark :: nat
  writeCompleteCallback :: bool
  highWaterMarkCallback :: bool
  functors :: "functor_tcp list"
  delayed :: nat
  shutdownWrite :: bool
  wire :: "byte list"
  active :: bool
  accepted :: "byte list"
  events_log :: "tcp_event list"

text \<open>The calls a user makes on a connection, with the kernel's answer where they write.\<close>

datatype tcp_call = Send "byte list" kernel_write | Shutdown | ForceClose | ForceCloseWithDelay
  | StartRead | StopRead | Consume nat

text \<open>The user's callbacks.\<close>

record user =
  connectionCb :: "tcp \<Rightarrow> tcp option"
  messageCb :: "timestamp \<Rightarrow> tcp \<Rightarrow> tcp option"
  writeCompleteCb :: "tcp \<Rightarrow> tcp option"
  highWaterMarkCb :: "nat \<Rightarrow> tcp \<Rightarrow> tcp option"

definition new_TcpConnection :: "int \<Rightarrow> bool \<Rightarrow> bool \<Rightarrow> tcp option" where
  "new_TcpConnection sockfd wc hw = do {
     ib \<leftarrow> new_Buffer kInitialSize;
     ob \<leftarrow> new_Buffer kInitialSize;
     Some \<lparr>state = kConnecting, reading = True,
           chan = (new_Channel sockfd)\<lparr>readCallback := Some CbRead, writeCallback := Some CbWrite,
                     closeCallback := Some CbClose, errorCallback := Some CbError\<rparr>,
           inputBuffer = ib, outputBuffer = ob, highWaterMark = 64 * 1024 * 1024,
           writeCompleteCallback = wc, highWaterMarkCallback = hw, functors = [], delayed = 0,
           shutdownWrite = False, wire = [], active = False, accepted = [], events_log = []\<rparr>
   }"

definition delete_TcpConnection :: "tcp \<Rightarrow> unit option" where
  "delete_TcpConnection s = assert_that (state s = kDisconnected)"

fun stateToString :: "stateE \<Rightarrow> string" where
  "stateToString kDisconnected = ''kDisconnected''"
| "stateToString kConnecting = ''kConnecting''"
| "stateToString kConnected = ''kConnected''"
| "stateToString kDisconnecting = ''kDisconnecting''"

section \<open>Channel and queue\<close>

text \<open>
  The channel's operations, as far as the connection sees them; what they do to the poller is the
  subject of \<open>Pollers\<close>.
\<close>

definition set_events :: "(32 word \<Rightarrow> 32 word) \<Rightarrow> tcp \<Rightarrow> tcp" where
  "set_events f s = s\<lparr>chan := (chan s)\<lparr>events := f (events (chan s)), addedToLoop := True\<rparr>\<rparr>"

abbreviation tcp_enableReading where "tcp_enableReading \<equiv> set_events (\<lambda>ev. ev OR kReadEvent)"
abbreviation tcp_disableReading where "tcp_disableReading \<equiv> set_events (\<lambda>ev. ev AND NOT kReadEvent)"
abbreviation tcp_enableWriting where "tcp_enableWriting \<equiv> set_events (\<lambda>ev. ev OR kWriteEvent)"
abbreviation tcp_disableWriting where "tcp_disableWriting \<equiv> set_events (\<lambda>ev. ev AND NOT kWriteEvent)"
abbreviation tcp_disableAll where "tcp_disableAll \<equiv> set_events (\<lambda>_. kNoneEvent)"

definition tcp_remove :: "tcp \<Rightarrow> tcp option" where
  "tcp_remove s = do {
     assert_that (isNoneEvent (chan s));
     assert_that (addedToLoop (chan s));
     Some (s\<lparr>chan := (chan s)\<lparr>addedToLoop := False\<rparr>\<rparr>)
   }"

definition queue :: "functor_tcp \<Rightarrow> tcp \<Rightarrow> tcp" where
  "queue f s = s\<lparr>functors := functors s @ [f]\<rparr>"

definition log_event :: "tcp_event \<Rightarrow> tcp \<Rightarrow> tcp" where
  "log_event e s = s\<lparr>events_log := events_log s @ [e]\<rparr>"

section \<open>Sending\<close>

text \<open>What is left of a message goes to the output buffer.\<close>

definition sendInLoop_queue :: "byte list \<Rightarrow> nat \<Rightarrow> tcp \<Rightarrow> tcp option" where
  "sendInLoop_queue rest remaining s = do {
     let oldLen = readableBytes (outputBuffer s);
     let s1 = (if highWaterMark s \<le> uadd oldLen remaining \<and> oldLen < highWaterMark s \<and> highWaterMarkCallback s
               then queue (HighWaterMarkF (uadd oldLen remaining)) s else s);
     ob \<leftarrow> append (outputBuffer s1) rest remaining;
     let s2 = s1\<lparr>outputBuffer := ob\<rparr>;
     Some (if \<not> isWriting (chan s2) then tcp_enableWriting s2 else s2)
   }"

definition sendInLoop :: "byte list \<Rightarrow> kernel_write \<Rightarrow> tcp \<Rightarrow> tcp option" where
  "sendInLoop data w s =
     (if state s = kDisconnected then Some s else do {
        let len = length data;
        let (nwrote, remaining, faultError, s1) =
          (if \<not> isWriting (chan s) \<and> readableBytes (outputBuffer s) = 0 then
             (case w len of
                Wrote n \<Rightarrow>
                  (let remaining = usub len n
                   in (n, remaining, False,
                       if remaining = 0 \<and> writeCompleteCallback s then queue WriteCompleteF s else s))
              | WriteErr e \<Rightarrow> (0, len, e \<noteq> EWOULDBLOCK \<and> (e = EPIPE \<or> e = ECONNRESET), s))
           else (0, len, False, s));
        assert_that (remaining \<le> len);
        let s2 = s1\<lparr>wire := wire s1 @ take nwrote data,
                    accepted := accepted s1 @ (if faultError then [] else data)\<rparr>;
        if \<not> faultError \<and> 0 < remaining then sendInLoop_queue (drop nwrote data) remaining s2
        else Some s2
      })"

text \<open>\<open>send\<close> in the loop's thread and in another.\<close>

definition send :: "byte list \<Rightarrow> kernel_write \<Rightarrow> tcp \<Rightarrow> tcp option" where
  "send message w s = (if state s = kConnected then sendInLoop message w s else Some s)"

definition send_other :: "byte list \<Rightarrow> tcp \<Rightarrow> tcp" where
  "send_other message s = (if state s = kConnected then queue (SendF message) s else s)"

text \<open>\<open>send(Buffer*)\<close> in the loop's thread, which also empties the user's buffer.\<close>

definition send_buffer :: "buffer \<Rightarrow> kernel_write \<Rightarrow> tcp \<Rightarrow> (buffer \<times> tcp) option" where
  "send_buffer b w s =
     (if state s = kConnected then do {
        data \<leftarrow> peek_bytes b (readableBytes b);
        s' \<leftarrow> sendInLoop data w s;
        Some (retrieveAll b, s')
      } else Some (b, s))"

definition send_buffer_other :: "buffer \<Rightarrow> tcp \<Rightarrow> (buffer \<times> tcp) option" where
  "send_buffer_other b s =
     (if state s = kConnected then do {
        (data, b') \<leftarrow> retrieveAllAsString b;
        Some (b', queue (SendF data) s)
      } else Some (b, s))"

section \<open>Shutting down and closing\<close>

definition shutdownInLoop :: "tcp \<Rightarrow> tcp" where
  "shutdownInLoop s = (if \<not> isWriting (chan s) then s\<lparr>shutdownWrite := True\<rparr> else s)"

definition shutdown :: "tcp \<Rightarrow> tcp" where
  "shutdown s = (if state s = kConnected then shutdownInLoop (s\<lparr>state := kDisconnecting\<rparr>) else s)"

definition shutdown_other :: "tcp \<Rightarrow> tcp" where
  "shutdown_other s = (if state s = kConnected then queue ShutdownF (s\<lparr>state := kDisconnecting\<rparr>) else s)"

definition forceClose :: "tcp \<Rightarrow> tcp" where
  "forceClose s = (if state s = kConnected \<or> state s = kDisconnecting
     then queue ForceCloseF (s\<lparr>state := kDisconnecting\<rparr>) else s)"

text \<open>\<open>delayed\<close> counts the timers that will call \<open>forceClose\<close>.\<close>

definition forceCloseWithDelay :: "tcp \<Rightarrow> tcp" where
  "forceCloseWithDelay s = (if state s = kConnected \<or> state s = kDisconnecting
     then s\<lparr>state := kDisconnecting, delayed := delayed s + 1\<rparr> else s)"

definition startReadInLoop :: "tcp \<Rightarrow> tcp" where
  "startReadInLoop s =
     (if \<not> reading s \<or> \<not> isReading (chan s) then (tcp_enableReading s)\<lparr>reading := True\<rparr> else s)"

definition stopReadInLoop :: "tcp \<Rightarrow> tcp" where
  "stopReadInLoop s =
     (if reading s \<or> isReading (chan s) then (tcp_disableReading s)\<lparr>reading := False\<rparr> else s)"

text \<open>The calls in the loop's thread, and in another.\<close>

fun call_in_loop :: "tcp_call \<Rightarrow> tcp \<Rightarrow> tcp option" where
  "call_in_loop (Send d w) s = send d w s"
| "call_in_loop Shutdown s = Some (shutdown s)"
| "call_in_loop ForceClose s = Some (forceClose s)"
| "call_in_loop ForceCloseWithDelay s = Some (forceCloseWithDelay s)"
| "call_in_loop StartRead s = Some (startReadInLoop s)"
| "call_in_loop StopRead s = Some (stopReadInLoop s)"
| "call_in_loop (Consume n) s = do { ib \<leftarrow> retrieve (inputBuffer s) n; Some (s\<lparr>inputBuffer := ib\<rparr>) }"

fun call_other :: "tcp_call \<Rightarrow> tcp \<Rightarrow> tcp" where
  "call_other (Send d w) s = send_other d s"
| "call_other Shutdown s = shutdown_other s"
| "call_other ForceClose s = forceClose s"
| "call_other ForceCloseWithDelay s = forceCloseWithDelay s"
| "call_other StartRead s = queue StartReadF s"
| "call_other StopRead s = queue StopReadF s"
| "call_other (Consume n) s = s"

section \<open>Event handlers\<close>

text \<open>
  The close callback is \<open>removeConnection\<close> of the server or the client: both end by queueing
  \<open>connectDestroyed\<close>.
\<close>

definition handleClose :: "user \<Rightarrow> tcp \<Rightarrow> tcp option" where
  "handleClose u s = do {
     assert_that (state s = kConnected \<or> state s = kDisconnecting);
     let s1 = tcp_disableAll (s\<lparr>state := kDisconnected\<rparr>);
     s2 \<leftarrow> connectionCb u (log_event Down s1);
     Some (queue ConnectDestroyedF (log_event Closed s2))
   }"

definition forceCloseInLoop :: "user \<Rightarrow> tcp \<Rightarrow> tcp option" where
  "forceCloseInLoop u s =
     (if state s = kConnected \<or> state s = kDisconnecting then handleClose u s else Some s)"

text \<open>\<open>handleError\<close> logs the socket's error and changes nothing.\<close>

definition handleError :: "tcp \<Rightarrow> tcp option" where
  "handleError s = Some s"

definition tcp_handleRead :: "user \<Rightarrow> read_result \<Rightarrow> timestamp \<Rightarrow> tcp \<Rightarrow> tcp option" where
  "tcp_handleRead u r receiveTime s = do {
     (n, savedErrno, ib) \<leftarrow> readFd (inputBuffer s) r;
     let s1 = s\<lparr>inputBuffer := ib\<rparr>;
     if n > 0 then messageCb u receiveTime (log_event (Message receiveTime) s1)
     else if n = 0 then handleClose u s1
     else handleError s1
   }"

definition tcp_handleWrite :: "kernel_write \<Rightarrow> tcp \<Rightarrow> tcp option" where
  "tcp_handleWrite w s =
     (if isWriting (chan s) then
        (case w (readableBytes (outputBuffer s)) of
           Wrote n \<Rightarrow>
             if n > 0 then do {
               let s0 = s\<lparr>wire := wire s @ take n (content (outputBuffer s))\<rparr>;
               ob \<leftarrow> retrieve (outputBuffer s0) n;
               let s1 = s0\<lparr>outputBuffer := ob\<rparr>;
               Some (if readableBytes ob = 0 then
                       (let s2 = tcp_disableWriting s1;
                            s3 = (if writeCompleteCallback s2 then queue WriteCompleteF s2 else s2)
                        in if state s3 = kDisconnecting then shutdownInLoop s3 else s3)
                     else s1)
             } else Some s
         | WriteErr err \<Rightarrow> Some s)
      else Some s)"

definition connectEstablished :: "user \<Rightarrow> tcp \<Rightarrow> tcp option" where
  "connectEstablished u s = do {
     assert_that (state s = kConnecting);
     let s1 = s\<lparr>state := kConnected, chan := tie (chan s)\<rparr>;
     connectionCb u (log_event Up (tcp_enableReading s1))
   }"

definition connectDestroyed :: "user \<Rightarrow> tcp \<Rightarrow> tcp option" where
  "connectDestroyed u s = do {
     s1 \<leftarrow> (if state s = kConnected
            then connectionCb u (log_event Down (tcp_disableAll (s\<lparr>state := kDisconnected\<rparr>)))
            else Some s);
     tcp_remove s1
   }"

text \<open>The callbacks that the constructor gives the channel, and the handling of a reported channel.\<close>

fun run_cb :: "user \<Rightarrow> read_result \<Rightarrow> kernel_write \<Rightarrow> timestamp \<Rightarrow> tcp_cb \<Rightarrow> tcp \<Rightarrow> tcp option" where
  "run_cb u r w t CbRead s = tcp_handleRead u r t s"
| "run_cb u r w t CbWrite s = tcp_handleWrite w s"
| "run_cb u r w t CbClose s = handleClose u s"
| "run_cb u r w t CbError s = handleError s"

definition tcp_handleEvent :: "user \<Rightarrow> read_result \<Rightarrow> kernel_write \<Rightarrow> timestamp \<Rightarrow> tcp \<Rightarrow> tcp option" where
  "tcp_handleEvent u r w receiveTime s =
     handleEvent (\<lambda>s. Some (chan s)) chan_update (\<lambda>_. True) (run_cb u r w 0) (run_cb u r w) receiveTime s"

fun run_functor :: "user \<Rightarrow> kernel_write \<Rightarrow> functor_tcp \<Rightarrow> tcp \<Rightarrow> tcp option" where
  "run_functor u w (SendF d) s = sendInLoop d w s"
| "run_functor u w ShutdownF s = Some (shutdownInLoop s)"
| "run_functor u w ForceCloseF s = forceCloseInLoop u s"
| "run_functor u w StartReadF s = Some (startReadInLoop s)"
| "run_functor u w StopReadF s = Some (stopReadInLoop s)"
| "run_functor u w WriteCompleteF s = writeCompleteCb u (log_event WriteComplete s)"
| "run_functor u w (HighWaterMarkF n) s = highWaterMarkCb u n (log_event (HighWaterMark n) s)"
| "run_functor u w ConnectDestroyedF s = connectDestroyed u s"

section \<open>Behaviour\<close>

text \<open>
  What \<open>write\<close> may answer: at most what it was given, and \<open>EPIPE\<close> once the write side is shut.
\<close>

fun write_ok :: "nat \<Rightarrow> bool \<Rightarrow> write_result \<Rightarrow> bool" where
  "write_ok len shut (Wrote n) \<longleftrightarrow> n \<le> len \<and> \<not> shut"
| "write_ok len shut (WriteErr e) \<longleftrightarrow> (shut \<longrightarrow> e = EPIPE)"

text \<open>
  Which calls are legal in the loop's thread: \<open>send\<close> with memory for the data, \<open>retrieve\<close> of what is
  there, and \<open>startRead\<close> and \<open>stopRead\<close> while the connection is not yet closed.
\<close>

definition send_ok :: "byte list \<Rightarrow> kernel_write \<Rightarrow> tcp \<Rightarrow> bool" where
  "send_ok d w s \<longleftrightarrow> buffer_used (outputBuffer s) + length d \<le> vec_max \<and>
     write_ok (length d) (shutdownWrite s) (w (length d))"

fun call_ok :: "tcp_call \<Rightarrow> tcp \<Rightarrow> bool" where
  "call_ok (Send d w) s \<longleftrightarrow> send_ok d w s"
| "call_ok StartRead s \<longleftrightarrow> state s \<noteq> kDisconnected"
| "call_ok StopRead s \<longleftrightarrow> state s \<noteq> kDisconnected"
| "call_ok (Consume n) s \<longleftrightarrow> n \<le> readableBytes (inputBuffer s)"
| "call_ok c s \<longleftrightarrow> True"

fun functor_ok :: "kernel_write \<Rightarrow> functor_tcp \<Rightarrow> tcp \<Rightarrow> bool" where
  "functor_ok w (SendF d) s \<longleftrightarrow> send_ok d w s"
| "functor_ok w StartReadF s \<longleftrightarrow> state s \<noteq> kDisconnected"
| "functor_ok w StopReadF s \<longleftrightarrow> state s \<noteq> kDisconnected"
| "functor_ok w f s \<longleftrightarrow> True"

text \<open>A callback is well behaved when what it does to the connection is a sequence of legal calls.\<close>

inductive api :: "tcp \<Rightarrow> tcp \<Rightarrow> bool" where
  api_refl: "api s s"
| api_call: "call_ok c s \<Longrightarrow> call_in_loop c s = Some s' \<Longrightarrow> api s' s'' \<Longrightarrow> api s s''"

definition well_behaved :: "(tcp \<Rightarrow> tcp option) \<Rightarrow> bool" where
  "well_behaved cb \<longleftrightarrow> (\<forall>s. buffer_wf (inputBuffer s) \<longrightarrow> buffer_wf (outputBuffer s) \<longrightarrow>
     (\<exists>s'. cb s = Some s' \<and> api s s'))"

definition user_ok :: "user \<Rightarrow> bool" where
  "user_ok u \<longleftrightarrow> well_behaved (connectionCb u) \<and> (\<forall>t. well_behaved (messageCb u t)) \<and>
     well_behaved (writeCompleteCb u) \<and> (\<forall>n. well_behaved (highWaterMarkCb u n))"

text \<open>
  What the kernel reports: events that were asked for, errors and hangups, and never a hangup with
  urgent data alone, since a TCP socket that has hung up is readable.
\<close>

definition kernel_reports :: "32 word \<Rightarrow> 32 word \<Rightarrow> bool" where
  "kernel_reports ev rv \<longleftrightarrow> rv AND NOT (ev OR POLLERR OR POLLHUP OR POLLNVAL) = 0 \<and>
     (has rv POLLHUP \<and> \<not> has rv POLLIN \<longrightarrow> \<not> has rv POLLPRI)"

fun read_ok :: "read_result \<Rightarrow> buffer \<Rightarrow> bool" where
  "read_ok (Inl e) b \<longleftrightarrow> True"
| "read_ok (Inr bs) b \<longleftrightarrow> length bs \<le> readv_capacity b \<and> length (buf b) + extrabuf_size \<le> vec_max"

text \<open>
  One step of a connection; \<open>None\<close> is an abort.  The poller reports a channel that asks for events,
  and the loop handles every reported channel before it runs the queue.  In between, and at any other
  time, other channels' callbacks in the same thread and other threads may call the connection.
  \<open>TcpServer\<close>'s destructor calls \<open>connectDestroyed\<close> for the connections it still has.
\<close>

inductive tcp_step :: "user \<Rightarrow> tcp \<Rightarrow> tcp option \<Rightarrow> bool" for u where
  poll: "\<not> active s \<Longrightarrow> \<not> isNoneEvent (chan s) \<Longrightarrow> kernel_reports (events (chan s)) rv \<Longrightarrow>
    tcp_step u s (Some (s\<lparr>chan := (chan s)\<lparr>revents := rv\<rparr>, active := True\<rparr>))"
| handle: "active s \<Longrightarrow> read_ok r (inputBuffer s) \<Longrightarrow> (\<And>len. write_ok len (shutdownWrite s) (w len)) \<Longrightarrow>
    tcp_step u s (tcp_handleEvent u r w t (s\<lparr>active := False\<rparr>))"
| queued: "\<not> active s \<Longrightarrow> functors s = f # fs \<Longrightarrow> functor_ok w f s \<Longrightarrow>
    tcp_step u s (run_functor u w f (s\<lparr>functors := fs\<rparr>))"
| call: "call_ok c s \<Longrightarrow> tcp_step u s (call_in_loop c s)"
| other: "tcp_step u s (Some (call_other c s))"
| timer: "delayed s = Suc n \<Longrightarrow> tcp_step u s (Some (forceClose (s\<lparr>delayed := n\<rparr>)))"
| destroy: "\<not> active s \<Longrightarrow> state s = kConnected \<Longrightarrow> tcp_step u s (connectDestroyed u s)"

section \<open>Invariant\<close>

text \<open>The user's view: the callbacks that may follow each other.\<close>

datatype phase = Before | Open | Lost | Over

fun next_phase :: "phase \<Rightarrow> tcp_event \<Rightarrow> phase option" where
  "next_phase Before Up = Some Open"
| "next_phase Open (Message t) = Some Open"
| "next_phase Open Down = Some Lost"
| "next_phase Lost Closed = Some Over"
| "next_phase p WriteComplete = (if p = Before then None else Some p)"
| "next_phase p (HighWaterMark n) = (if p = Before then None else Some p)"
| "next_phase p e = None"

definition phase_of :: "tcp_event list \<Rightarrow> phase option" where
  "phase_of es = foldl (\<lambda>p e. Option.bind p (\<lambda>p. next_phase p e)) (Some Before) es"

lemma phase_of_simps [simp]:
  "phase_of [] = Some Before" 
  "phase_of (es @ fs) = foldl (\<lambda>p e. Option.bind p (\<lambda>p. next_phase p e)) (phase_of es) fs"
  by (simp_all add: phase_of_def)

lemma next_phase_written [simp]:
  "p \<noteq> Before \<Longrightarrow> next_phase p WriteComplete = Some p" "p \<noteq> Before \<Longrightarrow> next_phase p (HighWaterMark n) = Some p"
  by (cases p; simp)+

definition channel_ok :: "tcp_cb channel \<Rightarrow> bool" where
  "channel_ok ch \<longleftrightarrow> readCallback ch = Some CbRead \<and> writeCallback ch = Some CbWrite \<and>
     closeCallback ch = Some CbClose \<and> errorCallback ch = Some CbError \<and> tied ch \<and> events ch \<in> reachable_events"

text \<open>A report that does not close the connection and read from it as well.\<close>

definition report_ok :: "32 word \<Rightarrow> bool" where
  "report_ok rv \<longleftrightarrow> \<not> has rv POLLRDHUP \<and> (has rv POLLHUP \<and> \<not> has rv POLLIN \<longrightarrow> \<not> has rv POLLPRI)"

definition stream_ok :: "tcp \<Rightarrow> bool" where
  "stream_ok s \<longleftrightarrow> buffer_wf (inputBuffer s) \<and> buffer_wf (outputBuffer s) \<and>
     accepted s = wire s @ content (outputBuffer s)"

definition open_ok :: "tcp \<Rightarrow> bool" where
  "open_ok s \<longleftrightarrow> (isWriting (chan s) \<longleftrightarrow> content (outputBuffer s) \<noteq> []) \<and> addedToLoop (chan s) \<and>
     (shutdownWrite s \<longrightarrow> content (outputBuffer s) = []) \<and> phase_of (events_log s) = Some Open \<and>
     ConnectDestroyedF \<notin> set (functors s) \<and>
     (state s = kConnected \<longrightarrow> \<not> shutdownWrite s \<and> ShutdownF \<notin> set (functors s))"

definition closed_ok :: "tcp \<Rightarrow> bool" where
  "closed_ok s \<longleftrightarrow> events (chan s) = kNoneEvent \<and> \<not> active s \<and>
     (addedToLoop (chan s) \<longrightarrow>
        phase_of (events_log s) = Some Over \<and> count_list (functors s) ConnectDestroyedF = 1) \<and>
     (\<not> addedToLoop (chan s) \<longrightarrow>
        (\<exists>p \<in> {Lost, Over}. phase_of (events_log s) = Some p) \<and> ConnectDestroyedF \<notin> set (functors s))"

definition tcp_inv :: "tcp \<Rightarrow> bool" where
  "tcp_inv s \<longleftrightarrow> stream_ok s \<and> channel_ok (chan s) \<and> state s \<noteq> kConnecting \<and>
     (active s \<longrightarrow> report_ok (revents (chan s))) \<and>
     (state s = kDisconnected \<longrightarrow> closed_ok s) \<and> (state s \<noteq> kDisconnected \<longrightarrow> open_ok s)"

lemmas tcp_inv_defs = tcp_inv_def stream_ok_def channel_ok_def open_ok_def closed_ok_def

definition kept :: "tcp \<Rightarrow> tcp \<Rightarrow> bool" where
  "kept s s' \<longleftrightarrow> (state s' = kDisconnected \<longleftrightarrow> state s = kDisconnected) \<and> active s' = active s \<and>
     revents (chan s') = revents (chan s)"

lemma kept_refl [simp]: "kept s s"
  by (simp add: kept_def)

lemma kept_trans: "kept s s' \<Longrightarrow> kept s' s'' \<Longrightarrow> kept s s''"
  by (simp add: kept_def)

lemma writing_bits [simp]:
  assumes "ev \<in> reachable_events"
  shows "has (ev OR kWriteEvent) kWriteEvent" "\<not> has (ev AND NOT kWriteEvent) kWriteEvent"
    "has (ev OR kReadEvent) kWriteEvent = has ev kWriteEvent"
    "has (ev AND NOT kReadEvent) kWriteEvent = has ev kWriteEvent"
  using assms by (auto simp: reachable_events_def kReadEvent_def kWriteEvent_def poll_flags has_def)

lemma readable_zero [simp]: "buffer_wf b \<Longrightarrow> readableBytes b = 0 \<longleftrightarrow> content b = []"
  by (simp add: readableBytes_content)

lemma sendInLoop_queue_inv:
  assumes inv: "tcp_inv s" and live: "state s \<noteq> kDisconnected" and ns: "\<not> shutdownWrite s"
    and room: "buffer_used (outputBuffer s) + length r \<le> vec_max" and r: "r \<noteq> []"
    and pre: "p = [] \<or> content (outputBuffer s) = []"
  shows "\<exists>s'. sendInLoop_queue r (length r) (s\<lparr>wire := wire s @ p, accepted := accepted s @ p @ r\<rparr>) = Some s' \<and>
    tcp_inv s' \<and> kept s s' \<and> state s' = state s"
proof -
  have "buffer_wf (outputBuffer s)" "writerIndex (outputBuffer s) + length r \<le> vec_max"
    using inv room by (auto simp: tcp_inv_defs buffer_used_def)
  from append_ok[OF this] obtain ob where ob: "append (outputBuffer s) r (length r) = Some ob" "buffer_wf ob"
    "content ob = content (outputBuffer s) @ r" by blast
  show ?thesis
    using inv live ns r pre ob
    by (auto simp: sendInLoop_queue_def Let_def queue_def set_events_def tcp_inv_defs kept_def isWriting_def)
qed

lemma sendInLoop_inv:
  assumes inv: "tcp_inv s" and ok: "send_ok d w s"
  shows "\<exists>s'. sendInLoop d w s = Some s' \<and> tcp_inv s' \<and> kept s s' \<and> state s' = state s"
proof (cases "state s = kDisconnected")
  case True
  then show ?thesis using inv by (simp add: sendInLoop_def)
next
  case live: False
  have wf: "buffer_wf (outputBuffer s)" and wr: "isWriting (chan s) \<longleftrightarrow> content (outputBuffer s) \<noteq> []"
    and shut: "shutdownWrite s \<longrightarrow> content (outputBuffer s) = []"
    and acc: "accepted s = wire s @ content (outputBuffer s)"
    using inv live by (auto simp: tcp_inv_defs)
  have room: "buffer_used (outputBuffer s) + length d \<le> vec_max" using ok by (simp add: send_ok_def)
  note q = sendInLoop_queue_inv[OF inv live]
  show ?thesis
  proof (cases "content (outputBuffer s) = []")
    case busy: False
    show ?thesis
    proof (cases "d = []")
      case True
      then show ?thesis using busy wr inv live by (simp add: sendInLoop_def)
    next
      case False
      have ns: "\<not> shutdownWrite s" using shut busy by blast
      from q[OF ns room False, of "[]"] show ?thesis using busy wr wf live False by (simp add: sendInLoop_def)
    qed
  next
    case idle: True
    show ?thesis
    proof (cases "w (length d)")
      case (Wrote n)
      then have n: "n \<le> length d" "\<not> shutdownWrite s" using ok by (auto simp: send_ok_def)
      have sub: "usub (length d) n = length d - n"
        using n room by (intro usub_exact) (simp_all add: vec_max_def size_limit_def)
      show ?thesis
      proof (cases "n = length d")
        case True
        then show ?thesis using idle wr wf live Wrote inv sub
          by (auto simp: sendInLoop_def queue_def tcp_inv_defs kept_def)
      next
        case False
        then have "drop n d \<noteq> []" "buffer_used (outputBuffer s) + length (drop n d) \<le> vec_max"
          using n room by auto
        from q[OF n(2) this(2,1), of "take n d"] show ?thesis using idle wr wf live Wrote sub False n
          by (simp add: sendInLoop_def)
      qed
    next
      case (WriteErr e)
      then have e: "shutdownWrite s \<longrightarrow> e = EPIPE" using ok by (simp add: send_ok_def)
      show ?thesis
      proof (cases "e = EPIPE \<or> e = ECONNRESET \<or> d = []")
        case True
        then show ?thesis using idle wr wf live WriteErr inv
          by (auto simp: sendInLoop_def EPIPE_def ECONNRESET_def EWOULDBLOCK_def)
      next
        case False
        then have "d \<noteq> []" "\<not> shutdownWrite s" using e by auto
        from q[OF this(2) room this(1), of "[]"] show ?thesis using idle wr wf live WriteErr False
          by (simp add: sendInLoop_def)
      qed
    qed
  qed
qed

lemma call_in_loop_inv:
  assumes "tcp_inv s" and "call_ok c s"
  shows "\<exists>s'. call_in_loop c s = Some s' \<and> tcp_inv s' \<and> kept s s'"
proof (cases c)
  case (Send d w)
  then show ?thesis using sendInLoop_inv[of s d w] assms by (auto simp: send_def)
next
  case (Consume n)
  then have "buffer_wf (inputBuffer s)" "n \<le> length (content (inputBuffer s))"
    using assms by (auto simp: tcp_inv_defs readableBytes_content)
  from retrieve_ok[OF this] obtain ib where "retrieve (inputBuffer s) n = Some ib" "buffer_wf ib" by blast
  then show ?thesis using assms(1) Consume by (auto simp: tcp_inv_defs kept_def)
qed (use assms in \<open>auto simp: shutdown_def shutdownInLoop_def forceClose_def forceCloseWithDelay_def
        startReadInLoop_def stopReadInLoop_def set_events_def queue_def tcp_inv_defs kept_def isWriting_def\<close>)

lemma api_inv:
  assumes "api s s'" and "tcp_inv s"
  shows "tcp_inv s' \<and> kept s s'"
  using assms
proof induction
  case (api_call c s s' s'')
  then show ?case using call_in_loop_inv[of s c] kept_trans by auto
qed simp

text \<open>A closed connection only lets its user read on in the input buffer.\<close>

lemma api_closed:
  assumes "api s s'" and "state s = kDisconnected" and "buffer_wf (inputBuffer s)"
  shows "\<exists>ib. buffer_wf ib \<and> s' = s\<lparr>inputBuffer := ib\<rparr>"
  using assms
proof induction
  case (api_refl s)
  then show ?case by (intro exI[of _ "inputBuffer s"]) simp
next
  case (api_call c s s' s'')
  have "\<exists>ib. buffer_wf ib \<and> s' = s\<lparr>inputBuffer := ib\<rparr>"
  proof (cases c)
    case (Consume n)
    then show ?thesis using api_call retrieve_ok[of "inputBuffer s" n]
      by (auto simp: bind_eq_Some_conv readableBytes_content)
  qed (use api_call in \<open>auto simp: send_def shutdown_def forceClose_def forceCloseWithDelay_def
         intro!: exI[of _ "inputBuffer s"]\<close>)
  then show ?case using api_call by auto
qed

lemma well_behaved_inv:
  assumes "well_behaved cb" and "tcp_inv s"
  shows "\<exists>s'. cb s = Some s' \<and> tcp_inv s' \<and> kept s s'"
proof -
  have "buffer_wf (inputBuffer s)" "buffer_wf (outputBuffer s)"
    using assms(2) by (simp_all add: tcp_inv_def stream_ok_def)
  then obtain s' where "cb s = Some s'" "api s s'" using assms(1) unfolding well_behaved_def by blast
  then show ?thesis using api_inv[OF _ assms(2)] by simp
qed

lemma well_behaved_closed:
  assumes "well_behaved cb" and "state s = kDisconnected" and "buffer_wf (inputBuffer s)"
    and "buffer_wf (outputBuffer s)"
  shows "\<exists>ib. buffer_wf ib \<and> cb s = Some (s\<lparr>inputBuffer := ib\<rparr>)"
proof -
  obtain s' where "cb s = Some s'" "api s s'" using assms(1,3,4) unfolding well_behaved_def by blast
  then show ?thesis using api_closed[OF _ assms(2,3)] by auto
qed

lemma handleClose_inv:
  assumes u: "user_ok u" and inv: "tcp_inv s" and live: "state s \<noteq> kDisconnected" and "\<not> active s"
  shows "\<exists>s'. handleClose u s = Some s' \<and> tcp_inv s' \<and> active s' = active s \<and> revents (chan s') = revents (chan s)"
proof -
  have st: "state s = kConnected \<or> state s = kDisconnecting" using inv live by (cases "state s") (auto simp: tcp_inv_def)
  define s1 where "s1 = log_event Down (tcp_disableAll (s\<lparr>state := kDisconnected\<rparr>))"
  have "\<exists>ib. buffer_wf ib \<and> connectionCb u s1 = Some (s1\<lparr>inputBuffer := ib\<rparr>)"
    using u inv by (intro well_behaved_closed)
      (auto simp: user_ok_def s1_def log_event_def set_events_def tcp_inv_defs)
  then obtain ib where ib: "buffer_wf ib" "connectionCb u s1 = Some (s1\<lparr>inputBuffer := ib\<rparr>)" by blast
  have "handleClose u s = Some (queue ConnectDestroyedF (log_event Closed (s1\<lparr>inputBuffer := ib\<rparr>)))"
    using st ib by (simp add: handleClose_def s1_def)
  then show ?thesis using inv live ib assms(4)
    by (auto simp: s1_def queue_def log_event_def set_events_def tcp_inv_defs)
qed

lemma count_list_notin: "count_list xs x = 0 \<longleftrightarrow> x \<notin> set xs"
  by (simp add: count_list_0_iff)

lemma connectDestroyed_connected:
  assumes u: "user_ok u" and inv: "tcp_inv s" and st: "state s = kConnected" and "\<not> active s"
  shows "\<exists>s'. connectDestroyed u s = Some s' \<and> tcp_inv s'"
proof -
  define s1 where "s1 = log_event Down (tcp_disableAll (s\<lparr>state := kDisconnected\<rparr>))"
  have "\<exists>ib. buffer_wf ib \<and> connectionCb u s1 = Some (s1\<lparr>inputBuffer := ib\<rparr>)"
    using u inv by (intro well_behaved_closed)
      (auto simp: user_ok_def s1_def log_event_def set_events_def tcp_inv_defs)
  then obtain ib where ib: "buffer_wf ib" "connectionCb u s1 = Some (s1\<lparr>inputBuffer := ib\<rparr>)" by blast
  have "connectDestroyed u s = tcp_remove (s1\<lparr>inputBuffer := ib\<rparr>)"
    using st ib by (simp add: connectDestroyed_def s1_def)
  then show ?thesis using inv st ib assms(4)
    by (auto simp: s1_def tcp_remove_def isNoneEvent_def log_event_def set_events_def tcp_inv_defs)
qed

lemma connectDestroyed_queued:
  assumes inv: "tcp_inv s" and q: "functors s = ConnectDestroyedF # fs"
  shows "\<exists>s'. connectDestroyed u (s\<lparr>functors := fs\<rparr>) = Some s' \<and> tcp_inv s'"
proof -
  have st: "state s = kDisconnected" using inv q by (auto simp: tcp_inv_defs split: if_splits)
  have c: "addedToLoop (chan s)" "events (chan s) = kNoneEvent" "ConnectDestroyedF \<notin> set fs"
    using inv q st by (auto simp: tcp_inv_defs count_list_notin split: if_splits)
  show ?thesis using inv c st
    by (auto simp: connectDestroyed_def tcp_remove_def isNoneEvent_def tcp_inv_defs)
qed

lemma tcp_handleWrite_inv:
  assumes inv: "tcp_inv s" and ok: "write_ok (readableBytes (outputBuffer s)) b (w (readableBytes (outputBuffer s)))"
  shows "\<exists>s'. tcp_handleWrite w s = Some s' \<and> tcp_inv s'"
proof (cases "isWriting (chan s) \<and> (\<exists>n. w (readableBytes (outputBuffer s)) = Wrote n \<and> 0 < n)")
  case False
  then show ?thesis using inv by (auto simp: tcp_handleWrite_def split: write_result.split)
next
  case True
  then obtain n where wr: "isWriting (chan s)" and n: "w (readableBytes (outputBuffer s)) = Wrote n" "0 < n" by auto
  have wf: "buffer_wf (outputBuffer s)" and live: "state s \<noteq> kDisconnected"
    and acc: "accepted s = wire s @ content (outputBuffer s)"
    using inv wr by (auto simp: tcp_inv_defs isWriting_def has_def kNoneEvent_def)
  have le: "n \<le> length (content (outputBuffer s))" using ok n wf by (simp add: readableBytes_content)
  from retrieve_ok[OF wf le] obtain ob where ob: "retrieve (outputBuffer s) n = Some ob" "buffer_wf ob"
    "content ob = drop n (content (outputBuffer s))" by blast
  show ?thesis
  proof (cases "content ob = []")
    case True
    then have n': "length (content (outputBuffer s)) \<le> n" using ob(3) by simp
    show ?thesis using inv wr n ob live True n'
      by (auto simp: tcp_handleWrite_def tcp_inv_defs set_events_def queue_def shutdownInLoop_def isWriting_def Let_def)
  next
    case False
    then show ?thesis using inv wr n ob live
      by (auto simp: tcp_handleWrite_def tcp_inv_defs)
  qed
qed

lemma tcp_handleRead_inv:
  assumes u: "user_ok u" and inv: "tcp_inv s" and live: "state s \<noteq> kDisconnected" and na: "\<not> active s"
    and r: "read_ok r (inputBuffer s)"
  shows "\<exists>s'. tcp_handleRead u r t s = Some s' \<and> tcp_inv s' \<and> active s' = active s \<and> revents (chan s') = revents (chan s)"
proof -
  have wf: "buffer_wf (inputBuffer s)" using inv by (simp add: tcp_inv_defs)
  obtain n err ib where ib: "readFd (inputBuffer s) r = Some (n, err, ib)" "buffer_wf ib"
    using readFd_ok[OF wf] readFd_error[of "inputBuffer s"] wf r by (cases r) fastforce+
  let ?s = "s\<lparr>inputBuffer := ib\<rparr>"
  have inv1: "tcp_inv ?s" using inv ib by (auto simp: tcp_inv_defs)
  have inv2: "tcp_inv (log_event (Message t) ?s)"
    using inv1 live by (auto simp: tcp_inv_defs log_event_def)
  show ?thesis
    using ib handleClose_inv[OF u inv1] live na inv1 well_behaved_inv[OF _ inv2, of "messageCb u t"] u
    by (auto simp: tcp_handleRead_def handleError_def user_ok_def kept_def log_event_def Let_def)
qed

lemma eventHandling_inv [simp]: "tcp_inv (chan_update (eventHandling_update f) s) = tcp_inv s"
  by (simp add: tcp_inv_defs isWriting_def)

lemma active_inv: "tcp_inv s \<Longrightarrow> tcp_inv (s\<lparr>active := False\<rparr>)"
  by (auto simp: tcp_inv_defs)

lemma channel_of_inv:
  assumes "tcp_inv s"
  shows "readCallback (chan s) = Some CbRead" "writeCallback (chan s) = Some CbWrite"
    "closeCallback (chan s) = Some CbClose" "errorCallback (chan s) = Some CbError" "tied (chan s)"
  using assms by (simp_all add: tcp_inv_def channel_ok_def)

lemma report_reads:
  assumes "report_ok rv" "has rv POLLHUP" "\<not> has rv POLLIN"
  shows "\<not> has rv (POLLIN OR POLLPRI OR POLLRDHUP)"
  using assms by (simp add: report_ok_def has_def bit.conj_disj_distrib or_eq_0_iff)

lemma tcp_handleEvent_inv:
  assumes u: "user_ok u" and inv: "tcp_inv s" and act: "active s" and r: "read_ok r (inputBuffer s)"
    and w: "\<And>len. write_ok len (shutdownWrite s) (w len)"
  shows "\<exists>s'. tcp_handleEvent u r w t (s\<lparr>active := False\<rparr>) = Some s' \<and> tcp_inv s'"
proof -
  have live: "state s \<noteq> kDisconnected" and rep: "report_ok (revents (chan s))"
    using inv act by (auto simp: tcp_inv_defs)
  define s0 where "s0 = chan_update (eventHandling_update (\<lambda>_. True)) (s\<lparr>active := False\<rparr>)"
  have s0: "tcp_inv s0" "state s0 \<noteq> kDisconnected" "\<not> active s0" "revents (chan s0) = revents (chan s)"
    "read_ok r (inputBuffer s0)"
    using eventHandling_inv[of "\<lambda>_. True" "s\<lparr>active := False\<rparr>"] active_inv[OF inv] live r by (auto simp: s0_def)
  define hup where "hup = (has (revents (chan s)) POLLHUP \<and> \<not> has (revents (chan s)) POLLIN)"
  define rd where "rd = has (revents (chan s)) (POLLIN OR POLLPRI OR POLLRDHUP)"
  obtain s2 where s2: "(if hup then handleClose u s0 else Some s0) = Some s2" "tcp_inv s2" "\<not> active s2"
    "revents (chan s2) = revents (chan s)"
    using handleClose_inv[OF u s0(1-3)] s0 by (cases hup) auto
  obtain s3 where s3: "(if rd then tcp_handleRead u r t s2 else Some s2) = Some s3" "tcp_inv s3"
    "revents (chan s3) = revents (chan s)"
  proof (cases rd)
    case True
    then have "\<not> hup" using report_reads[OF rep] by (auto simp: rd_def hup_def)
    then have "s2 = s0" using s2 by simp
    then show thesis using tcp_handleRead_inv[OF u s0(1-3,5), of t] s0(4) True that by auto
  qed (use s2 that in auto)
  obtain s4 where s4: "(if has (revents (chan s)) POLLOUT then tcp_handleWrite w s3 else Some s3) = Some s4" "tcp_inv s4"
    using tcp_handleWrite_inv[OF s3(2), of "shutdownWrite s" w] w s3(2)
    by (cases "has (revents (chan s)) POLLOUT") auto
  let ?i = "invoke (\<lambda>s. Some (chan s))"
  have "?i (run_cb u r w 0) (\<lambda>ch. has (revents ch) POLLHUP \<and> \<not> has (revents ch) POLLIN) closeCallback s0 = Some s2"
    using channel_of_inv[OF s0(1)] s0(4) s2(1) by (auto simp: invoke_def hup_def split: if_splits)
  moreover have "?i (run_cb u r w 0) (\<lambda>ch. has (revents ch) (POLLERR OR POLLNVAL)) errorCallback s2 = Some s2"
    using channel_of_inv[OF s2(2)] by (simp add: invoke_def handleError_def)
  moreover have "?i (run_cb u r w t) (\<lambda>ch. has (revents ch) (POLLIN OR POLLPRI OR POLLRDHUP)) readCallback s2 = Some s3"
    using channel_of_inv[OF s2(2)] s2(4) s3(1) by (simp add: invoke_def rd_def split: if_splits)
  moreover have "?i (run_cb u r w 0) (\<lambda>ch. has (revents ch) POLLOUT) writeCallback s3 = Some s4"
    using channel_of_inv[OF s3(2)] s3(3) s4(1) by (simp add: invoke_def split: if_splits)
  ultimately have "tcp_handleEvent u r w t (s\<lparr>active := False\<rparr>) = Some (chan_update (eventHandling_update (\<lambda>_. False)) s4)"
    using channel_of_inv[OF inv] unfolding tcp_handleEvent_def handleEvent_def handleEventWithGuard_def Let_def s0_def
    by simp
  then show ?thesis using s4(2) by simp
qed

lemma report_ok_kernel:
  assumes "events (chan s) \<in> reachable_events" and "kernel_reports (events (chan s)) rv"
  shows "report_ok rv"
proof -
  define m :: "32 word" where "m = events (chan s) OR POLLERR OR POLLHUP OR POLLNVAL"
  have "m AND POLLRDHUP = 0" using assms(1)
    by (auto simp: m_def reachable_events_def poll_flags)
  moreover have "rv = (rv AND m) OR (rv AND NOT m)"
    by (simp only: bit.conj_disj_distrib[symmetric] bit.disj_cancel_right bit.conj_one_right)
  then have "rv = rv AND m" using assms(2) by (simp add: kernel_reports_def m_def)
  ultimately have "rv AND POLLRDHUP = 0" by (metis and.assoc and_zero_eq)
  then show ?thesis using assms(2) by (simp add: report_ok_def kernel_reports_def has_def)
qed

lemma run_functor_inv:
  assumes u: "user_ok u" and inv: "tcp_inv s" and na: "\<not> active s" and q: "functors s = f # fs"
    and ok: "functor_ok w f s"
  shows "\<exists>s'. run_functor u w f (s\<lparr>functors := fs\<rparr>) = Some s' \<and> tcp_inv s'"
proof (cases "f = ConnectDestroyedF")
  case True
  then show ?thesis using connectDestroyed_queued[OF inv] q by simp
next
  case False
  let ?s = "s\<lparr>functors := fs\<rparr>"
  have inv': "tcp_inv ?s" using inv q False by (auto simp: tcp_inv_defs)
  have ev: "tcp_inv (log_event e ?s)" if "\<And>p. p \<noteq> Before \<Longrightarrow> next_phase p e = Some p" for e
    using inv' that by (auto simp: tcp_inv_defs log_event_def)
  show ?thesis
  proof (cases f)
    case (SendF d)
    then show ?thesis using sendInLoop_inv[OF inv', of d w] ok by (auto simp: send_ok_def)
  next
    case ForceCloseF
    have "state s = kConnected \<or> state s = kDisconnecting \<Longrightarrow> state ?s \<noteq> kDisconnected" by auto
    then show ?thesis using ForceCloseF handleClose_inv[OF u inv'] inv' na by (auto simp: forceCloseInLoop_def)
  next
    case WriteCompleteF
    then show ?thesis using well_behaved_inv[OF _ ev, of "writeCompleteCb u" WriteComplete] u by (auto simp: user_ok_def)
  next
    case (HighWaterMarkF n)
    then show ?thesis using well_behaved_inv[OF _ ev, of "highWaterMarkCb u n" "HighWaterMark n"] u
      by (auto simp: user_ok_def)
  next
    case ShutdownF
    then have "state s \<noteq> kConnected" using inv q by (auto simp: tcp_inv_defs)
    then show ?thesis using ShutdownF inv' by (auto simp: shutdownInLoop_def tcp_inv_defs)
  next
    case StartReadF
    then show ?thesis using call_in_loop_inv[OF inv', of StartRead] ok by auto
  next
    case StopReadF
    then show ?thesis using call_in_loop_inv[OF inv', of StopRead] ok by auto
  qed (use False in simp)
qed

lemma call_other_inv: "tcp_inv s \<Longrightarrow> tcp_inv (call_other c s)"
  by (cases c) (auto simp: send_other_def shutdown_other_def forceClose_def forceCloseWithDelay_def
      queue_def tcp_inv_defs)

lemma tcp_step_inv:
  assumes "tcp_step u s r" and "user_ok u" and "tcp_inv s"
  shows "\<exists>s'. r = Some s' \<and> tcp_inv s'"
  using assms
proof cases
  case (poll rv)
  then have "report_ok rv" using report_ok_kernel assms(3) by (auto simp: tcp_inv_def channel_ok_def)
  then show ?thesis using poll assms(3) by (auto simp: tcp_inv_defs isNoneEvent_def isWriting_def)
next
  case (handle r w t)
  then show ?thesis using tcp_handleEvent_inv[OF assms(2,3)] by simp
next
  case (queued f fs w)
  then show ?thesis using run_functor_inv[OF assms(2,3)] by simp
next
  case (call c)
  then show ?thesis using call_in_loop_inv[OF assms(3)] by auto
next
  case (other c)
  then show ?thesis using call_other_inv[OF assms(3)] by simp
next
  case (timer n)
  then show ?thesis using assms(3) by (auto simp: forceClose_def queue_def tcp_inv_defs)
next
  case destroy
  then show ?thesis using connectDestroyed_connected[OF assms(2,3)] by simp
qed

text \<open>The states of a connection: created, established, and then any number of steps.\<close>

inductive tcp_reach :: "user \<Rightarrow> tcp \<Rightarrow> bool" for u where
  start: "new_TcpConnection sockfd wc hw = Some s0 \<Longrightarrow> connectEstablished u s0 = Some s \<Longrightarrow> tcp_reach u s"
| step: "tcp_reach u s \<Longrightarrow> tcp_step u s (Some s') \<Longrightarrow> tcp_reach u s'"

lemma connectEstablished_ok:
  assumes "user_ok u"
  shows "\<exists>s0 s. new_TcpConnection sockfd wc hw = Some s0 \<and> connectEstablished u s0 = Some s \<and> tcp_inv s"
proof -
  have "kInitialSize + kCheapPrepend \<le> vec_max" by (simp add: kInitialSize_def kCheapPrepend_def vec_max_def)
  then obtain b where b: "new_Buffer kInitialSize = Some b" "buffer_wf b" "content b = []"
    using new_Buffer_ok[of kInitialSize] by (auto simp: add.commute)
  obtain s0 where s0: "new_TcpConnection sockfd wc hw = Some s0" "state s0 = kConnecting"
    and inv: "tcp_inv (log_event Up (tcp_enableReading (s0\<lparr>state := kConnected, chan := tie (chan s0)\<rparr>)))"
    using b by (fastforce simp: new_TcpConnection_def tcp_inv_defs log_event_def set_events_def tie_def new_Channel_def
        isWriting_def reachable_events_def kReadEvent_def kWriteEvent_def poll_flags has_def)
  then show ?thesis using well_behaved_inv[OF _ inv, of "connectionCb u"] assms
    by (auto simp: connectEstablished_def user_ok_def)
qed

lemma tcp_reach_inv:
  assumes "tcp_reach u s" and "user_ok u"
  shows "tcp_inv s"
  using assms
proof induction
  case (start sockfd wc hw s0 s)
  then show ?case using connectEstablished_ok[of u sockfd wc hw] by auto
next
  case (step s s')
  then show ?case using tcp_step_inv by blast
qed

section \<open>Properties\<close>

text \<open>
  A user that greets every peer with three bytes, of which the kernel takes two, shuts the
  connection down at the first message and closes it when all is written.
\<close>

definition greeter :: user where
  "greeter = \<lparr>connectionCb = (\<lambda>s. if send_ok [1, 2, 3] (\<lambda>_. Wrote 2) s then send [1, 2, 3] (\<lambda>_. Wrote 2) s else Some s),
     messageCb = (\<lambda>t s. Some (shutdown s)), writeCompleteCb = (\<lambda>s. Some (forceClose s)),
     highWaterMarkCb = (\<lambda>n s. Some (forceClose s))\<rparr>"

lemma sendInLoop_defined:
  assumes "send_ok d w s" "buffer_wf (outputBuffer s)"
  shows "\<exists>s'. sendInLoop d w s = Some s'"
proof -
  have small: "length d < size_limit" using assms(1) by (simp add: send_ok_def vec_max_def size_limit_def)
  have q: "\<exists>s'. sendInLoop_queue r (length r) s1 = Some s'"
    if "length r \<le> length d" "outputBuffer s1 = outputBuffer s" for r and s1 :: tcp
  proof -
    have "writerIndex (outputBuffer s) + length r \<le> vec_max"
      using assms(1) that by (auto simp: send_ok_def buffer_used_def)
    from append_ok[OF assms(2) this] show ?thesis using that by (auto simp: sendInLoop_queue_def queue_def Let_def)
  qed
  have wrote: "\<exists>s'. sendInLoop_queue (drop n d) (length d - n) s1 = Some s'"
    if "outputBuffer s1 = outputBuffer s" for n and s1 :: tcp
    using q[of "drop n d" s1] that by simp
  show ?thesis
  proof (cases "w (length d)")
    case (Wrote n)
    then have "usub (length d) n = length d - n" using assms(1) small by (auto simp: send_ok_def usub_exact)
    then show ?thesis using Wrote q[of d] wrote by (auto simp: sendInLoop_def queue_def Let_def)
  next
    case (WriteErr e)
    then show ?thesis using q[of d] by (auto simp: sendInLoop_def Let_def)
  qed
qed

lemma well_behaved_guarded:
  assumes "\<And>s. buffer_wf (inputBuffer s) \<Longrightarrow> buffer_wf (outputBuffer s) \<Longrightarrow> call_ok c s \<Longrightarrow> call_in_loop c s \<noteq> None"
  shows "well_behaved (\<lambda>s. if call_ok c s then call_in_loop c s else Some s)"
  unfolding well_behaved_def
proof (intro allI impI)
  fix s :: tcp
  assume "buffer_wf (inputBuffer s)" "buffer_wf (outputBuffer s)"
  then show "\<exists>s'. (if call_ok c s then call_in_loop c s else Some s) = Some s' \<and> api s s'"
    using assms[of s] api_refl api_call by (cases "call_ok c s") auto
qed

lemma greeter_ok: "user_ok greeter"
proof -
  have "send [1, 2, 3] (\<lambda>_. Wrote 2) s \<noteq> None" if "send_ok [1, 2, 3] (\<lambda>_. Wrote 2) s" "buffer_wf (outputBuffer s)" for s
    using sendInLoop_defined[OF that] by (auto simp: send_def)
  then have "well_behaved (connectionCb greeter)"
    using well_behaved_guarded[of "Send [1, 2, 3] (\<lambda>_. Wrote 2)"] by (simp add: greeter_def cong: if_cong)
  then show ?thesis
    using well_behaved_guarded[of Shutdown] well_behaved_guarded[of ForceClose] by (simp add: user_ok_def greeter_def)
qed

text \<open>The greeter's connection right after it is established, and when it was shut down after a message.\<close>

lemma greeter_reach:
  "\<exists>s. tcp_reach greeter s \<and> state s = kConnected \<and> wire s = [1, 2] \<and> content (outputBuffer s) = [3] \<and>
     addedToLoop (chan s) \<and> events_log s = [Up] \<and> isReading (chan s) \<and> isWriting (chan s) \<and> \<not> active s \<and>
     functors s = []"
proof -
  have "kCheapPrepend + kInitialSize \<le> vec_max" by (simp add: kInitialSize_def kCheapPrepend_def vec_max_def)
  from new_Buffer_ok[OF this] obtain b where b: "new_Buffer kInitialSize = Some b" "buffer_wf b" "content b = []"
    "readerIndex b = kCheapPrepend" by blast
  have wi: "writerIndex b = kCheapPrepend" using b by (auto simp: content_def buffer_wf_def vec_range_def)
  then have "writerIndex b + length [3 :: byte] \<le> vec_max" by (simp add: kCheapPrepend_def vec_max_def)
  from append_ok[OF b(2) this] b(3) obtain ob where ob: "append b [3] (Suc 0) = Some ob" "content ob = [3]" by auto
  have sub: "usub (Suc (Suc (Suc 0))) 2 = Suc 0" by (simp add: usub_exact size_limit_def)
  have "\<exists>c s. new_TcpConnection 7 True False = Some c \<and> connectEstablished greeter c = Some s \<and>
     state s = kConnected \<and> wire s = [1, 2] \<and> content (outputBuffer s) = [3] \<and> addedToLoop (chan s) \<and>
     events_log s = [Up] \<and> isReading (chan s) \<and> isWriting (chan s) \<and> \<not> active s \<and> functors s = []"
    using b ob wi sub
    by (simp add: new_TcpConnection_def connectEstablished_def greeter_def send_ok_def buffer_used_def
        log_event_def set_events_def tie_def send_def sendInLoop_def sendInLoop_queue_def queue_def Let_def
        new_Channel_def isWriting_def isReading_def kReadEvent_def kWriteEvent_def poll_flags has_def
        kCheapPrepend_def vec_max_def)
  then show ?thesis using tcp_reach.start by metis
qed

text \<open>
  C2. Whatever a user's callbacks do with legal calls, and whatever other threads and the kernel do,
  the bytes that a connection has taken on are those the kernel has taken from it, in order, followed
  by its output buffer.  While the connection is not closed it asks for writability exactly when the
  output buffer holds something, and the write side is shut only when everything was written.
\<close>

theorem tcp_stream:
  assumes "user_ok u" and "tcp_reach u s"
  shows "accepted s = wire s @ content (outputBuffer s) \<and>
    (state s \<noteq> kDisconnected \<longrightarrow> (isWriting (chan s) \<longleftrightarrow> content (outputBuffer s) \<noteq> [])) \<and>
    (state s \<noteq> kDisconnected \<and> shutdownWrite s \<longrightarrow> wire s = accepted s)"
  using tcp_reach_inv[OF assms(2,1)] by (auto simp: tcp_inv_defs)

theorem tcp_stream_witness:
  "\<exists>s. user_ok greeter \<and> tcp_reach greeter s \<and> accepted s = [1, 2, 3] \<and> wire s = [1, 2] \<and>
     content (outputBuffer s) = [3] \<and> isWriting (chan s)"
proof -
  obtain s where s: "tcp_reach greeter s" "wire s = [1, 2]" "content (outputBuffer s) = [3]" "state s = kConnected"
    using greeter_reach by blast
  show ?thesis using tcp_stream[OF greeter_ok s(1)] s greeter_ok by auto
qed





text \<open>
  \<open>connectDestroyed\<close> aborts on a connection that is shutting down and still asks for events, since
  it disables the channel of a connected one only; and \<open>startRead\<close> on a closed connection makes the
  queued \<open>connectDestroyed\<close> abort, since \<open>startReadInLoop\<close> enables the channel in every state.
\<close>

theorem connectDestroyed_aborts:
  assumes "user_ok u" and "tcp_reach u s"
  shows "(state s = kDisconnecting \<and> isReading (chan s) \<longrightarrow> connectDestroyed u s = None) \<and>
    (state s = kDisconnected \<longrightarrow> connectDestroyed u (startReadInLoop s) = None)"
proof -
  have "state s = kDisconnected \<Longrightarrow> events (chan s) = 0"
    using tcp_reach_inv[OF assms(2,1)] by (simp add: tcp_inv_defs kNoneEvent_def)
  moreover have "isReading (chan s) \<Longrightarrow> events (chan s) \<noteq> 0" by (auto simp: isReading_def has_def)
  ultimately show ?thesis
    by (auto simp: connectDestroyed_def tcp_remove_def startReadInLoop_def set_events_def isNoneEvent_def
        kNoneEvent_def isReading_def[of "chan s"] has_def)
qed

theorem connectDestroyed_aborts_witness:
  "\<exists>s. user_ok greeter \<and> tcp_reach greeter s \<and> state s = kDisconnecting \<and> connectDestroyed greeter s = None"
proof -
  obtain s where s: "tcp_reach greeter s" "state s = kConnected" "isReading (chan s)" using greeter_reach by blast
  have "tcp_step greeter s (Some (shutdown s))" using tcp_step.call[of Shutdown s] by simp
  then have r: "tcp_reach greeter (shutdown s)" by (rule tcp_reach.step[OF s(1)])
  have "state (shutdown s) = kDisconnecting" "isReading (chan (shutdown s))"
    using s by (auto simp: shutdown_def shutdownInLoop_def)
  then show ?thesis using connectDestroyed_aborts[OF greeter_ok r] r greeter_ok by blast
qed

end
