(* ===== verification/Tcp_Client.thy ===== *)
theory Tcp_Client
  imports Muduo_Prelude "HOL-Library.Multiset"
begin

text \<open>
  Connecting to a server: \<open>Connector\<close> (\<open>muduo/net/Connector.h\<close>, \<open>Connector.cc\<close>) and \<open>TcpClient\<close>
  (\<open>muduo/net/TcpClient.h\<close>, \<open>TcpClient.cc\<close>), as the loop's thread runs them.  A socket is the number of
  its creation, so that every socket has an identity of its own; what becomes of it is recorded in
  \<open>closed\<close> and \<open>handed\<close>.  A channel is its socket and whether it is registered with the loop.
  \<open>conn_queue\<close> holds the functors queued for the connector, \<open>retry_timers\<close> the number of timers that
  will call \<open>startInLoop\<close>, and \<open>delays\<close> the delays those timers were set to since the last restart.  The
  kernel's results (the errno of \<open>connect\<close>, the socket's error, whether it has connected to itself) are
  arguments.  A connection is the number of its socket; its own life is the subject of
  \<open>Tcp_Connection\<close>.  \<open>None\<close> is a failed assertion or a null pointer.
\<close>

section \<open>Connector\<close>

datatype States = kDisconnected | kConnecting | kConnected

definition kMaxRetryDelayMs :: int where "kMaxRetryDelayMs = 30 * 1000"
definition kInitRetryDelayMs :: int where "kInitRetryDelayMs = 500"

datatype conn_functor = StartInLoop | StopInLoop | ResetChannel

type_synonym socket = nat

record connector =
  connect_flag :: bool
  conn_state :: States
  channel :: "(socket \<times> bool) option"
  retryDelayMs :: int
  conn_queue :: "conn_functor list"
  retry_timers :: nat
  created :: nat
  closed :: "socket list"
  handed :: "socket list"
  delays :: "int list"

definition new_Connector :: connector where
  "new_Connector = \<lparr>connect_flag = False, conn_state = kDisconnected, channel = None,
     retryDelayMs = kInitRetryDelayMs, conn_queue = [], retry_timers = 0, created = 0, closed = [],
     handed = [], delays = []\<rparr>"

definition delete_Connector :: "connector \<Rightarrow> unit option" where
  "delete_Connector s = assert_that (channel s = None)"

definition queue_functor :: "conn_functor \<Rightarrow> connector \<Rightarrow> connector" where
  "queue_functor f s = s\<lparr>conn_queue := conn_queue s @ [f]\<rparr>"

definition close_socket :: "socket \<Rightarrow> connector \<Rightarrow> connector" where
  "close_socket fd s = s\<lparr>closed := closed s @ [fd]\<rparr>"

definition retry :: "socket \<Rightarrow> connector \<Rightarrow> connector" where
  "retry sockfd s =
     (let s1 = (close_socket sockfd s)\<lparr>conn_state := kDisconnected\<rparr>
      in if connect_flag s1
         then s1\<lparr>retry_timers := retry_timers s1 + 1, delays := delays s1 @ [retryDelayMs s1],
                 retryDelayMs := min (retryDelayMs s1 * 2) kMaxRetryDelayMs\<rparr>
         else s1)"

definition connecting :: "socket \<Rightarrow> connector \<Rightarrow> connector option" where
  "connecting sockfd s = do {
     assert_that (channel s = None);
     Some (s\<lparr>conn_state := kConnecting, channel := Some (sockfd, True)\<rparr>)
   }"

definition errno_connecting :: "int set" where
  "errno_connecting = {0, 115, 4, 106}"   \<comment> \<open>0, EINPROGRESS, EINTR, EISCONN\<close>

definition errno_retry :: "int set" where
  "errno_retry = {11, 98, 99, 111, 101}"  \<comment> \<open>EAGAIN, EADDRINUSE, EADDRNOTAVAIL, ECONNREFUSED, ENETUNREACH\<close>

definition connect :: "int \<Rightarrow> connector \<Rightarrow> connector option" where
  "connect savedErrno s =
     (let sockfd = created s; s1 = s\<lparr>created := created s + 1\<rparr>
      in if savedErrno \<in> errno_connecting then connecting sockfd s1
         else if savedErrno \<in> errno_retry then Some (retry sockfd s1)
         else Some (close_socket sockfd s1))"

definition startInLoop :: "int \<Rightarrow> connector \<Rightarrow> connector option" where
  "startInLoop savedErrno s = do {
     assert_that (conn_state s = kDisconnected);
     if connect_flag s then connect savedErrno s else Some s
   }"

text \<open>\<open>start\<close> in the loop's thread, and in another.\<close>

definition start :: "int \<Rightarrow> connector \<Rightarrow> connector option" where
  "start savedErrno s = startInLoop savedErrno (s\<lparr>connect_flag := True\<rparr>)"

definition start_other :: "connector \<Rightarrow> connector" where
  "start_other s = queue_functor StartInLoop (s\<lparr>connect_flag := True\<rparr>)"

definition restart :: "int \<Rightarrow> connector \<Rightarrow> connector option" where
  "restart savedErrno s = startInLoop savedErrno
     (s\<lparr>conn_state := kDisconnected, retryDelayMs := kInitRetryDelayMs, delays := [], connect_flag := True\<rparr>)"

definition stop :: "connector \<Rightarrow> connector" where
  "stop s = queue_functor StopInLoop (s\<lparr>connect_flag := False\<rparr>)"

definition removeAndResetChannel :: "connector \<Rightarrow> (socket \<times> connector) option" where
  "removeAndResetChannel s = do {
     (sockfd, registered) \<leftarrow> channel s;
     assert_that registered;
     Some (sockfd, queue_functor ResetChannel (s\<lparr>channel := Some (sockfd, False)\<rparr>))
   }"

text \<open>The destructor of a channel asserts that the loop no longer has it.\<close>

definition resetChannel :: "connector \<Rightarrow> connector option" where
  "resetChannel s = do {
     assert_that (\<forall>fd. channel s \<noteq> Some (fd, True));
     Some (s\<lparr>channel := None\<rparr>)
   }"

definition stopInLoop :: "connector \<Rightarrow> connector option" where
  "stopInLoop s =
     (if conn_state s = kConnecting then do {
        (sockfd, s1) \<leftarrow> removeAndResetChannel (s\<lparr>conn_state := kDisconnected\<rparr>);
        Some (retry sockfd s1)
      } else Some s)"

definition conn_handleError :: "connector \<Rightarrow> connector option" where
  "conn_handleError s =
     (if conn_state s = kConnecting then do {
        (sockfd, s1) \<leftarrow> removeAndResetChannel s;
        Some (retry sockfd s1)
      } else Some s)"

text \<open>The socket for the new connection callback comes back with the state.\<close>

definition conn_handleWrite :: "int \<Rightarrow> bool \<Rightarrow> connector \<Rightarrow> (connector \<times> socket option) option" where
  "conn_handleWrite err selfConnect s =
     (if conn_state s = kConnecting then do {
        (sockfd, s1) \<leftarrow> removeAndResetChannel s;
        if err \<noteq> 0 then Some (retry sockfd s1, None)
        else if selfConnect then Some (retry sockfd s1, None)
        else (let s2 = s1\<lparr>conn_state := kConnected\<rparr>
              in if connect_flag s2 then Some (s2\<lparr>handed := handed s2 @ [sockfd]\<rparr>, Some sockfd)
                 else Some (close_socket sockfd s2, None))
      } else do {
        assert_that (conn_state s = kDisconnected);
        Some (s, None)
      })"

fun run_conn_functor :: "int \<Rightarrow> conn_functor \<Rightarrow> connector \<Rightarrow> connector option" where
  "run_conn_functor e StartInLoop s = startInLoop e s"
| "run_conn_functor e StopInLoop s = stopInLoop s"
| "run_conn_functor e ResetChannel s = resetChannel s"

section \<open>TcpClient\<close>

text \<open>
  \<open>established\<close> lists the connections that were established, \<open>destroying\<close> those whose
  \<open>connectDestroyed\<close> was queued, \<open>shutdowns\<close> those that were asked to shut down.
\<close>

record client =
  connector :: connector
  retry_flag :: bool
  client_connect :: bool
  nextConnId :: nat
  connection :: "socket option"
  connect_calls :: nat
  established :: "socket list"
  destroying :: "socket list"
  shutdowns :: "socket list"

definition new_TcpClient :: "bool \<Rightarrow> client" where
  "new_TcpClient rt = \<lparr>connector = new_Connector, retry_flag = rt, client_connect = True, nextConnId = 1,
     connection = None, connect_calls = 0, established = [], destroying = [], shutdowns = []\<rparr>"

definition client_connect_call :: "int \<Rightarrow> client \<Rightarrow> client option" where
  "client_connect_call e c = do {
     k \<leftarrow> start e (connector c);
     Some (c\<lparr>client_connect := True, connect_calls := connect_calls c + 1, connector := k\<rparr>)
   }"

definition client_connect_other :: "client \<Rightarrow> client" where
  "client_connect_other c =
     c\<lparr>client_connect := True, connect_calls := connect_calls c + 1, connector := start_other (connector c)\<rparr>"

definition disconnect :: "client \<Rightarrow> client" where
  "disconnect c =
     (let c1 = c\<lparr>client_connect := False\<rparr>
      in case connection c1 of None \<Rightarrow> c1 | Some conn \<Rightarrow> c1\<lparr>shutdowns := shutdowns c1 @ [conn]\<rparr>)"

definition client_stop :: "client \<Rightarrow> client" where
  "client_stop c = c\<lparr>client_connect := False, connector := stop (connector c)\<rparr>"

definition newConnection :: "socket \<Rightarrow> client \<Rightarrow> client" where
  "newConnection sockfd c = c\<lparr>nextConnId := nextConnId c + 1, connection := Some sockfd,
     established := established c @ [sockfd]\<rparr>"

definition removeConnection :: "int \<Rightarrow> socket \<Rightarrow> client \<Rightarrow> client option" where
  "removeConnection e conn c = do {
     assert_that (connection c = Some conn);
     let c1 = c\<lparr>connection := None, destroying := destroying c @ [conn]\<rparr>;
     if retry_flag c1 \<and> client_connect c1 then do {
       k \<leftarrow> restart e (connector c1);
       Some (c1\<lparr>connector := k\<rparr>)
     } else Some c1
   }"

text \<open>
  The destructor, with whether it holds the only reference to the connection.  The close callback of
  the connection becomes \<open>detail::removeConnection\<close>, which only queues \<open>connectDestroyed\<close>.
\<close>

datatype client_action = SetCloseCallback socket | ForceCloseConnection socket | KeepConnectorForOneSecond

definition delete_TcpClient :: "bool \<Rightarrow> client \<Rightarrow> client_action list \<times> connector" where
  "delete_TcpClient unique c =
     (case connection c of
        Some conn \<Rightarrow> (SetCloseCallback conn # (if unique then [ForceCloseConnection conn] else []), connector c)
      | None \<Rightarrow> ([KeepConnectorForOneSecond], stop (connector c)))"

definition detail_removeConnection :: "socket \<Rightarrow> client \<Rightarrow> client" where
  "detail_removeConnection conn c = c\<lparr>destroying := destroying c @ [conn]\<rparr>"

text \<open>
  The loop handles the connector's channel: \<open>handleError\<close> if the kernel reports an error,
  \<open>handleWrite\<close> if it reports the socket writable, in this order.
\<close>

definition client_handleEvent :: "bool \<Rightarrow> bool \<Rightarrow> int \<Rightarrow> bool \<Rightarrow> client \<Rightarrow> client option" where
  "client_handleEvent error writable err selfConnect c = do {
     k \<leftarrow> (if error then conn_handleError (connector c) else Some (connector c));
     if writable then do {
       (k', new) \<leftarrow> conn_handleWrite err selfConnect k;
       let c' = c\<lparr>connector := k'\<rparr>;
       Some (case new of None \<Rightarrow> c' | Some sockfd \<Rightarrow> newConnection sockfd c')
     } else Some (c\<lparr>connector := k\<rparr>)
   }"

section \<open>Behaviour\<close>

text \<open>
  The steps of a client whose user calls \<open>connect\<close> once: calls of the user, the kernel's reports, the
  loop's queue, and a connection that closes.  A report can only concern a registered channel; the
  timers of \<open>retry\<close> and the close callback of a connection come after the functor that resets the
  channel, which was queued at least half a second before the timer and before the connection's
  first event.
\<close>

inductive client_step :: "client \<Rightarrow> client option \<Rightarrow> bool" where
  connect: "connect_calls c = 0 \<Longrightarrow> client_step c (client_connect_call e c)"
| connect_other: "connect_calls c = 0 \<Longrightarrow> client_step c (Some (client_connect_other c))"
| disconnect: "client_step c (Some (disconnect c))"
| stop: "client_step c (Some (client_stop c))"
| queued: "conn_queue (connector c) = f # fs \<Longrightarrow>
    client_step c (map_option (\<lambda>k. c\<lparr>connector := k\<rparr>) (run_conn_functor e f ((connector c)\<lparr>conn_queue := fs\<rparr>)))"
| timer: "retry_timers (connector c) = Suc n \<Longrightarrow> ResetChannel \<notin> set (conn_queue (connector c)) \<Longrightarrow>
    client_step c (map_option (\<lambda>k. c\<lparr>connector := k\<rparr>) (startInLoop e ((connector c)\<lparr>retry_timers := n\<rparr>)))"
| event: "channel (connector c) = Some (fd, True) \<Longrightarrow>
    client_step c (client_handleEvent error writable err selfConnect c)"
| closes: "conn \<in> set (established c) \<Longrightarrow> conn \<notin> set (destroying c) \<Longrightarrow>
    ResetChannel \<notin> set (conn_queue (connector c)) \<Longrightarrow> client_step c (removeConnection e conn c)"

inductive client_reach :: "client \<Rightarrow> bool" where
  init: "client_reach (new_TcpClient rt)"
| step: "client_reach c \<Longrightarrow> client_step c (Some c') \<Longrightarrow> client_reach c'"

section \<open>Invariant\<close>

definition pending_socket :: "connector \<Rightarrow> socket list" where
  "pending_socket s = (if conn_state s = kConnecting then (case channel s of Some (fd, _) \<Rightarrow> [fd] | None \<Rightarrow> []) else [])"

definition pending_starts :: "connector \<Rightarrow> nat" where
  "pending_starts s = count_list (conn_queue s) StartInLoop + retry_timers s"

definition backoff :: "nat \<Rightarrow> int" where
  "backoff k = min (kInitRetryDelayMs * 2 ^ k) kMaxRetryDelayMs"

definition conn_inv :: "connector \<Rightarrow> bool" where
  "conn_inv s \<longleftrightarrow>
     (conn_state s = kConnecting \<longleftrightarrow> (\<exists>fd. channel s = Some (fd, True))) \<and>
     count_list (conn_queue s) ResetChannel = (if \<exists>fd. channel s = Some (fd, False) then 1 else 0) \<and>
     pending_starts s \<le> 1 \<and> (0 < pending_starts s \<longrightarrow> conn_state s = kDisconnected) \<and>
     (StartInLoop \<in> set (conn_queue s) \<longrightarrow> channel s = None) \<and>
     mset (closed s @ handed s @ pending_socket s) = mset [0..<created s] \<and>
     delays s = map backoff [0..<length (delays s)] \<and> retryDelayMs s = backoff (length (delays s))"

definition client_inv :: "client \<Rightarrow> bool" where
  "client_inv c \<longleftrightarrow> conn_inv (connector c) \<and> established c = handed (connector c) \<and>
     set (established c) = set (destroying c) \<union> set_option (connection c) \<and>
     set (destroying c) \<inter> set_option (connection c) = {} \<and>
     (connection c \<noteq> None \<longrightarrow> conn_state (connector c) = kConnected) \<and>
     distinct (destroying c) \<and>
     (connect_calls c = 0 \<longrightarrow> conn_state (connector c) = kDisconnected \<and> channel (connector c) = None \<and>
        pending_starts (connector c) = 0)"

lemma backoff_0 [simp]: "backoff 0 = kInitRetryDelayMs"
  by (simp add: backoff_def kInitRetryDelayMs_def kMaxRetryDelayMs_def)

lemma backoff_Suc [simp]: "min (backoff k * 2) kMaxRetryDelayMs = backoff (Suc k)"
  by (auto simp: backoff_def kMaxRetryDelayMs_def min_def)

lemma mset_created [simp]: "add_mset n (mset_set {0..<n}) = mset_set {0..<Suc n}"
  by (simp add: atLeastLessThanSuc)

lemmas conn_ops = retry_def close_socket_def queue_functor_def connecting_def removeAndResetChannel_def
  pending_socket_def pending_starts_def Let_def

lemma conn_inv_connecting:
  assumes "conn_inv s" and "conn_state s = kConnecting"
  obtains fd where "channel s = Some (fd, True)" "ResetChannel \<notin> set (conn_queue s)" "pending_starts s = 0"
  using assms by (auto simp: conn_inv_def count_list_0_iff)

text \<open>A socket that did not connect is closed, and a timer is set if the user still wants to connect.\<close>

lemma remove_retry_inv:
  assumes inv: "conn_inv s" and st: "conn_state s = kConnecting" and s': "s' = s \<or> s' = s\<lparr>conn_state := kDisconnected\<rparr>"
  shows "\<exists>fd s1. removeAndResetChannel s' = Some (fd, s1) \<and> conn_inv (retry fd s1) \<and>
    conn_state (retry fd s1) = kDisconnected \<and> handed (retry fd s1) = handed s"
proof -
  obtain fd where ch: "channel s = Some (fd, True)" "ResetChannel \<notin> set (conn_queue s)" "pending_starts s = 0"
    using conn_inv_connecting[OF inv st] by blast
  have m: "mset (closed s @ handed s @ [fd]) = mset [0..<created s]"
    and d: "delays s = map backoff [0..<length (delays s)]" "retryDelayMs s = backoff (length (delays s))"
    using inv ch st by (auto simp: conn_inv_def pending_socket_def)
  define s1 where "s1 = queue_functor ResetChannel (s'\<lparr>channel := Some (fd, False)\<rparr>)"
  have "removeAndResetChannel s' = Some (fd, s1)" using s' ch(1) by (auto simp: removeAndResetChannel_def s1_def)
  moreover have "conn_inv (retry fd s1)"
    using s' ch m d unfolding conn_inv_def s1_def
    by (cases "connect_flag s") (auto simp: conn_ops count_list_0_iff)
  moreover have "conn_state (retry fd s1) = kDisconnected" "handed (retry fd s1) = handed s"
    using s' by (auto simp: s1_def conn_ops)
  ultimately show ?thesis by blast
qed

lemma startInLoop_inv:
  assumes inv: "conn_inv s" and st: "conn_state s = kDisconnected" and q: "pending_starts s = 0"
    and ch: "channel s = None"
  shows "\<exists>s'. startInLoop e s = Some s' \<and> conn_inv s' \<and> handed s' = handed s"
proof -
  have d: "delays s = map backoff [0..<length (delays s)]" "retryDelayMs s = backoff (length (delays s))"
    and r: "ResetChannel \<notin> set (conn_queue s)"
    using inv ch by (auto simp: conn_inv_def count_list_0_iff)
  show ?thesis using inv st q ch d r
    by (auto simp: startInLoop_def connect_def conn_inv_def conn_ops count_list_0_iff)
qed

lemma restart_inv:
  assumes "conn_inv s" and "conn_state s = kConnected" and "ResetChannel \<notin> set (conn_queue s)"
  shows "\<exists>s'. restart e s = Some s' \<and> conn_inv s' \<and> handed s' = handed s"
proof -
  let ?s = "s\<lparr>conn_state := kDisconnected, retryDelayMs := kInitRetryDelayMs, delays := [], connect_flag := True\<rparr>"
  have "channel s = None"
    using assms by (cases "channel s") (auto simp: conn_inv_def count_list_0_iff split: if_splits)
  then have "conn_inv ?s" "pending_starts ?s = 0" "channel ?s = None"
    using assms by (auto simp: conn_inv_def pending_socket_def pending_starts_def)
  then show ?thesis using startInLoop_inv[of ?s e] by (simp add: restart_def)
qed

lemma stop_inv: "conn_inv s \<Longrightarrow> conn_inv (stop s)"
  by (auto simp: conn_inv_def stop_def conn_ops)

lemma conn_handleError_inv:
  assumes "conn_inv s"
  shows "\<exists>s'. conn_handleError s = Some s' \<and> conn_inv s' \<and> handed s' = handed s \<and>
    (conn_state s = kConnecting \<longrightarrow> conn_state s' = kDisconnected)"
  using assms remove_retry_inv[OF assms, of s] by (auto simp: conn_handleError_def)

lemma stopInLoop_inv:
  assumes "conn_inv s"
  shows "\<exists>s'. stopInLoop s = Some s' \<and> conn_inv s' \<and> handed s' = handed s \<and>
    (conn_state s' = conn_state s \<or> conn_state s = kConnecting)"
  using assms remove_retry_inv[OF assms, of "s\<lparr>conn_state := kDisconnected\<rparr>"] by (auto simp: stopInLoop_def)

lemma resetChannel_inv:
  assumes inv: "conn_inv s" and q: "conn_queue s = ResetChannel # fs"
  shows "\<exists>s'. resetChannel (s\<lparr>conn_queue := fs\<rparr>) = Some s' \<and> conn_inv s' \<and> handed s' = handed s \<and>
    conn_state s' = conn_state s"
proof -
  obtain fd where ch: "channel s = Some (fd, False)" using inv q by (auto simp: conn_inv_def split: if_splits)
  have "ResetChannel \<notin> set fs" using inv q ch by (auto simp: conn_inv_def count_list_0_iff)
  then show ?thesis using inv q ch
    by (auto simp: resetChannel_def conn_inv_def pending_socket_def pending_starts_def count_list_0_iff)
qed

lemma conn_handleWrite_inv:
  assumes inv: "conn_inv s" and st: "conn_state s \<noteq> kConnected"
  shows "\<exists>s' new. conn_handleWrite err selfConnect s = Some (s', new) \<and> conn_inv s' \<and>
    handed s' = handed s @ (case new of None \<Rightarrow> [] | Some fd \<Rightarrow> [fd]) \<and> (new \<noteq> None \<longrightarrow> conn_state s' = kConnected)"
proof (cases "conn_state s = kConnecting \<and> err = 0 \<and> \<not> selfConnect")
  case True
  then have st: "conn_state s = kConnecting" by simp
  obtain fd where ch: "channel s = Some (fd, True)" "ResetChannel \<notin> set (conn_queue s)" "pending_starts s = 0"
    using conn_inv_connecting[OF inv st] by blast
  have m: "mset (closed s @ handed s @ [fd]) = mset [0..<created s]"
    and d: "delays s = map backoff [0..<length (delays s)]" "retryDelayMs s = backoff (length (delays s))"
    using inv ch st by (auto simp: conn_inv_def pending_socket_def)
  show ?thesis using True ch m d
    by (cases "connect_flag s") (auto simp: conn_handleWrite_def conn_inv_def conn_ops count_list_0_iff)
next
  case False
  show ?thesis
  proof (cases "conn_state s = kConnecting")
    case True
    then show ?thesis using False remove_retry_inv[OF inv True, of s] by (auto simp: conn_handleWrite_def)
  next
    case False
    then show ?thesis using inv st by (cases "conn_state s") (auto simp: conn_handleWrite_def)
  qed
qed

lemma conn_inv_distinct:
  assumes "conn_inv s"
  shows "distinct (closed s @ handed s @ pending_socket s)"
proof -
  have "mset (closed s @ handed s @ pending_socket s) = mset [0..<created s]" using assms by (simp add: conn_inv_def)
  then show ?thesis using mset_eq_imp_distinct_iff distinct_upt by blast
qed

lemma client_inv_update:
  assumes "client_inv c" and "established c' = established c" "destroying c' = destroying c" "connection c' = connection c"
    and "conn_inv (connector c')" and "handed (connector c') = handed (connector c)"
    and "connection c \<noteq> None \<Longrightarrow> conn_state (connector c') = kConnected"
    and "connect_calls c' = 0 \<Longrightarrow> conn_state (connector c') = kDisconnected \<and> channel (connector c') = None \<and>
      pending_starts (connector c') = 0"
  shows "client_inv c'"
  using assms unfolding client_inv_def by metis

lemma client_inv_connector:
  assumes "client_inv c" and "conn_inv k" and "handed k = handed (connector c)"
    and "connection c \<noteq> None \<Longrightarrow> conn_state k = kConnected"
    and "connect_calls c = 0 \<Longrightarrow> conn_state k = kDisconnected \<and> channel k = None \<and> pending_starts k = 0"
  shows "client_inv (c\<lparr>connector := k\<rparr>)"
  by (rule client_inv_update[OF assms(1)]) (use assms in simp_all)

lemma connect_inv:
  assumes inv: "client_inv c" and n: "connect_calls c = 0"
  shows "\<exists>c'. client_connect_call e c = Some c' \<and> client_inv c'" "client_inv (client_connect_other c)"
proof -
  let ?k = "(connector c)\<lparr>connect_flag := True\<rparr>"
  have st: "conn_state ?k = kDisconnected" "channel ?k = None" "pending_starts ?k = 0" "conn_inv ?k"
    using inv n by (auto simp: client_inv_def conn_inv_def pending_starts_def pending_socket_def)
  have nc: "connection c = None" using inv n by (auto simp: client_inv_def)
  obtain k where k: "startInLoop e ?k = Some k" "conn_inv k" "handed k = handed (connector c)"
    using startInLoop_inv[OF st(4,1,3,2)] by auto
  show "\<exists>c'. client_connect_call e c = Some c' \<and> client_inv c'"
    using k nc by (auto simp: client_connect_call_def start_def intro!: client_inv_update[OF inv])
  have "conn_inv (start_other (connector c))"
    using st by (auto simp: start_other_def queue_functor_def conn_inv_def pending_starts_def pending_socket_def)
  then show "client_inv (client_connect_other c)"
    using nc by (auto simp: client_connect_other_def start_other_def queue_functor_def intro!: client_inv_update[OF inv])
qed

lemma queued_inv:
  assumes inv: "client_inv c" and q: "conn_queue (connector c) = f # fs"
  shows "\<exists>k. run_conn_functor e f ((connector c)\<lparr>conn_queue := fs\<rparr>) = Some k \<and> client_inv (c\<lparr>connector := k\<rparr>)"
proof -
  let ?k = "(connector c)\<lparr>conn_queue := fs\<rparr>"
  have ci: "conn_inv (connector c)" using inv by (simp add: client_inv_def)
  show ?thesis
  proof (cases f)
    case StartInLoop
    then have st: "conn_state ?k = kDisconnected" "pending_starts ?k = 0" "channel ?k = None"
      using ci q by (auto simp: conn_inv_def pending_starts_def)
    moreover have "conn_inv ?k" using ci q st StartInLoop
      by (auto simp: conn_inv_def pending_starts_def pending_socket_def)
    ultimately obtain k where k: "startInLoop e ?k = Some k" "conn_inv k" "handed k = handed (connector c)"
      using startInLoop_inv[of ?k e] by auto
    have "0 < connect_calls c" using inv q StartInLoop by (auto simp: client_inv_def pending_starts_def)
    then have "client_inv (c\<lparr>connector := k\<rparr>)"
      using client_inv_connector[OF inv k(2,3)] inv st(1) by (auto simp: client_inv_def)
    then show ?thesis using k(1) StartInLoop by simp
  next
    case StopInLoop
    then have ki: "conn_inv ?k" using ci q by (auto simp: conn_inv_def pending_starts_def pending_socket_def)
    obtain k where k: "stopInLoop ?k = Some k" "conn_inv k" "handed k = handed (connector c)"
      "conn_state k = conn_state ?k \<or> conn_state ?k = kConnecting"
      using stopInLoop_inv[OF ki] by auto
    have z: "connect_calls c = 0 \<Longrightarrow> k = ?k" using k(1) inv by (auto simp: client_inv_def stopInLoop_def)
    have "client_inv (c\<lparr>connector := k\<rparr>)"
    proof (rule client_inv_connector[OF inv k(2,3)])
      show "connection c \<noteq> None \<Longrightarrow> conn_state k = kConnected" using k(4) inv by (auto simp: client_inv_def)
      show "connect_calls c = 0 \<Longrightarrow> conn_state k = kDisconnected \<and> channel k = None \<and> pending_starts k = 0"
        using z inv q StopInLoop by (auto simp: client_inv_def pending_starts_def)
    qed
    then show ?thesis using k(1) StopInLoop by simp
  next
    case ResetChannel
    then obtain k where k: "resetChannel ?k = Some k" "conn_inv k" "handed k = handed (connector c)"
      "conn_state k = conn_state (connector c)"
      using resetChannel_inv[OF ci] q by blast
    have "channel (connector c) \<noteq> None" using ci q ResetChannel by (auto simp: conn_inv_def split: if_splits)
    then have "client_inv (c\<lparr>connector := k\<rparr>)"
      using client_inv_connector[OF inv k(2,3)] k(4) inv by (auto simp: client_inv_def)
    then show ?thesis using k(1) ResetChannel by simp
  qed
qed

lemma timer_inv:
  assumes inv: "client_inv c" and q: "retry_timers (connector c) = Suc n"
    and r: "ResetChannel \<notin> set (conn_queue (connector c))"
  shows "\<exists>k. startInLoop e ((connector c)\<lparr>retry_timers := n\<rparr>) = Some k \<and> client_inv (c\<lparr>connector := k\<rparr>)"
proof -
  let ?k = "(connector c)\<lparr>retry_timers := n\<rparr>"
  have ci: "conn_inv (connector c)" using inv by (simp add: client_inv_def)
  have st: "conn_state ?k = kDisconnected" "pending_starts ?k = 0"
    using ci q by (auto simp: conn_inv_def pending_starts_def)
  have ch: "channel ?k = None"
    using ci st r by (cases "channel (connector c)") (auto simp: conn_inv_def count_list_0_iff split: if_splits)
  have ki: "conn_inv ?k" using ci q st by (auto simp: conn_inv_def pending_starts_def pending_socket_def)
  obtain k where k: "startInLoop e ?k = Some k" "conn_inv k" "handed k = handed (connector c)"
    using startInLoop_inv[OF ki st ch] by auto
  have "0 < connect_calls c" using inv q by (auto simp: client_inv_def pending_starts_def)
  then have "client_inv (c\<lparr>connector := k\<rparr>)"
    using client_inv_connector[OF inv k(2,3)] inv st(1) by (auto simp: client_inv_def)
  then show ?thesis using k(1) by simp
qed

lemma event_inv:
  assumes inv: "client_inv c" and ch: "channel (connector c) = Some (fd, True)"
  shows "\<exists>c'. client_handleEvent error writable err selfConnect c = Some c' \<and> client_inv c'"
proof -
  have ci: "conn_inv (connector c)" using inv by (simp add: client_inv_def)
  then have st: "conn_state (connector c) = kConnecting" using ch by (auto simp: conn_inv_def)
  have nc: "connection c = None" and cc: "0 < connect_calls c" using inv st by (auto simp: client_inv_def)
  obtain k where k: "(if error then conn_handleError (connector c) else Some (connector c)) = Some k" "conn_inv k"
    "handed k = handed (connector c)" "conn_state k \<noteq> kConnected"
    using conn_handleError_inv[OF ci] ci st by (cases error) auto
  obtain k' new where k': "conn_handleWrite err selfConnect k = Some (k', new)" "conn_inv k'"
    "handed k' = handed k @ (case new of None \<Rightarrow> [] | Some fd \<Rightarrow> [fd])" "new \<noteq> None \<longrightarrow> conn_state k' = kConnected"
    using conn_handleWrite_inv[OF k(2,4)] by blast
  have d: "distinct (handed k')" using conn_inv_distinct[OF k'(2)] by simp
  show ?thesis
  proof (cases writable)
    case False
    then show ?thesis using k client_inv_connector[OF inv k(2,3)] nc cc by (simp add: client_handleEvent_def)
  next
    case True
    then have "client_handleEvent error writable err selfConnect c =
        Some (case new of None \<Rightarrow> c\<lparr>connector := k'\<rparr> | Some sockfd \<Rightarrow> newConnection sockfd (c\<lparr>connector := k'\<rparr>))"
      using k k' by (simp add: client_handleEvent_def Let_def)
    moreover have "client_inv (case new of None \<Rightarrow> c\<lparr>connector := k'\<rparr> | Some sockfd \<Rightarrow> newConnection sockfd (c\<lparr>connector := k'\<rparr>))"
    proof (cases new)
      case None
      then show ?thesis using client_inv_connector[OF inv k'(2)] k'(3) k(3) nc cc by simp
    next
      case (Some n)
      have e: "established c = handed (connector c)" "distinct (destroying c)"
        "set (established c) = set (destroying c) \<union> set_option (connection c)"
        using inv unfolding client_inv_def by blast+
      have h: "handed k' = established c @ [n]" "conn_state k' = kConnected" "n \<notin> set (established c)"
        using k'(3,4) k(3) Some d e(1) by simp_all
      show ?thesis unfolding client_inv_def using h k'(2) cc e(2,3) nc by (simp add: Some newConnection_def)
    qed
    ultimately show ?thesis by blast
  qed
qed

lemma removeConnection_inv:
  assumes inv: "client_inv c" and conn: "conn \<in> set (established c)" "conn \<notin> set (destroying c)"
    and r: "ResetChannel \<notin> set (conn_queue (connector c))"
  shows "\<exists>c'. removeConnection e conn c = Some c' \<and> client_inv c'"
proof -
  have c: "connection c = Some conn" using inv conn by (auto simp: client_inv_def)
  have ci: "conn_inv (connector c)" and st: "conn_state (connector c) = kConnected"
    using inv c by (auto simp: client_inv_def)
  obtain k where k: "restart e (connector c) = Some k" "conn_inv k" "handed k = handed (connector c)"
    using restart_inv[OF ci st r] by blast
  have cc: "0 < connect_calls c" using inv st by (auto simp: client_inv_def)
  have e: "established c = handed (connector c)" "distinct (destroying c)"
    "set (established c) = set (destroying c) \<union> set_option (connection c)"
    using inv unfolding client_inv_def by blast+
  define c1 where "c1 = (\<lambda>k. c\<lparr>connection := None, destroying := destroying c @ [conn], connector := k\<rparr>)"
  have "client_inv (c1 k)" if "conn_inv k" "handed k = handed (connector c)" for k
    unfolding client_inv_def using that cc e(2,3) conn(2) c by (simp add: c1_def e(1)[symmetric])
  moreover have "removeConnection e conn c = Some (c1 (if retry_flag c \<and> client_connect c then k else connector c))"
    using c k(1) by (simp add: removeConnection_def c1_def Let_def)
  ultimately show ?thesis using k(2,3) ci by auto
qed

lemma client_step_inv:
  assumes "client_step c r" and inv: "client_inv c"
  shows "\<exists>c'. r = Some c' \<and> client_inv c'"
  using assms(1)
proof cases
  case stop
  have "conn_inv (stop (connector c))" using inv stop_inv by (simp add: client_inv_def)
  then have "client_inv (client_stop c)" using inv
    by (auto simp: client_stop_def Tcp_Client.stop_def queue_functor_def pending_starts_def client_inv_def
        intro!: client_inv_update[OF inv])
  then show ?thesis using stop by simp
next
  case disconnect
  have "client_inv (disconnect c)" using inv
    by (auto simp: disconnect_def Let_def client_inv_def intro!: client_inv_update[OF inv] split: option.split)
  then show ?thesis using disconnect by simp
next
  case (queued f fs e)
  then show ?thesis using queued_inv[OF inv queued(2)] by force
next
  case (timer n e)
  then show ?thesis using timer_inv[OF inv timer(2,3)] by force
qed (use connect_inv[OF inv] event_inv[OF inv] removeConnection_inv[OF inv] in simp_all)

lemma client_reach_inv: "client_reach c \<Longrightarrow> client_inv c"
proof (induction rule: client_reach.induct)
  case (init rt)
  then show ?case by (simp add: new_TcpClient_def new_Connector_def client_inv_def conn_inv_def pending_starts_def
        pending_socket_def)
next
  case (step c c')
  then show ?case using client_step_inv by blast
qed

section \<open>Properties\<close>

text \<open>A client whose first attempt is refused and whose second succeeds.\<close>

definition refused_client :: client where
  "refused_client = the (do {
     c \<leftarrow> client_connect_call 115 (new_TcpClient True);
     client_handleEvent False True 111 False c
   })"

definition connected_client :: client where
  "connected_client = the (do {
     k \<leftarrow> resetChannel ((connector refused_client)\<lparr>conn_queue := []\<rparr>);
     k \<leftarrow> startInLoop 115 (k\<lparr>retry_timers := 0\<rparr>);
     client_handleEvent False True 0 False (refused_client\<lparr>connector := k\<rparr>)
   })"

lemmas client_eval = client_connect_call_def start_def startInLoop_def connect_def errno_connecting_def errno_retry_def
  new_TcpClient_def new_Connector_def client_handleEvent_def conn_handleWrite_def conn_ops newConnection_def
  resetChannel_def

lemma refused_client_eq:
  "refused_client = \<lparr>connector = \<lparr>connect_flag = True, conn_state = kDisconnected, channel = Some (0, False),
       retryDelayMs = 1000, conn_queue = [ResetChannel], retry_timers = 1, created = 1, closed = [0], handed = [],
       delays = [500]\<rparr>, retry_flag = True, client_connect = True, nextConnId = 1, connection = None,
     connect_calls = 1, established = [], destroying = [], shutdowns = []\<rparr>"
  by (simp add: refused_client_def client_eval kInitRetryDelayMs_def kMaxRetryDelayMs_def)

lemma connected_client_eq:
  "connected_client = \<lparr>connector = \<lparr>connect_flag = True, conn_state = kConnected, channel = Some (1, False),
       retryDelayMs = 1000, conn_queue = [ResetChannel], retry_timers = 0, created = 2, closed = [0], handed = [1],
       delays = [500]\<rparr>, retry_flag = True, client_connect = True, nextConnId = 2, connection = Some 1,
     connect_calls = 1, established = [1], destroying = [], shutdowns = []\<rparr>"
  by (simp add: connected_client_def refused_client_eq client_eval)

lemma refused_client_reach: "client_reach refused_client"
proof -
  obtain c where c: "client_connect_call 115 (new_TcpClient True) = Some c" "connector c = \<lparr>connect_flag = True,
      conn_state = kConnecting, channel = Some (0, True), retryDelayMs = 500, conn_queue = [], retry_timers = 0,
      created = 1, closed = [], handed = [], delays = []\<rparr>"
    by (simp add: client_eval kInitRetryDelayMs_def)
  have "client_reach c"
    using client_reach.step[OF client_reach.init, of True c] client_step.connect[of "new_TcpClient True" 115] c(1)
    by (simp add: new_TcpClient_def)
  moreover have "client_handleEvent False True 111 False c = Some refused_client"
    using c by (auto simp: refused_client_def client_handleEvent_def conn_handleWrite_def conn_ops)
  ultimately show ?thesis using client_reach.step client_step.event[of c 0 False True 111 False] c(2) by auto
qed

lemma connected_client_reach: "client_reach connected_client"
proof -
  obtain k1 where k1: "resetChannel ((connector refused_client)\<lparr>conn_queue := []\<rparr>) = Some k1"
    "retry_timers k1 = 1" "conn_queue k1 = []"
    by (simp add: refused_client_eq resetChannel_def)
  define c1 where "c1 = refused_client\<lparr>connector := k1\<rparr>"
  have "client_step refused_client (Some c1)"
    using client_step.queued[of refused_client ResetChannel "[]" 0] k1 by (simp add: refused_client_eq c1_def)
  then have r1: "client_reach c1" using client_reach.step refused_client_reach by blast
  obtain k2 where k2: "startInLoop 115 (k1\<lparr>retry_timers := 0\<rparr>) = Some k2" "channel k2 = Some (1, True)"
    using k1 by (auto simp: refused_client_eq client_eval)
  define c2 where "c2 = refused_client\<lparr>connector := k2\<rparr>"
  have "client_step c1 (Some c2)"
    using client_step.timer[of c1 0 115] k1 k2 by (simp add: c1_def c2_def)
  then have r2: "client_reach c2" using client_reach.step r1 by blast
  have "client_handleEvent False True 0 False c2 = Some connected_client"
    using k1 k2 by (auto simp: connected_client_def c2_def client_handleEvent_def conn_handleWrite_def conn_ops
        refused_client_eq resetChannel_def startInLoop_def connect_def errno_connecting_def)
  then show ?thesis using client_reach.step[OF r2] client_step.event[of c2 1 False True 0 False] k2(2) by (simp add: c2_def)
qed

text \<open>
  C8. Every socket a connector has created is, at every moment, in exactly one place: it is the one
  being connected, or it was handed to the client as a connection once, or it was closed once.  The
  established connections are those that were handed over, and each is destroyed at most once.
\<close>

theorem connector_sockets:
  assumes "client_reach c"
  shows "mset (closed (connector c) @ handed (connector c) @ pending_socket (connector c)) = mset [0..<created (connector c)] \<and>
    established c = handed (connector c) \<and> distinct (destroying c) \<and>
    set (established c) - set (destroying c) = set_option (connection c)"
  using client_reach_inv[OF assms] unfolding client_inv_def conn_inv_def by blast

theorem connector_sockets_witness:
  "client_reach connected_client \<and> mset ([0] @ [1] @ []) = mset [0..<2::nat] \<and> established connected_client = [1]"
  using connector_sockets[OF connected_client_reach] connected_client_reach
  by (simp add: connected_client_eq pending_socket_def add.commute)

text \<open>
  C31. A client that is asked to connect once never aborts, whatever the kernel answers and in whatever
  order the user stops or disconnects it, connections close, timers fire and the queue runs; the
  delays between its attempts since it last connected are 0.5 s, 1 s, 2 s and so on, up to 30 s.
\<close>

theorem client_safe:
  assumes "client_reach c" and "client_step c r"
  shows "r \<noteq> None \<and>
    delays (connector c) = map (\<lambda>k. min (kInitRetryDelayMs * 2 ^ k) kMaxRetryDelayMs) [0..<length (delays (connector c))]"
proof -
  have "backoff = (\<lambda>k. min (kInitRetryDelayMs * 2 ^ k) kMaxRetryDelayMs)" by (rule ext) (simp add: backoff_def)
  moreover have "delays (connector c) = map backoff [0..<length (delays (connector c))]"
    using client_reach_inv[OF assms(1)] unfolding client_inv_def conn_inv_def by blast
  ultimately show ?thesis using client_step_inv[OF assms(2) client_reach_inv[OF assms(1)]] by auto
qed

theorem client_safe_witness:
  "client_reach connected_client \<and> client_stop connected_client \<noteq> connected_client \<and> delays (connector connected_client) = [500]"
  using client_safe[OF connected_client_reach client_step.stop] connected_client_reach
  by (simp add: connected_client_eq kInitRetryDelayMs_def kMaxRetryDelayMs_def client_stop_def)

text \<open>
  Calling \<open>connect\<close> again is not safe, even after \<open>stop\<close>: a client that is stopped and asked to
  connect again while it waits to retry starts twice, and the timer's \<open>startInLoop\<close> fails its
  assertion.
\<close>

theorem client_reconnect_race:
  assumes "c1 = client_stop refused_client"
    and "k1 = (connector c1)\<lparr>conn_queue := []\<rparr>"
    and "resetChannel k1 = Some k2" and "stopInLoop k2 = Some k3"
    and "client_connect_call 115 (c1\<lparr>connector := k3\<rparr>) = Some c2"
  shows "conn_queue (connector c1) = [ResetChannel, StopInLoop] \<and> retry_timers (connector c2) = 1 \<and>
    conn_state (connector c2) = kConnecting \<and> startInLoop e ((connector c2)\<lparr>retry_timers := 0\<rparr>) = None"
  using assms by (auto simp: refused_client_eq client_stop_def stop_def stopInLoop_def client_eval)

theorem client_reconnect_race_witness:
  "\<exists>k2 k3 c2. resetChannel ((connector (client_stop refused_client))\<lparr>conn_queue := []\<rparr>) = Some k2 \<and> stopInLoop k2 = Some k3 \<and>
     client_connect_call 115 ((client_stop refused_client)\<lparr>connector := k3\<rparr>) = Some c2 \<and>
     startInLoop 0 ((connector c2)\<lparr>retry_timers := 0\<rparr>) = None"
proof -
  obtain k2 where k2: "resetChannel ((connector (client_stop refused_client))\<lparr>conn_queue := []\<rparr>) = Some k2"
    by (simp add: refused_client_eq client_stop_def resetChannel_def stop_def queue_functor_def)
  then obtain k3 where k3: "stopInLoop k2 = Some k3"
    by (auto simp: refused_client_eq client_stop_def resetChannel_def stop_def queue_functor_def stopInLoop_def)
  obtain c2 where c2: "client_connect_call 115 ((client_stop refused_client)\<lparr>connector := k3\<rparr>) = Some c2"
    using k2 k3 by (auto simp: refused_client_eq client_stop_def stop_def stopInLoop_def client_eval)
  show ?thesis using client_reconnect_race[OF refl refl k2 k3 c2] k2 k3 c2 by blast
qed

end
