(* ===== verification/Formatting.thy ===== *)
theory Formatting
  imports Main "HOL-Library.Signed_Division" "HOL-Library.Word"
begin

text \<open>
  What \<open>printf\<close> prints for integers, as far as the sources use it (\<open>%d\<close>, \<open>%02d\<close>, \<open>%x\<close>), and what
  \<open>atoi\<close>-like readers make of digits again.  The other theories compare the hand-written conversions
  of the library with these.
\<close>

definition digit_char :: "nat \<Rightarrow> char" where
  "digit_char d = char_of (if d < 10 then 48 + d else 55 + d)"

lemma digit_char_simps [simp]:
  "digit_char 0 = CHR ''0''" "digit_char (Suc 0) = CHR ''1''" "digit_char 2 = CHR ''2''" "digit_char 3
  = CHR ''3''" "digit_char 4 = CHR ''4''" "digit_char 5 = CHR ''5''" "digit_char 6 = CHR ''6''"
  "digit_char 7 = CHR ''7''" "digit_char 8 = CHR ''8''" "digit_char 9 = CHR ''9''" "digit_char 10 =
  CHR ''A''" "digit_char 11 = CHR ''B''" "digit_char 12 = CHR ''C''" "digit_char 13 = CHR ''D''"
  "digit_char 14 = CHR ''E''" "digit_char 15 = CHR ''F''"
  by code_simp+

fun show_base :: "nat \<Rightarrow> nat \<Rightarrow> string" where
  "show_base b n = (if n < b \<or> b < 2 then [digit_char n] else show_base b (n div b) @ [digit_char (n mod b)])"

declare show_base.simps [simp del]

abbreviation show_nat :: "nat \<Rightarrow> string" where "show_nat \<equiv> show_base 10"

definition show_int :: "int \<Rightarrow> string" where
  "show_int v = (if v < 0 then CHR ''-'' # show_nat (nat (- v)) else show_nat (nat v))"

text \<open>\<open>%0wd\<close> and \<open>%wd\<close> for a number that is not negative.\<close>

definition pad_left :: "char \<Rightarrow> nat \<Rightarrow> string \<Rightarrow> string" where
  "pad_left c w s = replicate (w - length s) c @ s"

definition digit_value :: "char \<Rightarrow> nat" where
  "digit_value c = (let n = of_char c in if n < 58 then n - 48 else n - 55)"

definition read_base :: "nat \<Rightarrow> string \<Rightarrow> nat" where
  "read_base b s = foldl (\<lambda>a c. a * b + digit_value c) 0 s"

lemma digit_value_char [simp]: "d < 16 \<Longrightarrow> digit_value (digit_char d) = d"
  by (simp add: digit_value_def digit_char_def Let_def)

lemma read_show_base:
  assumes "2 \<le> b" "b \<le> 16"
  shows "read_base b (show_base b n) = n"
  using assms
proof (induction b n rule: show_base.induct)
  case (1 b n)
  show ?case
  proof (cases "n < b")
    case True
    then show ?thesis using 1(3) by (simp add: show_base.simps read_base_def)
  next
    case False
    have "n mod b < 16" using 1(2,3) mod_less_divisor[of b n] by linarith
    moreover have "read_base b (show_base b (n div b)) = n div b" using 1 False by simp
    ultimately show ?thesis using False 1(2) by (subst show_base.simps) (simp add: read_base_def)
  qed
qed

lemma show_base_inj: "2 \<le> b \<Longrightarrow> b \<le> 16 \<Longrightarrow> show_base b m = show_base b n \<longleftrightarrow> m = n"
  using read_show_base by metis

lemma show_base_nonempty [simp]: "show_base b n \<noteq> []"
  by (subst show_base.simps) simp

text \<open>A number below \<open>b ^ k\<close> has at most \<open>k\<close> digits.\<close>

lemma length_show_base:
  assumes b: "2 \<le> b"
  shows "length (show_base b n) \<le> Suc k \<longleftrightarrow> n < b ^ Suc k"
proof (induction k arbitrary: n)
  case 0
  show ?case
  proof (cases "n < b")
    case True
    then show ?thesis by (simp add: show_base.simps)
  next
    case False
    then show ?thesis using b by (subst show_base.simps) simp
  qed
next
  case (Suc k)
  show ?case
  proof (cases "n < b")
    case True
    have "b \<le> b ^ Suc (Suc k)" using b by (intro self_le_power) auto
    then have "n < b ^ Suc (Suc k)" by (rule less_le_trans[OF True])
    then show ?thesis using True by (simp add: show_base.simps)
  next
    case False
    have "length (show_base b n) = Suc (length (show_base b (n div b)))"
      using False b by (subst show_base.simps) simp
    moreover have "n div b < b ^ Suc k \<longleftrightarrow> n < b ^ Suc k * b" using b by (simp add: div_less_iff_less_mult)
    ultimately show ?thesis using Suc.IH[of "n div b"] by (simp add: mult.commute)
  qed
qed

lemma show_base_digits: "c \<in> set (show_base b n) \<Longrightarrow> 2 \<le> b \<Longrightarrow> \<exists>d<b. c = digit_char d"
proof (induction b n rule: show_base.induct)
  case (1 b n)
  show ?case
  proof (cases "n < b")
    case True
    then show ?thesis using 1(2) by (auto simp: show_base.simps)
  next
    case False
    then have "c \<in> set (show_base b (n div b)) \<or> c = digit_char (n mod b)"
      using 1(2,3) by (subst (asm) show_base.simps) auto
    then show ?thesis
    proof
      assume "c \<in> set (show_base b (n div b))"
      then show ?thesis using 1 False by simp
    next
      assume "c = digit_char (n mod b)"
      moreover have "n mod b < b" using 1(3) by simp
      ultimately show ?thesis by blast
    qed
  qed
qed

end
