(* ===== verification/Tcp_Server.thy ===== *)
theory Tcp_Server
  imports Muduo_Prelude Formatting
begin

text \<open>
  The server's side: the pool of loops (\<open>muduo/net/EventLoopThreadPool.cc\<close>), the acceptor
  (\<open>Acceptor.cc\<close>) and \<open>TcpServer\<close> (\<open>TcpServer.cc\<close>).  A loop is a number, the base loop being 0, and
  every loop has the queue of what \<open>queueInLoop\<close> and \<open>runInLoop\<close> have given it for the server's
  connections.  A connection is its number in the order of acceptance; of its life
  (\<open>Tcp_Connection\<close>) the model keeps whether it was created, is up, is down or is destroyed.  \<open>alive\<close>
  is whether the server object exists: the functors hold a plain pointer to it.  \<open>None\<close> is a failed
  assertion or a use of the destroyed server.
\<close>

section \<open>EventLoopThreadPool\<close>

type_synonym loop_id = nat

record pool =
  pool_name :: string
  pool_started :: bool
  numThreads :: nat
  next_loop :: nat
  loops :: "loop_id list"
  thread_names :: "string list"
  inits :: "loop_id list"

definition new_EventLoopThreadPool :: "string \<Rightarrow> pool" where
  "new_EventLoopThreadPool nm = \<lparr>pool_name = nm, pool_started = False, numThreads = 0, next_loop = 0, loops = [],
     thread_names = [], inits = []\<rparr>"

text \<open>One turn of the loop that starts the threads; the new thread runs the callback on its loop.\<close>

fun start_threads :: "bool \<Rightarrow> nat list \<Rightarrow> pool \<Rightarrow> pool" where
  "start_threads cb [] p = p"
| "start_threads cb (i # is) p = start_threads cb is
     (p\<lparr>thread_names := thread_names p @ [pool_name p @ show_nat i], loops := loops p @ [i + 1],
        inits := (if cb then inits p @ [i + 1] else inits p)\<rparr>)"

definition pool_start :: "bool \<Rightarrow> pool \<Rightarrow> pool option" where
  "pool_start cb p = do {
     assert_that (\<not> pool_started p);
     let p1 = start_threads cb [0..<numThreads p] (p\<lparr>pool_started := True\<rparr>);
     Some (if numThreads p1 = 0 \<and> cb then p1\<lparr>inits := inits p1 @ [0]\<rparr> else p1)
   }"

definition getNextLoop :: "pool \<Rightarrow> (loop_id \<times> pool) option" where
  "getNextLoop p = do {
     assert_that (pool_started p);
     if loops p \<noteq> [] then do {
       assert_that (next_loop p < length (loops p));
       let loop = loops p ! next_loop p;
       let nxt = next_loop p + 1;
       Some (loop, p\<lparr>next_loop := (if nxt \<ge> length (loops p) then 0 else nxt)\<rparr>)
     } else Some (0, p)
   }"

definition getLoopForHash :: "nat \<Rightarrow> pool \<Rightarrow> loop_id" where
  "getLoopForHash hashCode p =
     (if loops p \<noteq> [] then loops p ! (hashCode mod length (loops p)) else 0)"

definition getAllLoops :: "pool \<Rightarrow> loop_id list option" where
  "getAllLoops p = do {
     assert_that (pool_started p);
     Some (if loops p = [] then [0] else loops p)
   }"

section \<open>Acceptor\<close>

record acceptor =
  listenning :: bool
  acc_reading :: bool
  acc_added :: bool
  idleFd :: int

datatype accept_result = Accepted int | AcceptErr int

definition EMFILE :: int where "EMFILE = 24"

datatype acc_action = NewConnection int | CloseFd int

definition new_Acceptor :: "int \<Rightarrow> acceptor option" where
  "new_Acceptor idle = do {
     assert_that (idle \<ge> 0);
     Some \<lparr>listenning = False, acc_reading = False, acc_added = False, idleFd = idle\<rparr>
   }"

definition listen :: "acceptor \<Rightarrow> acceptor" where
  "listen a = a\<lparr>listenning := True, acc_reading := True, acc_added := True\<rparr>"

text \<open>
  \<open>handleRead\<close> with the answers of \<open>accept\<close> and, when the process has run out of descriptors, of the
  second \<open>accept\<close> and of \<open>open\<close>; \<open>cb\<close> is whether the callback is set.
\<close>

definition acc_handleRead :: "bool \<Rightarrow> accept_result \<Rightarrow> int \<Rightarrow> int \<Rightarrow> acceptor \<Rightarrow> acc_action list \<times> acceptor" where
  "acc_handleRead cb r second opened a =
     (case r of
        Accepted connfd \<Rightarrow> ([if cb then NewConnection connfd else CloseFd connfd], a)
      | AcceptErr err \<Rightarrow>
          if err = EMFILE then ([CloseFd (idleFd a), CloseFd second], a\<lparr>idleFd := opened\<rparr>) else ([], a))"

text \<open>\<open>disableAll\<close> puts the channel into the loop, if it was not there, and \<open>remove\<close> takes it out.\<close>

definition delete_Acceptor :: "acceptor \<Rightarrow> acc_action list" where
  "delete_Acceptor a = [CloseFd (idleFd a)]"

section \<open>TcpServer\<close>

datatype conn_status = Created | Established | Down | Destroyed

datatype srv_functor = ConnectEstablished nat | RemoveConnectionInLoop nat | ConnectDestroyed nat

fun about :: "srv_functor \<Rightarrow> nat" where
  "about (ConnectEstablished k) = k"
| "about (RemoveConnectionInLoop k) = k"
| "about (ConnectDestroyed k) = k"

record conn =
  conn_name :: string
  conn_loop :: loop_id
  status :: conn_status

record server =
  name :: string
  ipPort :: string
  threadPool :: pool
  acceptor :: acceptor
  started :: bool
  nextConnId :: nat
  connections :: "string \<rightharpoonup> nat"
  conns :: "conn list"
  queues :: "loop_id \<Rightarrow> srv_functor list"
  alive :: bool

definition new_TcpServer :: "string \<Rightarrow> string \<Rightarrow> int \<Rightarrow> server option" where
  "new_TcpServer nm addr idle = do {
     a \<leftarrow> new_Acceptor idle;
     Some \<lparr>name = nm, ipPort = addr, threadPool = new_EventLoopThreadPool nm, acceptor = a, started = False,
           nextConnId = 1, connections = Map.empty, conns = [], queues = (\<lambda>_. []), alive = True\<rparr>
   }"

definition setThreadNum :: "int \<Rightarrow> server \<Rightarrow> server option" where
  "setThreadNum n s = do {
     assert_that (0 \<le> n);
     Some (s\<lparr>threadPool := (threadPool s)\<lparr>numThreads := nat n\<rparr>\<rparr>)
   }"

definition server_start :: "bool \<Rightarrow> server \<Rightarrow> server option" where
  "server_start cb s =
     (if \<not> started s then do {
        p \<leftarrow> pool_start cb (threadPool s);
        assert_that (\<not> listenning (acceptor s));
        Some (s\<lparr>started := True, threadPool := p, acceptor := listen (acceptor s)\<rparr>)
      } else Some s)"

text \<open>What a functor does, in the thread of the loop that runs it.\<close>

definition set_status :: "nat \<Rightarrow> conn_status \<Rightarrow> server \<Rightarrow> server" where
  "set_status k st s = s\<lparr>conns := (conns s)[k := (conns s ! k)\<lparr>status := st\<rparr>]\<rparr>"

definition enqueue :: "loop_id \<Rightarrow> srv_functor \<Rightarrow> server \<Rightarrow> server" where
  "enqueue l f s = s\<lparr>queues := (queues s)(l := queues s l @ [f])\<rparr>"

definition removeConnectionInLoop :: "nat \<Rightarrow> server \<Rightarrow> server option" where
  "removeConnectionInLoop k s = do {
     assert_that (alive s);
     assert_that (connections s (conn_name (conns s ! k)) \<noteq> None);
     let s1 = s\<lparr>connections := (connections s)(conn_name (conns s ! k) := None)\<rparr>;
     Some (enqueue (conn_loop (conns s ! k)) (ConnectDestroyed k) s1)
   }"

fun exec_functor :: "srv_functor \<Rightarrow> server \<Rightarrow> server option" where
  "exec_functor (ConnectEstablished k) s = do {
     assert_that (k < length (conns s) \<and> status (conns s ! k) = Created);
     Some (set_status k Established s)
   }"
| "exec_functor (ConnectDestroyed k) s = do {
     assert_that (k < length (conns s) \<and> (status (conns s ! k) = Established \<or> status (conns s ! k) = Down));
     Some (set_status k Destroyed s)
   }"
| "exec_functor (RemoveConnectionInLoop k) s = do {
     assert_that (k < length (conns s));
     removeConnectionInLoop k s
   }"

text \<open>\<open>runInLoop\<close> from the thread of the loop \<open>here\<close>.\<close>

definition runInLoop :: "loop_id \<Rightarrow> loop_id \<Rightarrow> srv_functor \<Rightarrow> server \<Rightarrow> server option" where
  "runInLoop here l f s = (if here = l then exec_functor f s else Some (enqueue l f s))"

text \<open>The name: \<open>snprintf\<close> into 64 characters, the last for the terminating zero.\<close>

definition connName :: "string \<Rightarrow> string \<Rightarrow> nat \<Rightarrow> string" where
  "connName nm addr n = nm @ take 63 (''-'' @ addr @ ''#'' @ show_nat n)"

definition newConnection :: "server \<Rightarrow> server option" where
  "newConnection s = do {
     (ioLoop, p) \<leftarrow> getNextLoop (threadPool s);
     let nm = connName (name s) (ipPort s) (nextConnId s);
     let k = length (conns s);
     let s1 = s\<lparr>threadPool := p, nextConnId := nextConnId s + 1,
                conns := conns s @ [\<lparr>conn_name = nm, conn_loop = ioLoop, status = Created\<rparr>],
                connections := (connections s)(nm \<mapsto> k)\<rparr>;
     runInLoop 0 ioLoop (ConnectEstablished k) s1
   }"

definition removeConnection :: "nat \<Rightarrow> server \<Rightarrow> server option" where
  "removeConnection k s = runInLoop (conn_loop (conns s ! k)) 0 (RemoveConnectionInLoop k) s"

text \<open>A connection closes in the thread of its loop: \<open>handleClose\<close> ends with the close callback.\<close>

definition conn_closes :: "nat \<Rightarrow> server \<Rightarrow> server option" where
  "conn_closes k s = removeConnection k (set_status k Down s)"

text \<open>The destructor, in the base loop's thread, over the connections in the order of the map.\<close>

fun destroy_all :: "nat list \<Rightarrow> server \<Rightarrow> server option" where
  "destroy_all [] s = Some s"
| "destroy_all (k # ks) s = do {
     s' \<leftarrow> runInLoop 0 (conn_loop (conns s ! k)) (ConnectDestroyed k) s;
     destroy_all ks s'
   }"

definition delete_TcpServer :: "nat list \<Rightarrow> server \<Rightarrow> server option" where
  "delete_TcpServer ks s = do {
     s' \<leftarrow> destroy_all ks s;
     Some (s'\<lparr>alive := False\<rparr>)
   }"

section \<open>Behaviour\<close>

text \<open>
  A running server: it accepts connections in the base loop, every loop runs its queue, and
  connections that are up close, in any interleaving.
\<close>

inductive server_step :: "server \<Rightarrow> server option \<Rightarrow> bool" where
  accepts: "acc_handleRead True r fd2 fd3 (acceptor s) = ([NewConnection fd], a) \<Longrightarrow>
    server_step s (newConnection (s\<lparr>acceptor := a\<rparr>))"
| runs: "queues s l = f # fs \<Longrightarrow> server_step s (exec_functor f (s\<lparr>queues := (queues s)(l := fs)\<rparr>))"
| closes: "k < length (conns s) \<Longrightarrow> status (conns s ! k) = Established \<Longrightarrow> server_step s (conn_closes k s)"

inductive server_reach :: "string \<Rightarrow> string \<Rightarrow> nat \<Rightarrow> server \<Rightarrow> bool" for nm addr threads where
  init: "new_TcpServer nm addr idle = Some s0 \<Longrightarrow> setThreadNum (int threads) s0 = Some s1 \<Longrightarrow>
    server_start cb s1 = Some s \<Longrightarrow> server_reach nm addr threads s"
| step: "server_reach nm addr threads s \<Longrightarrow> server_step s (Some s') \<Longrightarrow> server_reach nm addr threads s'"

section \<open>Invariant\<close>

text \<open>The functors about a connection in each queue, and what its status makes of them and of the map.\<close>

definition pend :: "(loop_id \<Rightarrow> srv_functor list) \<Rightarrow> nat \<Rightarrow> loop_id \<Rightarrow> srv_functor list" where
  "pend q k = (\<lambda>l. filter (\<lambda>f. about f = k) (q l))"

definition conn_ok :: "nat \<Rightarrow> conn \<Rightarrow> (loop_id \<Rightarrow> srv_functor list) \<Rightarrow> nat option \<Rightarrow> bool" where
  "conn_ok k c pd m \<longleftrightarrow>
     (case status c of
        Created \<Rightarrow> pd = (\<lambda>_. [])(conn_loop c := [ConnectEstablished k]) \<and> m = Some k
      | Established \<Rightarrow> pd = (\<lambda>_. []) \<and> m = Some k
      | Down \<Rightarrow> pd = (\<lambda>_. [])(0 := [RemoveConnectionInLoop k]) \<and> m = Some k \<or>
          pd = (\<lambda>_. [])(conn_loop c := [ConnectDestroyed k]) \<and> m = None
      | Destroyed \<Rightarrow> pd = (\<lambda>_. []) \<and> m = None)"

definition round_robin :: "nat \<Rightarrow> nat \<Rightarrow> loop_id" where
  "round_robin n k = (if n = 0 then 0 else k mod n + 1)"

definition max_conns :: nat where
  "max_conns = 2 ^ 31 - 2"

definition pool_ok :: "nat \<Rightarrow> nat \<Rightarrow> pool \<Rightarrow> bool" where
  "pool_ok n k p \<longleftrightarrow> pool_started p \<and> loops p = map Suc [0..<n] \<and> next_loop p = (if n = 0 then 0 else k mod n)"

definition server_inv :: "string \<Rightarrow> string \<Rightarrow> nat \<Rightarrow> server \<Rightarrow> bool" where
  "server_inv nm addr n s \<longleftrightarrow> alive s \<and> name s = nm \<and> ipPort s = addr \<and> length addr \<le> 51 \<and>
     length (conns s) \<le> max_conns \<and> nextConnId s = length (conns s) + 1 \<and> pool_ok n (length (conns s)) (threadPool s) \<and>
     (\<forall>k < length (conns s). conn_name (conns s ! k) = connName nm addr (k + 1) \<and>
        conn_loop (conns s ! k) = round_robin n k \<and>
        conn_ok k (conns s ! k) (pend (queues s) k) (connections s (connName nm addr (k + 1)))) \<and>
     (\<forall>k \<ge> length (conns s). pend (queues s) k = (\<lambda>_. []) \<and> (k < max_conns \<longrightarrow> connections s (connName nm addr (k + 1)) = None))"

lemma connName_inj:
  assumes "length addr \<le> 51" and "j \<le> max_conns" and "k \<le> max_conns"
  shows "connName nm addr (j + 1) = connName nm addr (k + 1) \<longleftrightarrow> j = k"
proof -
  have len: "length (show_nat (i + 1)) \<le> 10" if "i \<le> max_conns" for i
    using length_show_base[of 10 "i + 1" 9] that by (simp add: max_conns_def)
  have "take 63 (''-'' @ addr @ ''#'' @ show_nat (i + 1)) = ''-'' @ addr @ ''#'' @ show_nat (i + 1)"
    if "i \<le> max_conns" for i
    using assms(1) len[OF that] by (intro take_all) simp
  then show ?thesis using assms(2,3) show_base_inj[of 10 "j + 1" "k + 1"] by (simp add: connName_def)
qed

lemma pend_append: "pend (q(l := q l @ [f])) k = (if about f = k then (pend q k)(l := pend q k l @ [f]) else pend q k)"
  by (auto simp: pend_def)

lemma pend_pop: "q l = f # fs \<Longrightarrow>
  pend (q(l := fs)) k = (if about f = k then (pend q k)(l := tl (pend q k l)) else pend q k)"
  by (auto simp: pend_def)

lemma pend_head: "q l = f # fs \<Longrightarrow> pend q (about f) l = f # filter (\<lambda>g. about g = about f) fs"
  by (simp add: pend_def)

lemma status_same [simp]: "status c = st \<Longrightarrow> c\<lparr>status := st\<rparr> = c"
  by (cases c) simp

text \<open>A step that concerns one connection only.\<close>

lemma server_inv_change:
  assumes inv: "server_inv nm addr n s" and k: "k < length (conns s)"
    and same: "alive s' = alive s" "name s' = name s" "ipPort s' = ipPort s" "threadPool s' = threadPool s"
      "nextConnId s' = nextConnId s"
    and c: "conns s' = (conns s)[k := (conns s ! k)\<lparr>status := st\<rparr>]"
    and pd: "\<And>j. j \<noteq> k \<Longrightarrow> pend (queues s') j = pend (queues s) j"
    and m: "connections s' = (connections s)(connName nm addr (k + 1) := v)"
    and ok: "conn_ok k ((conns s ! k)\<lparr>status := st\<rparr>) (pend (queues s') k) v"
  shows "server_inv nm addr n s'"
proof -
  have inj: "connName nm addr (j + 1) \<noteq> connName nm addr (k + 1)" if "j \<le> max_conns" "j \<noteq> k" for j
    using connName_inj[of addr j k nm] inv k that by (auto simp: server_inv_def)
  have old: "conn_ok j (conns s ! j) (pend (queues s) j) (connections s (connName nm addr (j + 1)))" if "j < length (conns s)" for j
    using inv that by (simp add: server_inv_def)
  have le: "length (conns s) \<le> max_conns" using inv by (simp add: server_inv_def)
  have "conn_ok j (conns s' ! j) (pend (queues s') j) (connections s' (connName nm addr (j + 1)))" if j: "j < length (conns s)" for j
  proof (cases "j = k")
    case True
    then show ?thesis using ok k c m by simp
  next
    case False
    then show ?thesis using old[OF j] inj[of j] j le c m pd[OF False] by simp
  qed
  moreover have "connections s' (connName nm addr (j + 1)) = connections s (connName nm addr (j + 1))"
    if "length (conns s) \<le> j" "j < max_conns" for j
    using inj[of j] that k m by simp
  ultimately show ?thesis
    using inv same c pd k by (auto simp: server_inv_def nth_list_update)
qed

lemma exec_functor_inv:
  assumes inv: "server_inv nm addr n s" and q: "queues s l = f # fs"
  shows "\<exists>s'. exec_functor f (s\<lparr>queues := (queues s)(l := fs)\<rparr>) = Some s' \<and> server_inv nm addr n s'"
proof -
  define k where "k = about f"
  let ?s = "s\<lparr>queues := (queues s)(l := fs)\<rparr>"
  have hd: "pend (queues s) k l = f # filter (\<lambda>g. about g = k) fs" using pend_head[of "queues s", OF q] by (simp add: k_def)
  have k: "k < length (conns s)"
  proof (rule ccontr)
    assume "\<not> k < length (conns s)"
    then have "pend (queues s) k = (\<lambda>_. [])" using inv by (simp add: server_inv_def)
    then show False using hd by simp
  qed
  have nm: "conn_name (conns s ! k) = connName nm addr (k + 1)" and al: "alive s"
    and ok: "conn_ok k (conns s ! k) (pend (queues s) k) (connections s (connName nm addr (k + 1)))"
    using inv k by (auto simp: server_inv_def)
  have pop: "pend ((queues s)(l := fs)) j = (if k = j then (pend (queues s) j)(l := tl (pend (queues s) j l)) else pend (queues s) j)" for j
    using pend_pop[of "queues s", OF q] by (simp add: k_def)
  show ?thesis
  proof (cases "status (conns s ! k)")
    case Created
    then have f: "f = ConnectEstablished k" "pend (queues s) k = (\<lambda>_. [])(conn_loop (conns s ! k) := [ConnectEstablished k])"
      "l = conn_loop (conns s ! k)" "connections s (connName nm addr (k + 1)) = Some k"
      using ok hd by (auto simp: conn_ok_def fun_upd_def split: if_splits)
    have "server_inv nm addr n (set_status k Established ?s)"
      by (rule server_inv_change[OF inv k, where v = "Some k" and st = Established])
        (use f pop in \<open>auto simp: set_status_def conn_ok_def fun_upd_idem\<close>)
    then show ?thesis using f(1) k Created by simp
  next
    case Established
    then show ?thesis using ok hd by (auto simp: conn_ok_def)
  next
    case Destroyed
    then show ?thesis using ok hd by (auto simp: conn_ok_def)
  next
    case Down
    then consider "pend (queues s) k = (\<lambda>_. [])(0 := [RemoveConnectionInLoop k])" "connections s (connName nm addr (k + 1)) = Some k"
      | "pend (queues s) k = (\<lambda>_. [])(conn_loop (conns s ! k) := [ConnectDestroyed k])" "connections s (connName nm addr (k + 1)) = None"
      using ok by (auto simp: conn_ok_def)
    then show ?thesis
    proof cases
      case 1
      then have f: "f = RemoveConnectionInLoop k" "l = 0" using hd by (auto split: if_splits)
      let ?t = "enqueue (conn_loop (conns s ! k)) (ConnectDestroyed k)
        (?s\<lparr>connections := (connections s)(connName nm addr (k + 1) := None)\<rparr>)"
      have "server_inv nm addr n ?t"
        by (rule server_inv_change[OF inv k, where v = None and st = Down])
          (use 1 f pop Down pend_append[of "(queues s)(l := fs)"] in \<open>auto simp: conn_ok_def enqueue_def\<close>)
      then show ?thesis using f k nm al 1(2) by (simp add: removeConnectionInLoop_def)
    next
      case 2
      then have f: "f = ConnectDestroyed k" "l = conn_loop (conns s ! k)" using hd by (auto split: if_splits)
      have "server_inv nm addr n (set_status k Destroyed ?s)"
        by (rule server_inv_change[OF inv k, where v = None and st = Destroyed])
          (use 2 f pop in \<open>auto simp: set_status_def conn_ok_def fun_upd_idem\<close>)
      then show ?thesis using f(1) k Down by simp
    qed
  qed
qed

lemma conn_closes_inv:
  assumes inv: "server_inv nm addr n s" and k: "k < length (conns s)" and st: "status (conns s ! k) = Established"
  shows "\<exists>s'. conn_closes k s = Some s' \<and> server_inv nm addr n s'"
proof -
  have nm: "conn_name (conns s ! k) = connName nm addr (k + 1)" and al: "alive s"
    and ok: "pend (queues s) k = (\<lambda>_. [])" "connections s (connName nm addr (k + 1)) = Some k"
    using inv k st by (auto simp: server_inv_def conn_ok_def)
  let ?l = "conn_loop (conns s ! k)"
  show ?thesis
  proof (cases "?l = 0")
    case True
    let ?t = "enqueue 0 (ConnectDestroyed k) ((set_status k Down s)\<lparr>connections := (connections s)(connName nm addr (k + 1) := None)\<rparr>)"
    have "server_inv nm addr n ?t"
      by (rule server_inv_change[OF inv k, where v = None and st = Down])
        (use ok True pend_append[of "queues s" 0 "ConnectDestroyed k"] in \<open>auto simp: conn_ok_def enqueue_def set_status_def\<close>)
    then show ?thesis using True k nm al ok
      by (simp add: conn_closes_def removeConnection_def runInLoop_def set_status_def removeConnectionInLoop_def)
  next
    case False
    let ?t = "enqueue 0 (RemoveConnectionInLoop k) (set_status k Down s)"
    have "server_inv nm addr n ?t"
      by (rule server_inv_change[OF inv k, where v = "Some k" and st = Down])
        (use ok pend_append[of "queues s" 0 "RemoveConnectionInLoop k"] in
          \<open>auto simp: conn_ok_def enqueue_def set_status_def fun_upd_idem\<close>)
    then show ?thesis using False k
      by (simp add: conn_closes_def removeConnection_def runInLoop_def set_status_def)
  qed
qed

lemma getNextLoop_ok:
  assumes "pool_ok n k p"
  shows "\<exists>p'. getNextLoop p = Some (round_robin n k, p') \<and> pool_ok n (Suc k) p'"
proof (cases "n = 0")
  case True
  then show ?thesis using assms by (simp add: getNextLoop_def pool_ok_def round_robin_def)
next
  case False
  then have "k mod n < n" by simp
  then have "(if n \<le> k mod n + 1 then 0 else k mod n + 1) = Suc k mod n"
    by (simp add: mod_Suc)
  then show ?thesis using assms False by (auto simp: getNextLoop_def pool_ok_def round_robin_def)
qed

lemma newConnection_inv:
  assumes inv: "server_inv nm addr n s" and room: "length (conns s) < max_conns"
  shows "\<exists>s'. newConnection s = Some s' \<and> server_inv nm addr n s'"
proof -
  let ?k = "length (conns s)" and ?nm = "connName nm addr (length (conns s) + 1)"
  have p: "pool_ok n ?k (threadPool s)" and i: "name s = nm" "ipPort s = addr" "nextConnId s = ?k + 1" "alive s"
      "length addr \<le> 51"
    and new: "pend (queues s) ?k = (\<lambda>_. [])" "connections s ?nm = None"
    using inv room by (auto simp: server_inv_def)
  obtain p' where p': "getNextLoop (threadPool s) = Some (round_robin n ?k, p')" "pool_ok n (Suc ?k) p'"
    using getNextLoop_ok[OF p] by blast
  define mk where "mk = (\<lambda>st q. s\<lparr>threadPool := p', nextConnId := ?k + 2, connections := (connections s)(?nm \<mapsto> ?k),
    conns := conns s @ [\<lparr>conn_name = ?nm, conn_loop = round_robin n ?k, status = st\<rparr>], queues := q\<rparr>)"
  have inj: "connName nm addr (j + 1) \<noteq> ?nm" if "j \<le> max_conns" "j \<noteq> ?k" for j
    using connName_inj[of addr j ?k nm] i(5) room that by simp
  have mk: "server_inv nm addr n (mk st q)"
    if "\<And>j. j \<noteq> ?k \<Longrightarrow> pend q j = pend (queues s) j"
      and "conn_ok ?k \<lparr>conn_name = ?nm, conn_loop = round_robin n ?k, status = st\<rparr> (pend q ?k) (Some ?k)" for st q
  proof -
    have "conn_name (conns (mk st q) ! j) = connName nm addr (j + 1) \<and> conn_loop (conns (mk st q) ! j) = round_robin n j \<and>
        conn_ok j (conns (mk st q) ! j) (pend q j) (connections (mk st q) (connName nm addr (j + 1)))"
      if j: "j < Suc ?k" for j
    proof (cases "j = ?k")
      case True
      then show ?thesis using \<open>conn_ok ?k _ _ _\<close> by (simp add: mk_def)
    next
      case False
      then have "j < ?k" using j by simp
      then show ?thesis using inv inj[of j] False room \<open>\<And>j. j \<noteq> ?k \<Longrightarrow> _\<close>[OF False]
        by (simp add: mk_def server_inv_def nth_append)
    qed
    moreover have "pend q j = (\<lambda>_. []) \<and> (j < max_conns \<longrightarrow> connections (mk st q) (connName nm addr (j + 1)) = None)"
      if "Suc ?k \<le> j" for j
      using inv that inj[of j] \<open>\<And>j. j \<noteq> ?k \<Longrightarrow> _\<close>[of j] by (simp add: mk_def server_inv_def)
    ultimately show ?thesis using p' i room by (auto simp: server_inv_def mk_def)
  qed
  show ?thesis
  proof (cases "round_robin n ?k = 0")
    case True
    then have "newConnection s = Some (mk Established (queues s))"
      using p' i by (simp add: newConnection_def runInLoop_def set_status_def mk_def list_update_append Let_def)
    then show ?thesis using mk[of "queues s" Established] new by (simp add: conn_ok_def)
  next
    case False
    let ?q = "(queues s)(round_robin n ?k := queues s (round_robin n ?k) @ [ConnectEstablished ?k])"
    have "newConnection s = Some (mk Created ?q)"
      using p' i False by (simp add: newConnection_def runInLoop_def enqueue_def mk_def Let_def)
    then show ?thesis using mk[of ?q Created] new pend_append[of "queues s" _ "ConnectEstablished ?k"]
      by (simp add: conn_ok_def)
  qed
qed

lemma exec_functor_length: "exec_functor f s = Some s' \<Longrightarrow> length (conns s') = length (conns s)"
  by (cases f) (auto simp: set_status_def removeConnectionInLoop_def enqueue_def Let_def)

lemma runInLoop_length: "runInLoop here l f s = Some s' \<Longrightarrow> length (conns s') = length (conns s)"
  by (auto simp: runInLoop_def enqueue_def exec_functor_length split: if_splits)

lemma newConnection_length: "newConnection s = Some s' \<Longrightarrow> length (conns s') = Suc (length (conns s))"
  using runInLoop_length by (fastforce simp: newConnection_def Let_def bind_eq_Some_conv)

lemma server_step_length:
  assumes "server_step s (Some s')"
  shows "length (conns s') = length (conns s) \<or>
    length (conns s') = Suc (length (conns s)) \<and> (\<exists>a. newConnection (s\<lparr>acceptor := a\<rparr>) = Some s')"
  using assms
proof cases
  case (accepts r fd2 fd3 fd a)
  then show ?thesis using newConnection_length[OF accepts(1)[symmetric]] by auto
next
  case (runs l f fs)
  then show ?thesis using exec_functor_length[OF runs(1)[symmetric]] by simp
next
  case (closes k)
  then show ?thesis using runInLoop_length[of _ _ _ "set_status k Down s" s']
    by (simp add: conn_closes_def removeConnection_def set_status_def)
qed

lemma server_inv_acceptor: "server_inv nm addr n (s\<lparr>acceptor := a\<rparr>) = server_inv nm addr n s"
  by (simp add: server_inv_def)

lemma server_step_inv:
  assumes "server_step s r" and inv: "server_inv nm addr n s" and room: "length (conns s) < max_conns"
  shows "\<exists>s'. r = Some s' \<and> server_inv nm addr n s'"
  using assms(1)
proof cases
  case (accepts r fd2 fd3 fd a)
  then show ?thesis using newConnection_inv[of nm addr n "s\<lparr>acceptor := a\<rparr>"] inv room
    by (simp add: server_inv_acceptor)
qed (use exec_functor_inv[OF inv] conn_closes_inv[OF inv] in auto)

lemma start_threads_ok:
  "loops (start_threads cb is p) = loops p @ map Suc is" "pool_started (start_threads cb is p) = pool_started p"
  "next_loop (start_threads cb is p) = next_loop p" "numThreads (start_threads cb is p) = numThreads p"
  by (induction "is" arbitrary: p) simp_all

lemma server_init:
  assumes "0 \<le> idle" and "length addr \<le> 51"
  shows "\<exists>s0 s1 s. new_TcpServer nm addr idle = Some s0 \<and> setThreadNum (int n) s0 = Some s1 \<and>
    server_start cb s1 = Some s \<and> server_inv nm addr n s \<and> conns s = []"
  using assms
  by (auto simp: new_TcpServer_def new_Acceptor_def setThreadNum_def server_start_def pool_start_def Let_def
      new_EventLoopThreadPool_def start_threads_ok server_inv_def pool_ok_def pend_def)

lemma server_reach_inv:
  assumes "server_reach nm addr n s" and "length addr \<le> 51" and "length (conns s) \<le> max_conns"
  shows "server_inv nm addr n s"
  using assms
proof induction
  case (init idle s0 s1 cb s)
  then have "0 \<le> idle" by (auto simp: new_TcpServer_def new_Acceptor_def)
  then show ?case using server_init[of idle addr nm n cb] init by auto
next
  case (step s s')
  have inv: "server_inv nm addr n s" using step server_step_length[OF step.hyps(2)] by auto
  show ?case
  proof (cases "length (conns s') = length (conns s)")
    case True
    show ?thesis
      using step.hyps(2)
    proof cases
      case (accepts r fd2 fd3 fd a)
      then show ?thesis using newConnection_length[OF accepts(1)[symmetric]] True by simp
    next
      case (runs l f fs)
      then show ?thesis using exec_functor_inv[OF inv runs(2)] by auto
    next
      case (closes k)
      then show ?thesis using conn_closes_inv[OF inv closes(2,3)] by auto
    qed
  next
    case False
    then have "length (conns s) < max_conns" using server_step_length[OF step.hyps(2)] step.prems(2) by auto
    then show ?thesis using server_step_inv[OF step.hyps(2) inv] by auto
  qed
qed

section \<open>Properties\<close>

text \<open>A server with two threads that has accepted two connections, the first of which has closed.\<close>

lemma example_server:
  "\<exists>s. server_reach ''srv'' ''0.0.0.0:80'' 2 s \<and> length (conns s) = 1 \<and> status (conns s ! 0) = Down \<and>
     queues s 0 = [RemoveConnectionInLoop 0] \<and> conn_loop (conns s ! 0) = 1 \<and> queues s 1 = [] \<and>
     connections s = [connName ''srv'' ''0.0.0.0:80'' 1 \<mapsto> 0]"
proof -
  obtain s0 where s0: "server_reach ''srv'' ''0.0.0.0:80'' 2 s0" "conns s0 = []" "server_inv ''srv'' ''0.0.0.0:80'' 2 s0"
    "connections s0 = Map.empty" "queues s0 = (\<lambda>_. [])"
    using server_reach.init[of "''srv''" "''0.0.0.0:80''" 5 _ 2 _ False]
    by (force simp: new_TcpServer_def new_Acceptor_def setThreadNum_def server_start_def pool_start_def Let_def
        new_EventLoopThreadPool_def start_threads_ok server_inv_def pool_ok_def pend_def)
  have n: "name s0 = ''srv''" "ipPort s0 = ''0.0.0.0:80''" "nextConnId s0 = 1" "pool_ok 2 0 (threadPool s0)"
    using s0 by (auto simp: server_inv_def)
  obtain p where p: "getNextLoop (threadPool s0) = Some (1, p)"
    using getNextLoop_ok[OF n(4)] by (auto simp: round_robin_def)
  define s1 where "s1 = s0\<lparr>threadPool := p, nextConnId := 2, conns := [\<lparr>conn_name = connName ''srv'' ''0.0.0.0:80'' 1,
    conn_loop = 1, status = Created\<rparr>], connections := [connName ''srv'' ''0.0.0.0:80'' 1 \<mapsto> 0],
    queues := (\<lambda>_. [])(1 := [ConnectEstablished 0])\<rparr>"
  have "newConnection s0 = Some s1"
    using p n s0 by (simp add: newConnection_def runInLoop_def enqueue_def s1_def Let_def)
  then have r1: "server_reach ''srv'' ''0.0.0.0:80'' 2 s1"
    using server_reach.step[OF s0(1)] server_step.accepts[of "Accepted 9" 0 0 s0 9 "acceptor s0"] by (simp add: acc_handleRead_def)
  define s2 where "s2 = s1\<lparr>queues := (\<lambda>_. [])(1 := []),
    conns := [\<lparr>conn_name = connName ''srv'' ''0.0.0.0:80'' 1, conn_loop = 1, status = Established\<rparr>]\<rparr>"
  have r2: "server_reach ''srv'' ''0.0.0.0:80'' 2 s2"
  proof (rule server_reach.step[OF r1])
    show "server_step s1 (Some s2)"
      using server_step.runs[of s1 1 "ConnectEstablished 0" "[]"] by (simp add: s1_def s2_def set_status_def)
  qed
  have "server_step s2 (conn_closes 0 s2)" by (rule server_step.closes) (simp_all add: s1_def s2_def)
  moreover obtain s3 where s3: "conn_closes 0 s2 = Some s3" "length (conns s3) = 1" "status (conns s3 ! 0) = Down"
    "queues s3 0 = [RemoveConnectionInLoop 0]" "queues s3 1 = []" "conn_loop (conns s3 ! 0) = 1"
    "connections s3 = [connName ''srv'' ''0.0.0.0:80'' 1 \<mapsto> 0]"
    by (simp add: conn_closes_def removeConnection_def runInLoop_def enqueue_def set_status_def s1_def s2_def)
  ultimately show ?thesis using server_reach.step[OF r2] by metis
qed

text \<open>
  C7. A server never aborts, whatever the interleaving of its loops: no name of a connection is used
  twice, every connection that closes is found in the map and removed from it once, by the base loop,
  and is destroyed once, by its own loop.
\<close>

theorem server_safe:
  assumes "server_reach nm addr n s" and "length addr \<le> 51" and "length (conns s) < max_conns" and "server_step s r"
  shows "r \<noteq> None \<and> (\<forall>k < length (conns s). conn_ok k (conns s ! k) (pend (queues s) k) (connections s (conn_name (conns s ! k)))) \<and>
    distinct (map conn_name (conns s))"
proof -
  have inv: "server_inv nm addr n s" using server_reach_inv[OF assms(1,2)] assms(3) by simp
  have "r \<noteq> None" using server_step_inv[OF assms(4) inv assms(3)] by auto
  moreover have "distinct (map conn_name (conns s))"
    using inv assms(3) connName_inj[OF assms(2)] by (auto simp: distinct_conv_nth server_inv_def)
  ultimately show ?thesis using inv by (simp add: server_inv_def)
qed

theorem server_safe_witness:
  "\<exists>s s'. server_reach ''srv'' ''0.0.0.0:80'' 2 s \<and> status (conns s ! 0) = Down \<and>
     server_step s (Some s')"
proof -
  obtain s where s: "server_reach ''srv'' ''0.0.0.0:80'' 2 s" "length (conns s) = 1" "status (conns s ! 0) = Down"
    "queues s 0 = [RemoveConnectionInLoop 0]"
    using example_server by blast
  have st: "server_step s (exec_functor (RemoveConnectionInLoop 0) (s\<lparr>queues := (queues s)(0 := [])\<rparr>))"
    by (rule server_step.runs[OF s(4)])
  have "length ''0.0.0.0:80'' \<le> 51" "length (conns s) < max_conns" using s(2) by (simp_all add: max_conns_def)
  from server_safe[OF s(1) this st] obtain s' where
    "exec_functor (RemoveConnectionInLoop 0) (s\<lparr>queues := (queues s)(0 := [])\<rparr>) = Some s'" by auto
  then show ?thesis using s(1,3) st by metis
qed

text \<open>
  Connections are spread evenly: with \<open>n\<close> threads the connection number \<open>k\<close> lives in the loop of
  the thread \<open>k mod n\<close>, and in the base loop when there are no threads.
\<close>

theorem server_round_robin:
  assumes "server_reach nm addr n s" and "length addr \<le> 51" and "length (conns s) \<le> max_conns" and "k < length (conns s)"
  shows "conn_loop (conns s ! k) = (if n = 0 then 0 else k mod n + 1)"
  using server_reach_inv[OF assms(1-3)] assms(4) by (simp add: server_inv_def round_robin_def)

theorem server_round_robin_witness:
  "\<exists>s. server_reach ''srv'' ''0.0.0.0:80'' 2 s \<and> 0 < length (conns s) \<and> conn_loop (conns s ! 0) = 1"
proof -
  obtain s where s: "server_reach ''srv'' ''0.0.0.0:80'' 2 s" "length (conns s) = 1" using example_server by blast
  have "length ''0.0.0.0:80'' \<le> 51" "length (conns s) \<le> max_conns" "0 < length (conns s)"
    using s(2) by (simp_all add: max_conns_def)
  then show ?thesis using server_round_robin[OF s(1), of 0] s(1) by auto
qed

text \<open>
  Destroying the server while the removal of a connection that closed in another thread is still
  queued is not safe: the base loop then runs \<open>removeConnectionInLoop\<close> on the destroyed server.
\<close>

theorem server_destroyed_too_early:
  assumes "server_reach nm addr n s" and "queues s 0 = RemoveConnectionInLoop k # fs" and "delete_TcpServer ks s = Some s'"
  shows "\<exists>gs. queues s' 0 = RemoveConnectionInLoop k # gs \<and>
    exec_functor (RemoveConnectionInLoop k) (s'\<lparr>queues := (queues s')(0 := gs)\<rparr>) = None"
proof -
  have keep: "\<exists>gs. queues s'' 0 = RemoveConnectionInLoop k # gs"
    if "destroy_all ks s = Some s''" "queues s 0 = RemoveConnectionInLoop k # fs" for ks s fs and s'' :: server
    using that
  proof (induction ks arbitrary: s fs)
    case (Cons j ks)
    obtain t where t: "runInLoop 0 (conn_loop (conns s ! j)) (ConnectDestroyed j) s = Some t" "destroy_all ks t = Some s''"
      using Cons.prems(1) by (auto simp: bind_eq_Some_conv)
    have "\<exists>gs. queues t 0 = RemoveConnectionInLoop k # gs"
      using t(1) Cons.prems(2) by (auto simp: runInLoop_def enqueue_def set_status_def split: if_splits)
    then show ?case using Cons.IH t(2) by blast
  qed simp
  obtain s'' where s'': "destroy_all ks s = Some s''" "s' = s''\<lparr>alive := False\<rparr>"
    using assms(3) by (auto simp: delete_TcpServer_def bind_eq_Some_conv)
  then show ?thesis using keep[OF s''(1) assms(2)] by (auto simp: removeConnectionInLoop_def assert_that_def)
qed

theorem server_destroyed_too_early_witness:
  "\<exists>s s' gs. server_reach ''srv'' ''0.0.0.0:80'' 2 s \<and> delete_TcpServer [0] s = Some s' \<and>
     queues s' 0 = RemoveConnectionInLoop 0 # gs \<and>
     exec_functor (RemoveConnectionInLoop 0) (s'\<lparr>queues := (queues s')(0 := gs)\<rparr>) = None"
proof -
  obtain s where s: "server_reach ''srv'' ''0.0.0.0:80'' 2 s" "queues s 0 = [RemoveConnectionInLoop 0]"
    "conn_loop (conns s ! 0) = 1"
    using example_server by blast
  obtain s' where s': "delete_TcpServer [0] s = Some s'"
    using s(3) by (simp add: delete_TcpServer_def runInLoop_def)
  show ?thesis using server_destroyed_too_early[OF s(1,2) s'] s(1) s' by blast
qed

end
