(* ===== verification/Http.thy ===== *)
theory Http
  imports Net_Buffer Timestamps Formatting "HOL-Library.List_Lexorder"
begin

text \<open>
  The HTTP server library (\<open>muduo/net/http\<close>): the request (\<open>HttpRequest.h\<close>), the parser
  (\<open>HttpContext.h\<close>, \<open>HttpContext.cc\<close>), the response (\<open>HttpResponse.h\<close>, \<open>HttpResponse.cc\<close>) and the
  server's callbacks (\<open>HttpServer.cc\<close>).  Strings are lists of bytes, ranges of characters are taken
  out of the buffer of \<open>Net_Buffer\<close>, and a \<open>std::map\<close> is the list of its entries in the order of the
  keys.  The parser's loop need not end: \<open>None\<close> is a call that does not return, \<open>Some None\<close> a failed
  assertion.
\<close>

type_synonym header_map = "(byte list \<times> byte list) list"

fun map_set :: "byte list \<Rightarrow> byte list \<Rightarrow> header_map \<Rightarrow> header_map" where
  "map_set k v [] = [(k, v)]"
| "map_set k v ((k', v') # m) =
     (if k < k' then (k, v) # (k', v') # m else if k = k' then (k, v) # m else (k', v') # map_set k v m)"

section \<open>HttpRequest\<close>

datatype Method = kInvalid | kGet | kPost | kHead | kPut | kDelete
datatype Version = kUnknown | kHttp10 | kHttp11

record http_request =
  req_method :: Method
  version :: Version
  path :: "byte list"
  query :: "byte list"
  receiveTime :: timestamp
  headers :: header_map

definition new_HttpRequest :: http_request where
  "new_HttpRequest = \<lparr>req_method = kInvalid, version = kUnknown, path = [], query = [], receiveTime = 0, headers = []\<rparr>"

definition setMethod :: "byte list \<Rightarrow> http_request \<Rightarrow> (bool \<times> http_request) option" where
  "setMethod m r = do {
     assert_that (req_method r = kInvalid);
     let mm = (if m = bytes_of ''GET'' then kGet
               else if m = bytes_of ''POST'' then kPost
               else if m = bytes_of ''HEAD'' then kHead
               else if m = bytes_of ''PUT'' then kPut
               else if m = bytes_of ''DELETE'' then kDelete
               else kInvalid);
     Some (mm \<noteq> kInvalid, r\<lparr>req_method := mm\<rparr>)
   }"

fun methodString :: "Method \<Rightarrow> string" where
  "methodString kGet = ''GET''"
| "methodString kPost = ''POST''"
| "methodString kHead = ''HEAD''"
| "methodString kPut = ''PUT''"
| "methodString kDelete = ''DELETE''"
| "methodString kInvalid = ''UNKNOWN''"

definition isspace :: "byte \<Rightarrow> bool" where
  "isspace c \<longleftrightarrow> c \<in> {32, 9, 10, 11, 12, 13}"

text \<open>The field up to the colon, the value behind it without the blanks around it.\<close>

definition addHeader :: "byte list \<Rightarrow> nat \<Rightarrow> http_request \<Rightarrow> http_request" where
  "addHeader line colon r =
     (let field = take colon line;
          value = dropWhile isspace (drop (colon + 1) line);
          value = rev (dropWhile isspace (rev value))
      in r\<lparr>headers := map_set field value (headers r)\<rparr>)"

definition getHeader :: "byte list \<Rightarrow> http_request \<Rightarrow> byte list" where
  "getHeader field r = (case map_of (headers r) field of None \<Rightarrow> [] | Some v \<Rightarrow> v)"

section \<open>HttpContext\<close>

datatype HttpRequestParseState = kExpectRequestLine | kExpectHeaders | kExpectBody | kGotAll

record http_context =
  parse_state :: HttpRequestParseState
  request :: http_request

definition new_HttpContext :: http_context where
  "new_HttpContext = \<lparr>parse_state = kExpectRequestLine, request = new_HttpRequest\<rparr>"

definition gotAll :: "http_context \<Rightarrow> bool" where
  "gotAll c \<longleftrightarrow> parse_state c = kGotAll"

definition reset :: "http_context \<Rightarrow> http_context" where
  "reset c = c\<lparr>parse_state := kExpectRequestLine, request := new_HttpRequest\<rparr>"

definition processRequestLine :: "byte list \<Rightarrow> http_request \<Rightarrow> (bool \<times> http_request) option" where
  "processRequestLine line r =
     (let space = std_find 32 line
      in if space \<noteq> length line then do {
           (known, r1) \<leftarrow> setMethod (take space line) r;
           let start = drop (space + 1) line;
           let space2 = std_find 32 start;
           if known \<and> space2 \<noteq> length start then do {
             let target = take space2 start;
             let question = std_find 63 target;
             let r2 = (if question \<noteq> length target
                       then r1\<lparr>path := take question target, query := drop question target\<rparr>
                       else r1\<lparr>path := target\<rparr>);
             let start2 = drop (space2 + 1) start;
             if length start2 = 8 \<and> take 7 start2 = bytes_of ''HTTP/1.'' then
               Some (if start2 ! 7 = 49 then (True, r2\<lparr>version := kHttp11\<rparr>)
                     else if start2 ! 7 = 48 then (True, r2\<lparr>version := kHttp10\<rparr>)
                     else (False, r2))
             else Some (False, r2)
           } else Some (False, r1)
         } else Some (False, r))"

text \<open>The loop of \<open>parseRequest\<close>; a turn in any other state changes nothing and goes round again.\<close>

partial_function (option) parse_loop ::
    "timestamp \<Rightarrow> bool \<Rightarrow> http_context \<Rightarrow> buffer \<Rightarrow> (bool \<times> http_context \<times> buffer) option option" where
  "parse_loop t ok c b =
     (if parse_state c = kExpectRequestLine then
        (case findCRLF b of
           Some crlf \<Rightarrow>
             (case processRequestLine (vec_range (buf b) (peek b) crlf) (request c) of
                None \<Rightarrow> Some None
              | Some (ok', r) \<Rightarrow>
                  if ok' then
                    (case retrieveUntil b (crlf + 2) of
                       None \<Rightarrow> Some None
                     | Some b' \<Rightarrow> parse_loop t ok' (c\<lparr>request := r\<lparr>receiveTime := t\<rparr>, parse_state := kExpectHeaders\<rparr>) b')
                  else Some (Some (ok', c\<lparr>request := r\<rparr>, b)))
         | None \<Rightarrow> Some (Some (ok, c, b)))
      else if parse_state c = kExpectHeaders then
        (case findCRLF b of
           Some crlf \<Rightarrow>
             (let line = vec_range (buf b) (peek b) crlf; colon = std_find 58 line
              in if colon \<noteq> length line then
                   (case retrieveUntil b (crlf + 2) of
                      None \<Rightarrow> Some None
                    | Some b' \<Rightarrow> parse_loop t ok (c\<lparr>request := addHeader line colon (request c)\<rparr>) b')
                 else
                   (case retrieveUntil b (crlf + 2) of
                      None \<Rightarrow> Some None
                    | Some b' \<Rightarrow> Some (Some (ok, c\<lparr>parse_state := kGotAll\<rparr>, b'))))
         | None \<Rightarrow> Some (Some (ok, c, b)))
      else parse_loop t ok c b)"

definition parseRequest ::
    "timestamp \<Rightarrow> http_context \<Rightarrow> buffer \<Rightarrow> (bool \<times> http_context \<times> buffer) option option" where
  "parseRequest t c b = parse_loop t True c b"

section \<open>HttpResponse\<close>

datatype HttpStatusCode = kUnknownStatus | k200Ok | k301MovedPermanently | k400BadRequest | k404NotFound

fun status_number :: "HttpStatusCode \<Rightarrow> nat" where
  "status_number kUnknownStatus = 0"
| "status_number k200Ok = 200"
| "status_number k301MovedPermanently = 301"
| "status_number k400BadRequest = 400"
| "status_number k404NotFound = 404"

record http_response =
  resp_headers :: header_map
  statusCode :: HttpStatusCode
  statusMessage :: "byte list"
  closeConnection :: bool
  body :: "byte list"

definition new_HttpResponse :: "bool \<Rightarrow> http_response" where
  "new_HttpResponse close = \<lparr>resp_headers = [], statusCode = kUnknownStatus, statusMessage = [],
     closeConnection = close, body = []\<rparr>"

definition resp_addHeader :: "byte list \<Rightarrow> byte list \<Rightarrow> http_response \<Rightarrow> http_response" where
  "resp_addHeader key value r = r\<lparr>resp_headers := map_set key value (resp_headers r)\<rparr>"

definition setContentType :: "byte list \<Rightarrow> http_response \<Rightarrow> http_response" where
  "setContentType contentType r = resp_addHeader (bytes_of ''Content-Type'') contentType r"

text \<open>\<open>append\<close> of each piece in turn; \<open>snprintf\<close> cuts at 31 characters.\<close>

fun append_all :: "buffer \<Rightarrow> byte list list \<Rightarrow> buffer option" where
  "append_all b [] = Some b"
| "append_all b (d # ds) = do { b' \<leftarrow> append b d (length d); append_all b' ds }"

fun header_pieces :: "header_map \<Rightarrow> byte list list" where
  "header_pieces [] = []"
| "header_pieces ((k, v) # m) = [k, bytes_of '': '', v, kCRLF] @ header_pieces m"

definition response_pieces :: "http_response \<Rightarrow> byte list list" where
  "response_pieces r =
     [bytes_of (take 31 (''HTTP/1.1 '' @ show_nat (status_number (statusCode r)) @ '' '')), statusMessage r, kCRLF] @
     (if closeConnection r then [bytes_of ''Connection: close'' @ kCRLF]
      else [take 31 (bytes_of (''Content-Length: '' @ show_nat (length (body r))) @ kCRLF),
            bytes_of ''Connection: Keep-Alive'' @ kCRLF]) @
     header_pieces (resp_headers r) @ [kCRLF, body r]"

definition appendToBuffer :: "http_response \<Rightarrow> buffer \<Rightarrow> buffer option" where
  "appendToBuffer r output = append_all output (response_pieces r)"

section \<open>HttpServer\<close>

text \<open>What the server does to the connection, in order; \<open>httpCallback\<close> is the user's.\<close>

datatype http_action = HttpSend "byte list" | HttpShutdown

definition defaultHttpCallback :: "http_request \<Rightarrow> http_response \<Rightarrow> http_response" where
  "defaultHttpCallback req resp =
     resp\<lparr>statusCode := k404NotFound, statusMessage := bytes_of ''Not Found'', closeConnection := True\<rparr>"

definition onRequest ::
    "(http_request \<Rightarrow> http_response \<Rightarrow> http_response) \<Rightarrow> http_request \<Rightarrow> http_action list option" where
  "onRequest httpCallback req = do {
     let connection = getHeader (bytes_of ''Connection'') req;
     let close = (connection = bytes_of ''close'' \<or>
                  (version req = kHttp10 \<and> connection \<noteq> bytes_of ''Keep-Alive''));
     let response = httpCallback req (new_HttpResponse close);
     b0 \<leftarrow> new_Buffer kInitialSize;
     b \<leftarrow> appendToBuffer response b0;
     Some (HttpSend (content b) # (if closeConnection response then [HttpShutdown] else []))
   }"

definition bad_request :: "byte list" where
  "bad_request = bytes_of ''HTTP/1.1 400 Bad Request'' @ kCRLF @ kCRLF"

definition onMessage ::
    "(http_request \<Rightarrow> http_response \<Rightarrow> http_response) \<Rightarrow> timestamp \<Rightarrow> http_context \<Rightarrow> buffer \<Rightarrow>
     (http_action list \<times> http_context \<times> buffer) option option" where
  "onMessage httpCallback t c b =
     (case parseRequest t c b of
        None \<Rightarrow> None
      | Some None \<Rightarrow> Some None
      | Some (Some (ok, c', b')) \<Rightarrow>
          Some (do {
            let bad = (if ok then [] else [HttpSend bad_request, HttpShutdown]);
            if gotAll c' then do {
              acts \<leftarrow> onRequest httpCallback (request c');
              Some (bad @ acts, reset c', b')
            } else Some (bad, c', b')
          }))"

section \<open>The parser on the bytes\<close>

text \<open>What the parser does with one complete line, and with all the bytes there are.\<close>

abbreviation parsing :: "http_context \<Rightarrow> bool" where
  "parsing c \<equiv> parse_state c = kExpectRequestLine \<or> parse_state c = kExpectHeaders"

definition line_step :: "timestamp \<Rightarrow> http_context \<Rightarrow> byte list \<Rightarrow> (bool \<times> http_context) option" where
  "line_step t c line =
     (if parse_state c = kExpectRequestLine then
        map_option (\<lambda>(ok, r). (ok, if ok then c\<lparr>request := r\<lparr>receiveTime := t\<rparr>, parse_state := kExpectHeaders\<rparr>
                                   else c\<lparr>request := r\<rparr>)) (processRequestLine line (request c))
      else (let colon = std_find 58 line
            in Some (True, if colon \<noteq> length line then c\<lparr>request := addHeader line colon (request c)\<rparr>
                           else c\<lparr>parse_state := kGotAll\<rparr>)))"

function parse_spec :: "timestamp \<Rightarrow> http_context \<Rightarrow> byte list \<Rightarrow> (bool \<times> http_context \<times> byte list) option" where
  "parse_spec t c bs =
     (let i = std_search kCRLF bs
      in if parsing c \<and> i \<noteq> length bs then
           (case line_step t c (take i bs) of
              None \<Rightarrow> None
            | Some (ok, c') \<Rightarrow> if ok then parse_spec t c' (drop (i + 2) bs) else Some (False, c', bs))
         else Some (True, c, bs))"
  by auto
termination
proof (relation "measure (\<lambda>(t, c, bs). length bs)", goal_cases)
  case (2 t c bs i)
  then have "bs \<noteq> []" by auto
  then show ?case by simp
qed simp

declare parse_spec.simps [simp del]

lemma parse_spec_stop: "\<not> parsing c \<or> std_search kCRLF bs = length bs \<Longrightarrow> parse_spec t c bs = Some (True, c, bs)"
  by (subst parse_spec.simps) (auto simp: Let_def)

lemma parse_spec_line:
  assumes "parsing c" and "std_search kCRLF bs \<noteq> length bs"
  shows "parse_spec t c bs = (case line_step t c (take (std_search kCRLF bs) bs) of
     None \<Rightarrow> None
   | Some (ok, c') \<Rightarrow> if ok then parse_spec t c' (drop (std_search kCRLF bs + 2) bs) else Some (False, c', bs))"
  using assms by (subst parse_spec.simps) (auto simp: Let_def)

lemma crlf_hit:
  assumes "std_search kCRLF bs \<noteq> length bs"
  shows "std_search kCRLF bs < length bs" "std_search kCRLF bs + 2 \<le> length bs"
proof -
  show "std_search kCRLF bs < length bs" using assms std_search_le[of kCRLF bs] by linarith
  then show "std_search kCRLF bs + 2 \<le> length bs" using std_search_hit_length[of kCRLF bs] by simp
qed

text \<open>One turn of the loop, over the bytes of the buffer.\<close>

lemma parse_loop_stop:
  assumes "buffer_wf b" and "parsing c" and "std_search kCRLF (content b) = length (content b)"
  shows "parse_loop t True c b = Some (Some (True, c, b))"
  using assms by (subst parse_loop.simps) (auto simp: findCRLF_content[OF assms(1)] Let_def)

lemma parse_loop_line:
  assumes wf: "buffer_wf b" and pc: "parsing c" and hit: "std_search kCRLF (content b) \<noteq> length (content b)"
  shows "\<exists>b'. buffer_wf b' \<and> content b' = drop (std_search kCRLF (content b) + 2) (content b) \<and>
    parse_loop t True c b = (case line_step t c (take (std_search kCRLF (content b)) (content b)) of
       None \<Rightarrow> Some None
     | Some (ok, c') \<Rightarrow> if \<not> ok then Some (Some (False, c', b))
         else if parsing c' then parse_loop t True c' b' else Some (Some (True, c', b')))"
proof -
  define i where "i = std_search kCRLF (content b)"
  have i: "i + 2 \<le> length (content b)" using crlf_hit(2)[OF hit] by (simp add: i_def)
  obtain b' where b': "retrieveUntil b (peek b + (i + 2)) = Some b'" "buffer_wf b'" "content b' = drop (i + 2) (content b)"
    using retrieveUntil_ok[OF wf i] by blast
  have crlf: "findCRLF b = Some (peek b + i)" using hit by (simp add: findCRLF_content[OF wf] i_def Let_def)
  have "i \<le> writerIndex b - readerIndex b" using i length_content[OF wf] by simp
  then have line: "vec_range (buf b) (peek b) (peek b + i) = take i (content b)" by (rule content_take)
  have "parse_loop t True c b = (case line_step t c (take i (content b)) of
       None \<Rightarrow> Some None
     | Some (ok, c') \<Rightarrow> if \<not> ok then Some (Some (False, c', b))
         else if parsing c' then parse_loop t True c' b' else Some (Some (True, c', b')))"
    using pc b'(1) by (subst parse_loop.simps)
      (auto simp: crlf line line_step_def Let_def add.assoc split: option.split)
  then show ?thesis using b'(2,3) by (auto simp: i_def)
qed

lemma parse_loop_returns:
  assumes "parse_loop t ok c b = Some y"
  shows "parsing c"
  apply (rule parse_loop.raw_induct[where P = "\<lambda>t ok c b y. parsing c", OF _ assms])
  subgoal premises prems for f t ok c b y
    using prems(1)[of t ok c b y] prems(2) by (cases "parsing c") auto
  done

definition implements :: "(bool \<times> http_context \<times> buffer) option option \<Rightarrow> (bool \<times> http_context \<times> byte list) option \<Rightarrow> bool" where
  "implements res spec \<longleftrightarrow>
     (case spec of
        None \<Rightarrow> res = Some None
      | Some (ok, c, bs) \<Rightarrow> \<exists>b. res = Some (Some (ok, c, b)) \<and> buffer_wf b \<and> content b = bs)"

lemma parse_loop_spec:
  assumes "buffer_wf b" and "parsing c"
  shows "implements (parse_loop t True c b) (parse_spec t c (content b))"
  using assms
proof (induction "length (content b)" arbitrary: b c rule: less_induct)
  case less
  show ?case
  proof (cases "std_search kCRLF (content b) = length (content b)")
    case True
    then show ?thesis using less.prems parse_loop_stop parse_spec_stop by (auto simp: implements_def)
  next
    case False
    obtain b' where b': "buffer_wf b'" "content b' = drop (std_search kCRLF (content b) + 2) (content b)"
      "parse_loop t True c b = (case line_step t c (take (std_search kCRLF (content b)) (content b)) of
         None \<Rightarrow> Some None
       | Some (ok, c') \<Rightarrow> if \<not> ok then Some (Some (False, c', b))
           else if parsing c' then parse_loop t True c' b' else Some (Some (True, c', b')))"
      using parse_loop_line[OF less.prems False] by blast
    note spec = parse_spec_line[OF less.prems(2) False, of t]
    show ?thesis
    proof (cases "line_step t c (take (std_search kCRLF (content b)) (content b))")
      case None
      then show ?thesis using spec b'(3) by (simp add: implements_def)
    next
      case (Some oc)
      obtain ok c' where oc: "oc = (ok, c')" by (cases oc)
      have "length (content b') < length (content b)" using b'(2) crlf_hit[OF False] by simp
      then have IH: "parsing c' \<Longrightarrow> implements (parse_loop t True c' b') (parse_spec t c' (content b'))"
        using less.hyps b'(1) by blast
      show ?thesis
      proof (cases "ok \<and> parsing c'")
        case True
        then show ?thesis using IH spec b' Some oc by simp
      next
        case False
        then show ?thesis using spec b' Some oc less.prems(1) parse_spec_stop[of c' "content b'"]
          by (auto simp: implements_def)
      qed
    qed
  qed
qed

text \<open>A fresh request is never rejected by an assertion.\<close>

definition http_wf :: "http_context \<Rightarrow> bool" where
  "http_wf c \<longleftrightarrow> (parse_state c = kExpectRequestLine \<longrightarrow> req_method (request c) = kInvalid)"

lemma processRequestLine_total:
  assumes "req_method r = kInvalid"
  shows "processRequestLine line r \<noteq> None"
proof -
  have "\<exists>k r1. setMethod (take (std_find 32 line) line) r = Some (k, r1)"
    unfolding setMethod_def Let_def using assms by simp
  then obtain k r1 where "setMethod (take (std_find 32 line) line) r = Some (k, r1)" by blast
  then show ?thesis by (simp add: processRequestLine_def Let_def del: not_None_eq)
qed

lemma line_step_True:
  assumes "line_step t c line = Some (True, c')" and "parsing c"
  shows "parse_state c' \<noteq> kExpectRequestLine"
proof (cases "parse_state c = kExpectRequestLine")
  case True
  then obtain r where "c' = c\<lparr>request := r\<lparr>receiveTime := t\<rparr>, parse_state := kExpectHeaders\<rparr>"
    using assms(1) by (auto simp: line_step_def)
  then show ?thesis by simp
next
  case False
  then show ?thesis using assms by (auto simp: line_step_def Let_def split: if_splits)
qed

lemma parse_spec_total: "http_wf c \<Longrightarrow> parse_spec t c bs \<noteq> None"
proof (induction t c bs rule: parse_spec.induct)
  case (1 t c bs)
  show ?case
  proof (cases "parsing c \<and> std_search kCRLF bs \<noteq> length bs")
    case False
    then show ?thesis using parse_spec_stop by auto
  next
    case True
    then obtain ok c' where ls: "line_step t c (take (std_search kCRLF bs) bs) = Some (ok, c')"
      using processRequestLine_total[of "request c" "take (std_search kCRLF bs) bs"] 1(2)
      by (fastforce simp: line_step_def http_wf_def Let_def)
    then have "ok \<Longrightarrow> http_wf c'" using line_step_True True by (auto simp: http_wf_def)
    then show ?thesis using 1(1)[OF refl] True ls by (auto simp: parse_spec_line)
  qed
qed

lemma parse_spec_append:
  "parse_spec t c x = Some (ok, c', r) \<Longrightarrow>
   parse_spec t c (x @ y) = (if ok \<and> parsing c' then parse_spec t c' (r @ y) else Some (ok, c', r @ y))"
proof (induction t c x rule: parse_spec.induct)
  case (1 t c x)
  show ?case
  proof (cases "parsing c \<and> std_search kCRLF x \<noteq> length x")
    case False
    then have "(ok, c', r) = (True, c, x)" using 1(2) parse_spec_stop[of c x t] by auto
    then show ?thesis using False parse_spec_stop[of c "x @ y" t] by auto
  next
    case True
    let ?i = "std_search kCRLF x"
    have i: "?i < length x" "?i + 2 \<le> length x" using crlf_hit True by auto
    have i': "std_search kCRLF (x @ y) = ?i" using std_search_append_hit[OF i(1)] .
    have sp: "parse_spec t c (x @ y) = (case line_step t c (take ?i x) of None \<Rightarrow> None
        | Some (ok, c') \<Rightarrow> if ok then parse_spec t c' (drop (?i + 2) x @ y) else Some (False, c', x @ y))"
    proof -
      have "take ?i (x @ y) = take ?i x" "drop (?i + 2) (x @ y) = drop (?i + 2) x @ y" "?i \<noteq> length (x @ y)" using i by auto
      then show ?thesis using parse_spec_line[of c "x @ y" t] True unfolding i' by metis
    qed
    obtain k d where ls: "line_step t c (take ?i x) = Some (k, d)"
      using 1(2) True by (auto simp: parse_spec_line split: option.splits)
    show ?thesis
    proof (cases k)
      case True': True
      then have "parse_spec t d (drop (?i + 2) x) = Some (ok, c', r)" using 1(2) True ls by (simp add: parse_spec_line)
      then show ?thesis using 1(1)[OF refl True ls refl True'] sp ls True' by simp
    next
      case False
      then have "(ok, c', r) = (False, d, x)" using 1(2) True ls by (auto simp: parse_spec_line)
      then show ?thesis using sp ls False by simp
    qed
  qed
qed

text \<open>The time of reception plays no part.\<close>

definition untime :: "http_context \<Rightarrow> http_context" where
  "untime c = c\<lparr>request := (request c)\<lparr>receiveTime := 0\<rparr>\<rparr>"

lemma setMethod_time:
  "setMethod m (r\<lparr>receiveTime := t\<rparr>) = map_option (\<lambda>(ok, r). (ok, r\<lparr>receiveTime := t\<rparr>)) (setMethod m r)"
  by (cases "req_method r = kInvalid") (simp_all add: setMethod_def Let_def)

lemma processRequestLine_time:
  "processRequestLine line (r\<lparr>receiveTime := t\<rparr>) =
   map_option (\<lambda>(ok, r). (ok, r\<lparr>receiveTime := t\<rparr>)) (processRequestLine line r)"
proof (cases "setMethod (take (std_find 32 line) line) r")
  case None
  then show ?thesis by (simp add: processRequestLine_def setMethod_time Let_def)
next
  case (Some kr)
  obtain k r1 where "kr = (k, r1)" by (cases kr)
  then show ?thesis using Some by (simp add: processRequestLine_def setMethod_time Let_def)
qed

lemma line_step_time: "line_step 0 (untime c) line = map_option (apsnd untime) (line_step t c line)"
proof (cases "parse_state c = kExpectRequestLine")
  case True
  then show ?thesis
    by (cases "processRequestLine line (request c)")
       (auto simp: line_step_def untime_def processRequestLine_time)
next
  case False
  then show ?thesis by (auto simp: line_step_def untime_def Let_def addHeader_def)
qed

lemma parse_spec_time:
  "parse_spec 0 (untime c) bs = map_option (\<lambda>(ok, c', r). (ok, untime c', r)) (parse_spec t c bs)"
proof (induction t c bs rule: parse_spec.induct)
  case (1 t c bs)
  have u: "parsing (untime c) \<longleftrightarrow> parsing c" by (simp add: untime_def)
  show ?case
  proof (cases "parsing c \<and> std_search kCRLF bs \<noteq> length bs")
    case False
    then show ?thesis using u parse_spec_stop by auto
  next
    case True
    show ?thesis
    proof (cases "line_step t c (take (std_search kCRLF bs) bs)")
      case None
      then show ?thesis using True u line_step_time[of c _ t] by (simp add: parse_spec_line)
    next
      case (Some oc)
      obtain ok c' where oc: "oc = (ok, c')" by (cases oc)
      show ?thesis
        using 1[OF refl True Some oc[symmetric]] True u line_step_time[of c _ t] Some oc by (cases ok) (simp_all add: parse_spec_line)
    qed
  qed
qed

lemma parse_spec_state:
  "parse_spec t c bs = Some (True, c', r) \<Longrightarrow> http_wf c \<Longrightarrow> parsing c \<or> parse_state c = kGotAll \<Longrightarrow>
   http_wf c' \<and> (parsing c' \<or> parse_state c' = kGotAll)"
proof (induction t c bs rule: parse_spec.induct)
  case (1 t c bs)
  show ?case
  proof (cases "parsing c \<and> std_search kCRLF bs \<noteq> length bs")
    case False
    then show ?thesis using 1(2-4) parse_spec_stop[of c bs t] by auto
  next
    case True
    then obtain d where ls: "line_step t c (take (std_search kCRLF bs) bs) = Some (True, d)"
      and sp: "parse_spec t d (drop (std_search kCRLF bs + 2) bs) = Some (True, c', r)"
      using 1(2) by (auto simp: parse_spec_line split: option.splits if_splits)
    have "parse_state d \<noteq> kExpectRequestLine" using line_step_True[OF ls] True by blast
    moreover have "parsing d \<or> parse_state d = kGotAll"
      using ls True by (cases "parse_state c = kExpectRequestLine") (auto simp: line_step_def Let_def split: if_splits)
    ultimately show ?thesis using 1(1)[OF refl True ls refl TrueI sp] by (simp add: http_wf_def)
  qed
qed

lemma parseRequest_spec:
  "buffer_wf b \<Longrightarrow> parsing c \<Longrightarrow> implements (parseRequest t c b) (parse_spec t c (content b))"
  using parse_loop_spec by (simp add: parseRequest_def)

text \<open>A rejected request leaves its line in the buffer, and its method in the request.\<close>

lemma parse_spec_rejected:
  assumes "parse_spec t c bs = Some (False, c', r)" and "parse_state c = kExpectRequestLine"
  shows "r = bs \<and> parse_state c' = kExpectRequestLine \<and> std_search kCRLF bs \<noteq> length bs \<and>
    processRequestLine (take (std_search kCRLF bs) bs) (request c) = Some (False, request c')"
proof -
  have hit: "std_search kCRLF bs \<noteq> length bs" using assms parse_spec_stop[of c bs t] by auto
  obtain k d where ls: "line_step t c (take (std_search kCRLF bs) bs) = Some (k, d)"
    using assms hit by (auto simp: parse_spec_line split: option.splits)
  have "\<not> k"
  proof
    assume k: k
    have d: "parse_state d \<noteq> kExpectRequestLine" using line_step_True ls assms(2) k by simp
    have "parse_spec t d x \<noteq> Some (False, c', r)" if "parse_state d \<noteq> kExpectRequestLine" for d x
      using that
    proof (induction t d x rule: parse_spec.induct)
      case (1 t d x)
      show ?case
      proof (cases "parsing d \<and> std_search kCRLF x \<noteq> length x")
        case False
        then show ?thesis using parse_spec_stop[of d x t] by auto
      next
        case True
        then obtain d' where d': "line_step t d (take (std_search kCRLF x) x) = Some (True, d')"
          using 1(2) by (auto simp: line_step_def Let_def)
        then show ?thesis using 1(1)[OF refl True d' refl TrueI] line_step_True[OF d'] True by (simp add: parse_spec_line)
      qed
    qed
    then show False using assms hit ls k d by (simp add: parse_spec_line)
  qed
  then show ?thesis using assms hit ls by (auto simp: parse_spec_line line_step_def)
qed

section \<open>Properties\<close>

definition buffer_of :: "byte list \<Rightarrow> buffer" where
  "buffer_of bs = \<lparr>buf = replicate kCheapPrepend 0 @ bs, readerIndex = kCheapPrepend, writerIndex = kCheapPrepend + length bs\<rparr>"

lemma buffer_of_ok:
  assumes "length bs \<le> 1000"
  shows "buffer_wf (buffer_of bs)" "content (buffer_of bs) = bs"
  using assms by (simp_all add: buffer_of_def buffer_wf_def content_def vec_range_def kCheapPrepend_def vec_max_def)



text \<open>
  C18. It does not matter how the bytes of a request are split into messages: parsing what is there,
  and parsing again with the context and the rest of the buffer once more bytes have come, accepts,
  reads and leaves the same as parsing all the bytes at once, apart from the time of reception.
\<close>

theorem parseRequest_incremental:
  assumes "buffer_wf b" "buffer_wf b2" "buffer_wf whole"
    and "parse_state c = kExpectHeaders \<or> parse_state c = kExpectRequestLine \<and> req_method (request c) = kInvalid"
    and "parseRequest t1 c b = Some (Some (True, c1, b1))" and "\<not> gotAll c1"
    and "content b2 = content b1 @ d" and "content whole = content b @ d"
  shows "\<exists>ok c2 r2 c3 r3. parseRequest t2 c1 b2 = Some (Some (ok, c2, r2)) \<and>
    parseRequest t3 c whole = Some (Some (ok, c3, r3)) \<and> content r2 = content r3 \<and>
    c2\<lparr>request := (request c2)\<lparr>receiveTime := 0\<rparr>\<rparr> = c3\<lparr>request := (request c3)\<lparr>receiveTime := 0\<rparr>\<rparr>"
proof -
  have wf: "http_wf c" "parsing c" using assms(4) by (auto simp: http_wf_def)
  have s1: "parse_spec t1 c (content b) = Some (True, c1, content b1)"
    using parse_loop_spec[OF assms(1) wf(2), of t1] parse_spec_total[OF wf(1), of t1 "content b"] assms(5)
    by (auto simp: parseRequest_def implements_def split: option.splits)
  have pc1: "parsing c1 \<or> gotAll c1" and wf1: "http_wf c1"
    using parse_spec_state[OF s1] assms(4) wf by (auto simp: gotAll_def)
  obtain ok c2 r2 where s2: "parse_spec t2 c1 (content b2) = Some (ok, c2, r2)"
    using parse_spec_total[OF wf1, of t2 "content b2"] by auto
  obtain ok3 c3 r3 where s3: "parse_spec t3 c (content whole) = Some (ok3, c3, r3)"
    using parse_spec_total[OF wf(1), of t3 "content whole"] by auto
  have "parse_spec 0 (untime c) (content b) = Some (True, untime c1, content b1)"
    using parse_spec_time[of c "content b" t1] s1 by simp
  then have "parse_spec 0 (untime c) (content whole) = parse_spec 0 (untime c1) (content b2)"
    using parse_spec_append[of 0 "untime c" "content b" True "untime c1" "content b1" d] assms(6-8) pc1
    by (simp add: untime_def)
  then have "(ok3, untime c3, r3) = (ok, untime c2, r2)"
    using parse_spec_time[of c "content whole" t3] parse_spec_time[of c1 "content b2" t2] s2 s3 by simp
  then show ?thesis
    using parse_loop_spec[OF assms(2), of c1 t2] parse_loop_spec[OF assms(3) wf(2), of t3] s2 s3 pc1 assms(6)
    by (auto simp: parseRequest_def implements_def untime_def)
qed

theorem parseRequest_incremental_witness:
  "\<exists>ok c2 r2 c3 r3. parseRequest 6 new_HttpContext (buffer_of [71, 69, 84, 13, 10]) = Some (Some (ok, c2, r2)) \<and>
     parseRequest 7 new_HttpContext (buffer_of [71, 69, 84, 13, 10]) = Some (Some (ok, c3, r3)) \<and> content r2 = content r3"
proof -
  have first: "parseRequest 5 new_HttpContext (buffer_of [71, 69, 84]) =
      Some (Some (True, new_HttpContext, buffer_of [71, 69, 84]))"
    unfolding parseRequest_def
    by (rule parse_loop_stop) (simp_all add: buffer_of_ok new_HttpContext_def kCRLF_def)
  have "\<not> gotAll new_HttpContext" "req_method (request new_HttpContext) = kInvalid"
    "parse_state new_HttpContext = kExpectRequestLine"
    by (simp_all add: gotAll_def new_HttpContext_def new_HttpRequest_def)
  then show ?thesis
    using parseRequest_incremental[OF buffer_of_ok(1) buffer_of_ok(1) buffer_of_ok(1) _ first, of
        "[71, 69, 84, 13, 10]" "[71, 69, 84, 13, 10]" "[13, 10]" 6 7]
    by (auto simp: buffer_of_ok)
qed

text \<open>
  A request line with a known method that is rejected for anything behind the method brings the
  server down with the next message of the same connection: the line is still in the buffer, and the
  method is still set when \<open>setMethod\<close> asserts that it is not.
\<close>

theorem rejected_request_aborts:
  assumes "buffer_wf b" "buffer_wf b2"
    and "onMessage cb t1 new_HttpContext b = Some (Some ([HttpSend bad_request, HttpShutdown], c1, b1))"
    and "req_method (request c1) \<noteq> kInvalid" and "content b2 = content b1 @ d"
  shows "onMessage cb t2 c1 b2 = Some None"
proof -
  have new: "parse_state new_HttpContext = kExpectRequestLine" "req_method (request new_HttpContext) = kInvalid"
    by (simp_all add: new_HttpContext_def new_HttpRequest_def)
  then obtain ok c r where sp: "parse_spec t1 new_HttpContext (content b) = Some (ok, c, r)"
    using parse_spec_total[of new_HttpContext t1 "content b"] by (auto simp: http_wf_def)
  then obtain b0 where p: "parseRequest t1 new_HttpContext b = Some (Some (ok, c, b0))" "content b0 = r"
    using parseRequest_spec[OF assms(1), of new_HttpContext t1] new by (auto simp: implements_def)
  have nok: "\<not> ok"
    using assms(3,4) p by (auto simp: onMessage_def reset_def new_HttpRequest_def bind_eq_Some_conv split: if_splits)
  let ?line = "take (std_search kCRLF (content b)) (content b)"
  have rej: "r = content b" "parse_state c = kExpectRequestLine" "std_search kCRLF (content b) \<noteq> length (content b)"
    "processRequestLine ?line (request new_HttpContext) = Some (False, request c)"
    using parse_spec_rejected[of t1 new_HttpContext "content b" c r] sp nok new by auto
  have same: "c1 = c" "b1 = b0" using assms(3) p nok rej(2) by (auto simp: onMessage_def gotAll_def)
  have space: "std_find 32 ?line \<noteq> length ?line"
    using rej(4) assms(4) same new(2) by (auto simp: processRequestLine_def Let_def)
  have "processRequestLine ?line (request c) = None"
    using space assms(4) same by (simp add: processRequestLine_def setMethod_def Let_def)
  moreover have "std_search kCRLF (content b2) = std_search kCRLF (content b)" "content b2 = content b @ d"
    using assms(5) same p(2) rej crlf_hit(1)[OF rej(3)] by (simp_all add: std_search_append_hit)
  ultimately have "parse_spec t2 c (content b2) = None"
    using rej(2) crlf_hit(1)[OF rej(3)] by (subst parse_spec_line) (auto simp: line_step_def)
  then show ?thesis using parseRequest_spec[OF assms(2), of c t2] rej(2) same(1)
    by (simp add: implements_def onMessage_def)
qed

theorem rejected_request_aborts_witness:
  "\<exists>c1. onMessage defaultHttpCallback 1 new_HttpContext (buffer_of [71, 69, 84, 32, 47, 13, 10]) =
       Some (Some ([HttpSend bad_request, HttpShutdown], c1, buffer_of [71, 69, 84, 32, 47, 13, 10])) \<and>
     onMessage defaultHttpCallback 2 c1 (buffer_of [71, 69, 84, 32, 47, 13, 10]) = Some None"
proof -
  let ?b = "buffer_of [71, 69, 84, 32, 47, 13, 10]"
  have get: "bytes_of ''GET'' = [71, 69, 84]" by (simp add: bytes_of_def)
  have wf: "buffer_wf ?b" "content ?b = [71, 69, 84, 32, 47, 13, 10]" by (simp_all add: buffer_of_ok)
  define c1 where "c1 = new_HttpContext\<lparr>request := new_HttpRequest\<lparr>req_method := kGet\<rparr>\<rparr>"
  have crlf: "findCRLF ?b = Some 13" "vec_range (buf ?b) (peek ?b) 13 = [71, 69, 84, 32, 47]"
    by (simp_all add: findCRLF_content[OF wf(1)] wf(2) kCRLF_def Let_def)
       (simp_all add: buffer_of_def peek_def kCheapPrepend_def vec_range_def)
  have "processRequestLine [71, 69, 84, 32, 47] new_HttpRequest = Some (False, new_HttpRequest\<lparr>req_method := kGet\<rparr>)"
    by (simp add: processRequestLine_def setMethod_def std_find_def get new_HttpRequest_def Let_def)
  then have "parseRequest 1 new_HttpContext ?b = Some (Some (False, c1, ?b))"
    unfolding parseRequest_def using crlf
    by (subst parse_loop.simps) (simp add: new_HttpContext_def c1_def)
  then have first: "onMessage defaultHttpCallback 1 new_HttpContext ?b = Some (Some ([HttpSend bad_request, HttpShutdown], c1, ?b))"
    by (simp add: onMessage_def gotAll_def c1_def new_HttpContext_def)
  have "req_method (request c1) \<noteq> kInvalid" by (simp add: c1_def)
  then show ?thesis using rejected_request_aborts[OF wf(1) wf(1) first, of "[]" 2] first by auto
qed

end
