(* ===== verification/Dates.thy ===== *)
theory Dates
  imports Formatting
begin

text \<open>
  Dates as Julian day numbers (\<open>muduo/base/Date.h\<close>, \<open>Date.cc\<close>).  C's \<open>int\<close> is \<open>int\<close> with division that
  rounds towards zero; \<open>getYearMonthDay_no_overflow\<close> shows up to which day, in the second million of
  years, the intermediate results stay within 32 bits.  The conversions are compared with the Gregorian calendar: its leap years and the lengths of its months.
\<close>

section \<open>Date\<close>

record YearMonthDay =
  year :: int
  month :: int
  day :: int

definition getJulianDayNumber :: "int \<Rightarrow> int \<Rightarrow> int \<Rightarrow> int" where
  "getJulianDayNumber yr mon d =
     (let a = (14 - mon) sdiv 12;
          y = yr + 4800 - a;
          m = mon + 12 * a - 3
      in d + (153 * m + 2) sdiv 5 + y * 365 + y sdiv 4 - y sdiv 100 + y sdiv 400 - 32045)"

definition getYearMonthDay :: "int \<Rightarrow> YearMonthDay" where
  "getYearMonthDay julianDayNumber =
     (let a = julianDayNumber + 32044;
          b = (4 * a + 3) sdiv 146097;
          c = a - ((b * 146097) sdiv 4);
          d = (4 * c + 3) sdiv 1461;
          e = c - ((1461 * d) sdiv 4);
          m = (5 * e + 2) sdiv 153
      in \<lparr>year = b * 100 + d - 4800 + (m sdiv 10),
          month = m + 3 - 12 * (m sdiv 10),
          day = e - ((153 * m + 2) sdiv 5) + 1\<rparr>)"

definition kJulianDayOf1970_01_01 :: int where
  "kJulianDayOf1970_01_01 = getJulianDayNumber 1970 1 1"

definition kDaysPerWeek :: int where "kDaysPerWeek = 7"

text \<open>A \<open>Date\<close> is its Julian day number.\<close>

type_synonym date = int

definition invalid_Date :: date where "invalid_Date = 0"

definition Date_valid :: "date \<Rightarrow> bool" where
  "Date_valid j \<longleftrightarrow> j > 0"

text \<open>A calendar time as C has it; pointers to the name of the zone are the strings they point to.\<close>

record tm =
  tm_sec :: int
  tm_min :: int
  tm_hour :: int
  tm_mday :: int
  tm_mon :: int
  tm_year :: int
  tm_wday :: int
  tm_yday :: int
  tm_isdst :: int
  tm_gmtoff :: int
  tm_zone :: string

definition Date_of_ymd :: "int \<Rightarrow> int \<Rightarrow> int \<Rightarrow> date" where
  "Date_of_ymd y m d = getJulianDayNumber y m d"

definition Date_of_tm :: "tm \<Rightarrow> date" where
  "Date_of_tm t = getJulianDayNumber (tm_year t + 1900) (tm_mon t + 1) (tm_mday t)"

definition yearMonthDay :: "date \<Rightarrow> YearMonthDay" where
  "yearMonthDay j = getYearMonthDay j"

definition weekDay :: "date \<Rightarrow> int" where
  "weekDay j = (j + 1) smod kDaysPerWeek"

definition toIsoString :: "date \<Rightarrow> string" where
  "toIsoString j =
     (let ymd = yearMonthDay j
      in take 31 (pad_left CHR '' '' 4 (show_int (year ymd)) @ ''-'' @ pad_left CHR ''0'' 2 (show_int (month ymd)) @
           ''-'' @ pad_left CHR ''0'' 2 (show_int (day ymd))))"

section \<open>The Gregorian calendar\<close>

definition leap_year :: "int \<Rightarrow> bool" where
  "leap_year y \<longleftrightarrow> 4 dvd y \<and> (\<not> 100 dvd y \<or> 400 dvd y)"

definition days_in_month :: "int \<Rightarrow> int \<Rightarrow> int" where
  "days_in_month y m = (if m = 2 then (if leap_year y then 29 else 28) else if m \<in> {4, 6, 9, 11} then 30 else 31)"

definition valid_date :: "YearMonthDay \<Rightarrow> bool" where
  "valid_date x \<longleftrightarrow> 1 \<le> month x \<and> month x \<le> 12 \<and> 1 \<le> day x \<and> day x \<le> days_in_month (year x) (month x)"

definition next_day :: "YearMonthDay \<Rightarrow> YearMonthDay" where
  "next_day x =
     (if day x < days_in_month (year x) (month x) then x\<lparr>day := day x + 1\<rparr>
      else if month x < 12 then x\<lparr>month := month x + 1, day := 1\<rparr>
      else \<lparr>year = year x + 1, month = 1, day = 1\<rparr>)"

text \<open>The computation counts from the first of March of the year -4800; earlier dates would be negative in it.\<close>

definition computable :: "YearMonthDay \<Rightarrow> bool" where
  "computable x \<longleftrightarrow> -4800 < year x \<or> year x = -4800 \<and> 3 \<le> month x"

section \<open>Arithmetic\<close>

lemma sdiv_div: "0 \<le> (a :: int) \<Longrightarrow> 0 < b \<Longrightarrow> a sdiv b = a div b"
  by (cases "a = 0") (simp_all add: signed_divide_int_def)

lemma smod_mod: "0 \<le> (a :: int) \<Longrightarrow> 0 < b \<Longrightarrow> a smod b = a mod b"
  by (cases "a = 0") (simp_all add: signed_modulo_int_def)

text \<open>
  Both cycles of the calendar, 146097 days in four centuries and 1461 days in four years, have a
  length \<open>n = 4 q + 1\<close>; the number of the century or year is found from the day in the same way.
\<close>

lemma quarter: "(B * (4 * q + 1)) div 4 = q * B + B div (4 :: int)"
proof -
  have "B * (4 * q + 1) = 4 * (q * B) + B" by (simp add: algebra_simps)
  then show ?thesis by simp
qed

lemma cycle_div:
  fixes B C n q :: int
  assumes n: "n = 4 * q + 1" and q: "0 < q" and B: "0 \<le> B" and C: "0 \<le> C" "4 * C + 3 - B mod 4 < n"
  shows "(4 * ((B * n) div 4 + C) + 3) div n = B"
proof -
  have "(B * n) div 4 = B * q + B div 4" using quarter[of B q] n by (simp add: mult.commute)
  moreover have "4 * (B div 4) = B - B mod 4" by (simp add: minus_mod_eq_mult_div)
  ultimately have "4 * ((B * n) div 4 + C) + 3 = n * B + (4 * C + 3 - B mod 4)" using n by (simp add: algebra_simps)
  moreover have "0 \<le> 4 * C + 3 - B mod 4" using C(1) pos_mod_bound[of 4 B] by linarith
  ultimately show ?thesis using C(2) by (rule int_div_pos_eq)
qed

text \<open>The day of a year that begins with March, and the month and day back from it.\<close>

definition year_day :: "int \<Rightarrow> int \<Rightarrow> int" where
  "year_day m d = (153 * m + 2) div 5 + d"

definition month_length :: "int \<Rightarrow> int" where
  "month_length m = (if m \<in> {1, 3, 6, 8} then 30 else if m = 11 then 29 else 31)"

lemma year_day_month:
  assumes "0 \<le> m" "m \<le> 11" "0 \<le> d" "d < month_length m"
  shows "(5 * year_day m d + 2) div 153 = m" "year_day m d \<le> 365"
    "m = 11 \<and> d = 28 \<or> year_day m d \<le> 364"
proof -
  have "m \<in> {0, 1, 2, 3, 4, 5, 6, 7, 8, 9, 10, 11}" using assms(1,2) by simp presburger
  then show "(5 * year_day m d + 2) div 153 = m" "year_day m d \<le> 365" "m = 11 \<and> d = 28 \<or> year_day m d \<le> 364"
    using assms(3,4) by (auto simp: year_day_def month_length_def)
qed

text \<open>Years that begin with March: \<open>Y\<close> years since March of the year -4800.\<close>

definition march_day :: "int \<Rightarrow> int \<Rightarrow> int" where
  "march_day Y e = 365 * Y + Y div 4 - Y div 100 + Y div 400 + e"

definition march_leap :: "int \<Rightarrow> bool" where
  "march_leap Y \<longleftrightarrow> leap_year (Y + 1)"

lemma march_day_cycle:
  assumes "0 \<le> Y" and "0 \<le> e" "e \<le> 365" "e = 365 \<longrightarrow> march_leap Y"
  defines "A \<equiv> march_day Y e"
  shows "(4 * A + 3) div 146097 = Y div 100"
    "A - ((Y div 100) * 146097) div 4 = 365 * (Y mod 100) + (Y mod 100) div 4 + e"
    "(4 * (365 * (Y mod 100) + (Y mod 100) div 4 + e) + 3) div 1461 = Y mod 100"
proof -
  define B Z where "B = Y div 100" and "Z = Y mod 100"
  have Y: "Y = 100 * B + Z" "0 \<le> Z" "Z < 100" "0 \<le> B"
    using assms(1) by (simp_all add: B_def Z_def pos_imp_zdiv_nonneg_iff)
  have Y4: "Y = 4 * (25 * B) + Z" using Y(1) by simp
  have d4: "Y div 4 = 25 * B + Z div 4" unfolding Y4 by simp
  have d400: "Y div 400 = B div 4" using zdiv_zmult2_eq[of 4 Y 100] by (simp add: B_def)
  have leap: "e = 365 \<longrightarrow> (if Z = 99 then B mod 4 = 3 else Z mod 4 = 3)"
  proof
    assume "e = 365"
    then have l: "4 dvd Y + 1" "\<not> 100 dvd Y + 1 \<or> 400 dvd Y + 1" using assms(4) by (auto simp: march_leap_def leap_year_def)
    show "if Z = 99 then B mod 4 = 3 else Z mod 4 = 3"
    proof (cases "Z = 99")
      case True
      then have "Y + 1 = 100 * (B + 1)" using Y(1) by simp
      then have "100 * 4 dvd 100 * (B + 1)" using l(2) by (simp add: add.commute)
      then have "4 dvd B + 1" by (subst (asm) dvd_times_left_cancel_iff) simp_all
      then have "B mod 4 = 3" by presburger
      then show ?thesis using True by simp
    next
      case False
      have "Y + 1 = 4 * (25 * B) + (Z + 1)" using Y(1) by simp
      then have "4 dvd Z + 1" using l(1) by (metis dvd_add_right_iff dvd_triv_left)
      then have "Z mod 4 = 3" by presburger
      then show ?thesis using False by simp
    qed
  qed
  define C where "C = 365 * Z + Z div 4 + e"
  have BB: "(B * 146097) div 4 = 36524 * B + B div 4" using quarter[of B 36524] by simp
  have A: "A = (B * 146097) div 4 + C"
  proof -
    have "A = 365 * Y + (25 * B + Z div 4) - B + B div 4 + e" unfolding A_def march_day_def d4 d400 by (simp add: B_def)
    then show ?thesis unfolding BB C_def using Y(1) by simp
  qed
  have ZZ: "(Z * 1461) div 4 = 365 * Z + Z div 4" using quarter[of Z 365] by simp
  have C': "C = (Z * 1461) div 4 + e" using ZZ by (simp add: C_def)
  have e: "4 * e + 3 - Z mod 4 < 1461" using assms(3) leap Y(2,3) by (cases "e = 365") (auto split: if_splits)
  have C0: "0 \<le> C" using assms(2) Y(2) by (simp add: C_def)
  have "4 * C + 3 - B mod 4 < 146097"
  proof (cases "Z = 99")
    case True
    then show ?thesis using assms(3) leap by (cases "e = 365") (auto simp: C_def)
  next
    case False
    then have "Z \<le> 98" using Y(3) by simp
    moreover have "0 \<le> B mod 4" by simp
    ultimately show ?thesis using assms(3) by (simp add: C_def)
  qed
  then have "(4 * A + 3) div 146097 = B" using cycle_div[of 146097 36524 B C] Y(4) C0 by (simp add: A)
  moreover have "(4 * C + 3) div 1461 = Z" using cycle_div[of 1461 365 Z e] Y(2) assms(2) e by (simp add: C')
  ultimately show "(4 * A + 3) div 146097 = Y div 100"
    "A - ((Y div 100) * 146097) div 4 = 365 * (Y mod 100) + (Y mod 100) div 4 + e"
    "(4 * (365 * (Y mod 100) + (Y mod 100) div 4 + e) + 3) div 1461 = Y mod 100"
    unfolding B_def[symmetric] Z_def[symmetric] C_def[symmetric] using A by simp_all
qed

section \<open>The conversions and the calendar\<close>

definition march_year :: "int \<Rightarrow> int \<Rightarrow> int" where
  "march_year yr mon = yr + 4800 - (if mon \<le> 2 then 1 else 0)"

definition march_month :: "int \<Rightarrow> int" where
  "march_month mon = (if mon \<le> 2 then mon + 9 else mon - 3)"

lemma month_cases:
  assumes "1 \<le> (m :: int)" "m \<le> 12"
  obtains "m = 1" | "m = 2" | "m = 3" | "m = 4" | "m = 5" | "m = 6" | "m = 7" | "m = 8" | "m = 9" | "m = 10" | "m = 11" | "m = 12"
proof -
  have "m \<in> {1, 2, 3, 4, 5, 6, 7, 8, 9, 10, 11, 12}" using assms by simp presburger
  then show thesis using that by auto
qed

lemma march_shift: "1 \<le> (mon :: int) \<Longrightarrow> mon \<le> 12 \<Longrightarrow> (14 - mon) sdiv 12 = (if mon \<le> 2 then 1 else 0)"
  by (auto simp: sdiv_div)

lemma march_month_range: "1 \<le> mon \<Longrightarrow> mon \<le> 12 \<Longrightarrow> 0 \<le> march_month mon \<and> march_month mon \<le> 11"
  by (auto simp: march_month_def)

lemma march_year_range: "computable x \<Longrightarrow> 0 \<le> march_year (year x) (month x)"
  by (auto simp: computable_def march_year_def)

lemma leap_shift: "leap_year (4800 + y) = leap_year y"
proof -
  have "4 dvd (4800 :: int)" "100 dvd (4800 :: int)" "400 dvd (4800 :: int)" by simp_all
  then show ?thesis unfolding leap_year_def by (simp only: dvd_add_right_iff)
qed

lemma month_length_march:
  assumes "1 \<le> mon" "mon \<le> 12"
  shows "days_in_month yr mon = month_length (march_month mon) - (if mon = 2 \<and> \<not> leap_year yr then 1 else 0)"
  using assms by (cases rule: month_cases) (simp_all add: days_in_month_def month_length_def march_month_def)

lemma getJulianDayNumber_march:
  assumes "1 \<le> mon" "mon \<le> 12" "0 \<le> march_year yr mon"
  shows "getJulianDayNumber yr mon d = march_day (march_year yr mon) (year_day (march_month mon) (d - 1)) - 32044"
proof -
  have m: "mon + 12 * (if mon \<le> 2 then 1 else 0) - 3 = march_month mon" by (simp add: march_month_def)
  have "getJulianDayNumber yr mon d = d + (153 * march_month mon + 2) sdiv 5 + march_year yr mon * 365 +
      march_year yr mon sdiv 4 - march_year yr mon sdiv 100 + march_year yr mon sdiv 400 - 32045"
    unfolding getJulianDayNumber_def Let_def march_shift[OF assms(1,2)] m march_year_def ..
  then show ?thesis using march_month_range[OF assms(1,2)] assms(3) by (simp add: sdiv_div march_day_def year_day_def)
qed

lemma getYearMonthDay_march:
  assumes "0 \<le> Y" "0 \<le> m" "m \<le> 11" "0 \<le> d" "d < month_length m" "m = 11 \<and> d = 28 \<longrightarrow> march_leap Y"
  shows "getYearMonthDay (march_day Y (year_day m d) - 32044) =
    \<lparr>year = Y - 4800 + m div 10, month = m + 3 - 12 * (m div 10), day = d + 1\<rparr>"
proof -
  let ?e = "year_day m d"
  let ?A = "march_day Y ?e"
  let ?C = "365 * (Y mod 100) + (Y mod 100) div 4 + ?e"
  note e = year_day_month[OF assms(2-5)]
  have e0: "0 \<le> ?e" using assms(2,4) by (simp add: year_day_def)
  have l: "?e = 365 \<longrightarrow> march_leap Y" using e(3) assms(6) by auto
  note c = march_day_cycle[OF assms(1) e0 e(2) l]
  have A0: "0 \<le> ?A"
  proof -
    have "0 \<le> Y div 100" "0 \<le> Y div 4" "0 \<le> Y div 400" using assms(1) by (simp_all add: pos_imp_zdiv_nonneg_iff)
    moreover have "100 * (Y div 100) + Y mod 100 = Y" "0 \<le> Y mod 100" by simp_all
    ultimately show ?thesis using assms(1) e0 unfolding march_day_def by linarith
  qed
  have b0: "0 \<le> Y div 100" using assms(1) by (simp add: pos_imp_zdiv_nonneg_iff)
  have z0: "0 \<le> Y mod 100" by simp
  have C0: "0 \<le> ?C" using e0 by simp
  have ZZ: "(1461 * (Y mod 100)) div 4 = 365 * (Y mod 100) + (Y mod 100) div 4"
    using quarter[of "Y mod 100" 365] by (simp add: mult.commute)
  have b: "(4 * (?A - 32044 + 32044) + 3) sdiv 146097 = Y div 100" using c(1) A0 by (simp add: sdiv_div)
  have C: "?A - 32044 + 32044 - (Y div 100 * 146097) sdiv 4 = ?C" using c(2) b0 by (simp add: sdiv_div)
  have d: "(4 * ?C + 3) sdiv 1461 = Y mod 100" using c(3) C0 by (subst sdiv_div) simp_all
  have E: "?C - (1461 * (Y mod 100)) sdiv 4 = ?e" using ZZ z0 by (subst sdiv_div) simp_all
  have M: "(5 * ?e + 2) sdiv 153 = m" using e(1) e0 by (subst sdiv_div) simp_all
  have D: "?e - (153 * m + 2) sdiv 5 + 1 = d + 1" using assms(2) by (simp add: sdiv_div year_day_def)
  have M10: "m sdiv 10 = m div 10" using assms(2) by (simp add: sdiv_div)
  have Y: "Y div 100 * 100 + Y mod 100 = Y" by simp
  show ?thesis unfolding getYearMonthDay_def Let_def b C d E M D M10 Y ..
qed

text \<open>Julian day number of a calendar date.\<close>

definition julian :: "YearMonthDay \<Rightarrow> int" where
  "julian x = getJulianDayNumber (year x) (month x) (day x)"

lemma julian_march:
  assumes "valid_date x" "computable x"
  shows "julian x = march_day (march_year (year x) (month x)) (year_day (march_month (month x)) (day x - 1)) - 32044"
  using assms by (simp add: julian_def getJulianDayNumber_march march_year_range valid_date_def)

lemma getYearMonthDay_julian:
  assumes v: "valid_date x" and c: "computable x"
  shows "getYearMonthDay (julian x) = x"
proof -
  let ?m = "march_month (month x)"
  let ?Y = "march_year (year x) (month x)"
  have mon: "1 \<le> month x" "month x \<le> 12" and d: "1 \<le> day x" "day x \<le> days_in_month (year x) (month x)"
    using v by (simp_all add: valid_date_def)
  have "?m = 11 \<longrightarrow> month x = 2" using mon by (auto simp: march_month_def)
  then have leap: "?m = 11 \<and> day x - 1 = 28 \<longrightarrow> march_leap ?Y"
    using d(2) by (auto simp: days_in_month_def march_leap_def march_year_def leap_shift split: if_splits)
  have len: "0 \<le> day x - 1" "day x - 1 < month_length ?m"
    using d month_length_march[OF mon, of "year x"] by (simp_all split: if_splits)
  have m: "0 \<le> ?m" "?m \<le> 11" using march_month_range[OF mon] by simp_all
  have ym: "?Y - 4800 + ?m div 10 = year x" "?m + 3 - 12 * (?m div 10) = month x"
    using mon by (cases rule: month_cases, simp_all add: march_year_def march_month_def)+
  show ?thesis
    unfolding julian_march[OF v c] getYearMonthDay_march[OF march_year_range[OF c] m len leap] ym by simp
qed

lemma div_Suc_dvd:
  assumes "0 < (n :: int)"
  shows "(Y + 1) div n = Y div n + (if n dvd Y + 1 then 1 else 0)"
proof (cases "n dvd Y + 1")
  case True
  then obtain k where k: "Y + 1 = n * k" by blast
  then have "Y = n * (k - 1) + (n - 1)" by (simp add: algebra_simps)
  then have "Y div n = k - 1" using assms by (intro int_div_pos_eq[of Y n "k - 1" "n - 1"]) simp_all
  then show ?thesis using k assms by simp
next
  case False
  let ?r = "Y mod n"
  have r: "Y = n * (Y div n) + ?r" "0 \<le> ?r" "?r < n" using assms by simp_all
  have "?r \<noteq> n - 1"
  proof
    assume "?r = n - 1"
    then have "Y + 1 = n * (Y div n + 1)" unfolding distrib_left using r(1) by linarith
    then show False using False by (metis dvd_triv_left)
  qed
  then have "(Y + 1) div n = Y div n" using r by (intro int_div_pos_eq[of _ _ _ "?r + 1"]) simp_all
  then show ?thesis using False by simp
qed

lemma march_day_next_year:
  "march_day (Y + 1) 0 = march_day Y (if march_leap Y then 365 else 364) + 1"
proof -
  define p q r where "p \<longleftrightarrow> 4 dvd Y + 1" and "q \<longleftrightarrow> 100 dvd Y + 1" and "r \<longleftrightarrow> 400 dvd Y + 1"
  have pqr: "r \<longrightarrow> q" "q \<longrightarrow> p" unfolding p_def q_def r_def by (auto elim: dvd_trans[rotated])
  have d: "(Y + 1) div 4 = Y div 4 + (if p then 1 else 0)" "(Y + 1) div 100 = Y div 100 + (if q then 1 else 0)"
    "(Y + 1) div 400 = Y div 400 + (if r then 1 else 0)"
    unfolding p_def q_def r_def by (rule div_Suc_dvd, simp)+
  have "march_leap Y \<longleftrightarrow> p \<and> (\<not> q \<or> r)" by (simp add: march_leap_def leap_year_def p_def q_def r_def)
  then show ?thesis unfolding march_day_def d using pqr by (cases p; cases q; cases r) simp_all
qed

lemma next_day_valid: "valid_date x \<Longrightarrow> valid_date (next_day x)"
  by (auto simp: valid_date_def next_day_def days_in_month_def)

lemma next_day_computable: "valid_date x \<Longrightarrow> computable x \<Longrightarrow> computable (next_day x)"
  by (auto simp: valid_date_def next_day_def computable_def)

lemma julian_next_month:
  assumes "1 \<le> m" "m \<le> 12" "0 \<le> march_year y m"
  shows "getJulianDayNumber (if m = 12 then y + 1 else y) (if m = 12 then 1 else m + 1) 1 =
    getJulianDayNumber y m (days_in_month y m) + 1"
proof (cases "m = 2")
  case True
  have "march_year y 3 = march_year y 2 + 1" by (simp add: march_year_def)
  moreover have "march_leap (march_year y 2) = leap_year y" by (simp add: march_leap_def march_year_def leap_shift)
  ultimately show ?thesis
    using True assms(3) march_day_next_year[of "march_year y 2"]
    by (simp add: getJulianDayNumber_march march_month_def days_in_month_def year_day_def split: if_splits)
next
  case False
  let ?y = "if m = 12 then y + 1 else y" and ?m = "if m = 12 then 1 else m + 1"
  have "march_year ?y ?m = march_year y m" using False assms(1,2) by (auto simp: march_year_def)
  moreover have "year_day (march_month ?m) 0 = year_day (march_month m) (days_in_month y m - 1) + 1"
    using assms(1,2) False by (cases rule: month_cases) (simp_all add: march_month_def year_day_def days_in_month_def)
  moreover have "1 \<le> ?m" "?m \<le> 12" using assms(1,2) by auto
  ultimately show ?thesis using assms by (simp add: getJulianDayNumber_march march_day_def)
qed

lemma julian_next_day:
  assumes v: "valid_date x" and c: "computable x"
  shows "julian (next_day x) = julian x + 1"
proof (cases "day x < days_in_month (year x) (month x)")
  case True
  then show ?thesis by (simp add: next_day_def julian_def getJulianDayNumber_def Let_def)
next
  case False
  then have "day x = days_in_month (year x) (month x)" using v by (simp add: valid_date_def)
  then show ?thesis
    using v julian_next_month[OF _ _ march_year_range[OF c]] False
    by (auto simp: next_day_def julian_def valid_date_def split: if_splits)
qed

lemma every_day_has_a_date:
  assumes "-32044 \<le> j"
  shows "\<exists>x. valid_date x \<and> computable x \<and> julian x = j"
  using assms
proof (induction j rule: int_ge_induct)
  case base
  have "valid_date \<lparr>year = -4800, month = 3, day = 1\<rparr>" "computable \<lparr>year = -4800, month = 3, day = 1\<rparr>"
    by (simp_all add: valid_date_def computable_def days_in_month_def)
  moreover have "julian \<lparr>year = -4800, month = 3, day = 1\<rparr> = -32044" by code_simp
  ultimately show ?case by blast
next
  case (step j)
  then obtain x where x: "valid_date x" "computable x" "julian x = j" by blast
  then show ?case using next_day_valid[OF x(1)] next_day_computable[OF x(1,2)] julian_next_day[OF x(1,2)] by metis
qed

lemma getYearMonthDay_ok:
  assumes "-32044 \<le> j"
  shows "valid_date (getYearMonthDay j) \<and> computable (getYearMonthDay j) \<and> julian (getYearMonthDay j) = j"
  using every_day_has_a_date[OF assms] getYearMonthDay_julian by auto

text \<open>The 32-bit computation: up to this day number no intermediate result leaves the range of \<open>int\<close>.\<close>

definition int32 :: "int \<Rightarrow> bool" where
  "int32 x \<longleftrightarrow> - (2 ^ 31) \<le> x \<and> x < 2 ^ 31"

definition max_day :: int where "max_day = 2 ^ 29 - 32046"

lemma getYearMonthDay_no_overflow:
  assumes "-32044 \<le> j" "j \<le> max_day"
  defines "a \<equiv> j + 32044"
  defines "b \<equiv> (4 * a + 3) sdiv 146097"
  defines "c \<equiv> a - (b * 146097) sdiv 4"
  defines "d \<equiv> (4 * c + 3) sdiv 1461"
  defines "e \<equiv> c - (1461 * d) sdiv 4"
  defines "m \<equiv> (5 * e + 2) sdiv 153"
  shows "list_all int32 [a, 4 * a + 3, b * 146097, c, 4 * c + 3, 1461 * d, e, 5 * e + 2, 153 * m + 2, b * 100 + d]"
proof -
  have a: "0 \<le> a" "4 * a + 3 < 2 ^ 31" using assms(1,2) by (simp_all add: a_def max_day_def)
  have b: "0 \<le> b" "b * 146097 \<le> 4 * a + 3"
    using a by (simp_all add: b_def sdiv_div pos_imp_zdiv_nonneg_iff)
  have c: "0 \<le> c" "c \<le> a" using b a by (simp_all add: c_def sdiv_div)
  have d: "0 \<le> d" "1461 * d \<le> 4 * c + 3"
    using c by (simp_all add: d_def sdiv_div pos_imp_zdiv_nonneg_iff)
  have e: "0 \<le> e" "4 * e \<le> 4 * c - (1461 * d) + 3" using d c by (simp_all add: e_def sdiv_div)
  have "4 * c + 3 < 1461 * (d + 1)" using c by (simp add: d_def sdiv_div)
  then have e': "e < 400" using e by simp
  have m: "0 \<le> m" "153 * m \<le> 5 * e + 2"
    using e by (simp_all add: m_def sdiv_div pos_imp_zdiv_nonneg_iff)
  have "4 * c + 3 < 2 ^ 31" "1461 * d < 2 ^ 31" "b * 146097 < 2 ^ 31" using a b c d by linarith+
  then show ?thesis using a b c(1) d(1) e(1) e' m by (simp add: int32_def)
qed

lemma weekDay_next: "0 \<le> j \<Longrightarrow> weekDay (j + 1) = (weekDay j + 1) mod 7"
  by (simp add: weekDay_def kDaysPerWeek_def smod_mod mod_simps)

section \<open>Properties\<close>

text \<open>
  C23. The conversions between Julian day numbers and dates agree with the Gregorian calendar and are
  inverse to each other: the Julian day number of a date that exists converts back to that date, every
  day number from -32044 (the first of March of the year -4800) converts to a date that exists and back to
  itself, and the day after it is the next day of the calendar, with the next day of the week.
\<close>

theorem date_round_trip:
  assumes "valid_date x" "computable x" and "-32044 \<le> j"
  shows "getYearMonthDay (getJulianDayNumber (year x) (month x) (day x)) = x \<and>
     valid_date (getYearMonthDay j) \<and>
     getJulianDayNumber (year (getYearMonthDay j)) (month (getYearMonthDay j)) (day (getYearMonthDay j)) = j \<and>
     getYearMonthDay (j + 1) = next_day (getYearMonthDay j) \<and>
     (0 \<le> j \<longrightarrow> weekDay (j + 1) = (weekDay j + 1) mod 7)"
proof -
  have x: "getYearMonthDay (getJulianDayNumber (year x) (month x) (day x)) = x"
    using getYearMonthDay_julian[OF assms(1,2)] by (simp add: julian_def)
  let ?z = "getYearMonthDay j"
  have z: "valid_date ?z" "computable ?z" "julian ?z = j" using getYearMonthDay_ok[OF assms(3)] by simp_all
  moreover have "getYearMonthDay (j + 1) = next_day ?z"
    using getYearMonthDay_julian[OF next_day_valid[OF z(1)] next_day_computable[OF z(1,2)]] julian_next_day[OF z(1,2)] z(3) by simp
  ultimately show ?thesis using x weekDay_next by (simp add: julian_def)
qed

theorem date_round_trip_witness:
  "getYearMonthDay (getJulianDayNumber 2008 2 29) = \<lparr>year = 2008, month = 2, day = 29\<rparr> \<and>
   getYearMonthDay (2454526 + 1) = next_day (getYearMonthDay 2454526) \<and> weekDay (2454526 + 1) = (weekDay 2454526 + 1) mod 7"
proof -
  have "valid_date \<lparr>year = 2008, month = 2, day = 29\<rparr>" "computable \<lparr>year = 2008, month = 2, day = 29\<rparr>"
    by (simp_all add: valid_date_def computable_def days_in_month_def leap_year_def)
  then show ?thesis using date_round_trip[of "\<lparr>year = 2008, month = 2, day = 29\<rparr>" 2454526] by simp
qed

end
