(* ===== verification/Time_Zone.thy ===== *)
theory Time_Zone
  imports Dates Net_Endian
begin

text \<open>
  Time zones (\<open>muduo/base/TimeZone.h\<close>, \<open>TimeZone.cc\<close>): reading a zone file, finding the local time in
  force and converting between seconds, UTC and local time.  \<open>time_t\<close> is \<open>int\<close>.  A result \<open>None\<close> is a
  failed assertion or an access outside a vector or string.  \<open>gmtime_r\<close> and \<open>timegm\<close> of the C library are
  arguments of the two conversions that call them.
\<close>

section \<open>Data\<close>

record Transition =
  gmttime :: int
  localtime :: int
  localtimeIdx :: int

definition Comp_less :: "bool \<Rightarrow> Transition \<Rightarrow> Transition \<Rightarrow> bool" where
  "Comp_less compareGmt lhs rhs \<longleftrightarrow> (if compareGmt then gmttime lhs < gmttime rhs else localtime lhs < localtime rhs)"

definition Comp_equal :: "bool \<Rightarrow> Transition \<Rightarrow> Transition \<Rightarrow> bool" where
  "Comp_equal compareGmt lhs rhs \<longleftrightarrow> (if compareGmt then gmttime lhs = gmttime rhs else localtime lhs = localtime rhs)"

record Localtime =
  gmtOffset :: int
  isDst :: bool
  arrbIdx :: int

text \<open>\<open>seconds\<close> and \<open>minutes\<close> are \<open>unsigned\<close>.\<close>

definition fillHMS :: "nat \<Rightarrow> tm \<Rightarrow> tm" where
  "fillHMS seconds utc =
     (let minutes = seconds div 60
      in utc\<lparr>tm_sec := int (seconds mod 60), tm_min := int (minutes mod 60), tm_hour := int (minutes div 60)\<rparr>)"

definition kSecondsPerDay :: int where "kSecondsPerDay = 24 * 60 * 60"

record Data =
  transitions :: "Transition list"
  localtimes :: "Localtime list"
  names :: "string list"
  abbreviation_text :: string

definition new_Data :: Data where
  "new_Data = \<lparr>transitions = [], localtimes = [], names = [], abbreviation_text = []\<rparr>"

section \<open>Reading a zone file\<close>

text \<open>
  A reader works on what is left of the file and on the \<open>Data\<close> being filled.  It is undefined
  (\<open>None\<close>), throws a \<open>logic_error\<close> (\<open>Inl\<close> of its text) or returns a value; what a reader did to the \<open>Data\<close>
  before it throws stays.
\<close>

type_synonym read_state = "byte list \<times> Data"

type_synonym 'a reader = "read_state \<Rightarrow> ((string + 'a) \<times> read_state) option"

definition returns :: "'a \<Rightarrow> 'a reader" where
  "returns x s = Some (Inr x, s)"

definition throws :: "string \<Rightarrow> 'a reader" where
  "throws e s = Some (Inl e, s)"

definition and_then :: "'a reader \<Rightarrow> ('a \<Rightarrow> 'b reader) \<Rightarrow> 'b reader" where
  "and_then m f s = (case m s of None \<Rightarrow> None | Some (Inl e, s') \<Rightarrow> Some (Inl e, s') | Some (Inr x, s') \<Rightarrow> f x s')"

definition modify :: "(Data \<Rightarrow> Data) \<Rightarrow> unit reader" where
  "modify f s = Some (Inr (), fst s, f (snd s))"

text \<open>\<open>fread\<close> of \<open>n\<close> bytes; the array on the stack must not have a negative size.\<close>

definition fread :: "nat \<Rightarrow> string \<Rightarrow> byte list reader" where
  "fread n e s =
     (if n \<le> length (fst s) then Some (Inr (take n (fst s)), drop n (fst s), snd s)
      else Some (Inl e, [], snd s))"

definition readBytes :: "int \<Rightarrow> string reader" where
  "readBytes n s =
     (if n < 0 then None
      else and_then (fread (nat n) ''no enough data'') (\<lambda>bs. returns (map (\<lambda>b. char_of (unat b)) bs)) s)"

definition readInt32 :: "host_order \<Rightarrow> int reader" where
  "readInt32 h = and_then (fread 4 ''bad int32_t data'')
     (\<lambda>bs. returns (sint (networkToHost32 h (obj_of_bytes h bs))))"

definition readUInt8 :: "nat reader" where
  "readUInt8 = and_then (fread 1 ''bad uint8_t data'') (\<lambda>bs. returns (unat (hd bs)))"

text \<open>A loop that reads \<open>n\<close> values into a vector.\<close>

fun read_times :: "nat \<Rightarrow> 'a reader \<Rightarrow> 'a list reader" where
  "read_times 0 m = returns []"
| "read_times (Suc n) m = and_then m (\<lambda>x. and_then (read_times n m) (\<lambda>xs. returns (x # xs)))"

fun read_localtimes :: "host_order \<Rightarrow> nat \<Rightarrow> unit reader" where
  "read_localtimes h 0 = returns ()"
| "read_localtimes h (Suc n) =
     and_then (readInt32 h) (\<lambda>gmtoff.
     and_then readUInt8 (\<lambda>isdst.
     and_then readUInt8 (\<lambda>abbrind.
     and_then (modify (\<lambda>d. d\<lparr>localtimes := localtimes d @ [\<lparr>gmtOffset = gmtoff, isDst = isdst \<noteq> 0, arrbIdx = int abbrind\<rparr>]\<rparr>)) (\<lambda>_.
     read_localtimes h n))))"

text \<open>The transitions are made from the times and the indices read before; the index is not checked.\<close>

fun make_transitions :: "(int \<times> nat) list \<Rightarrow> unit reader" where
  "make_transitions [] = returns ()"
| "make_transitions ((t, localIdx) # ts) = (\<lambda>s.
     if localIdx < length (localtimes (snd s)) then
       and_then (modify (\<lambda>d. d\<lparr>transitions := transitions d @
           [\<lparr>gmttime = t, localtime = t + gmtOffset (localtimes d ! localIdx), localtimeIdx = int localIdx\<rparr>]\<rparr>))
         (\<lambda>_. make_transitions ts) s
     else None)"

definition readZone :: "host_order \<Rightarrow> unit reader" where
  "readZone h =
     and_then (readBytes 4) (\<lambda>head.
     if head \<noteq> ''TZif'' then throws ''bad head'' else
     and_then (readBytes 1) (\<lambda>version.
     and_then (readBytes 15) (\<lambda>_.
     and_then (readInt32 h) (\<lambda>isgmtcnt.
     and_then (readInt32 h) (\<lambda>isstdcnt.
     and_then (readInt32 h) (\<lambda>leapcnt.
     and_then (readInt32 h) (\<lambda>timecnt.
     and_then (readInt32 h) (\<lambda>typecnt.
     and_then (readInt32 h) (\<lambda>charcnt.
     if timecnt < 0 then throws ''vector::reserve'' else
     and_then (read_times (nat timecnt) (readInt32 h)) (\<lambda>trans.
     and_then (read_times (nat timecnt) readUInt8) (\<lambda>locals.
     and_then (read_localtimes h (nat typecnt)) (\<lambda>_.
     and_then (make_transitions (zip trans locals)) (\<lambda>_.
     and_then (readBytes charcnt) (\<lambda>text.
     modify (\<lambda>d. d\<lparr>abbreviation_text := text\<rparr>)))))))))))))))"

text \<open>
  The result, the data and what is printed to \<open>stderr\<close>; the file is \<open>None\<close> when it cannot be opened.
\<close>

definition readTimeZoneFile :: "host_order \<Rightarrow> byte list option \<Rightarrow> Data \<Rightarrow> (bool \<times> Data \<times> string) option" where
  "readTimeZoneFile h zonefile data =
     (case zonefile of
        None \<Rightarrow> Some (True, data, [])
      | Some bs \<Rightarrow> (case readZone h (bs, data) of
            None \<Rightarrow> None
          | Some (Inl e, _, d) \<Rightarrow> Some (True, d, e @ [CHR 0x0A])
          | Some (Inr _, _, d) \<Rightarrow> Some (True, d, [])))"

section \<open>TimeZone\<close>

text \<open>\<open>std::lower_bound\<close>: the first element of a partitioned range that is not less, by halving.\<close>

fun bisect :: "('a \<Rightarrow> bool) \<Rightarrow> 'a list \<Rightarrow> nat \<Rightarrow> nat \<Rightarrow> nat" where
  "bisect before xs first len =
     (if len = 0 then first
      else let half = len div 2; middle = first + half
           in if before (xs ! middle) then bisect before xs (middle + 1) (len - half - 1) else bisect before xs first half)"

declare bisect.simps [simp del]

definition vec_at :: "'a list \<Rightarrow> int \<Rightarrow> 'a option" where
  "vec_at xs i = (if 0 \<le> i \<and> i < int (length xs) then Some (xs ! nat i) else None)"

definition findLocaltime :: "Data \<Rightarrow> Transition \<Rightarrow> bool \<Rightarrow> Localtime option" where
  "findLocaltime data sentry cmp =
     (let ts = transitions data
      in if ts = [] \<or> Comp_less cmp sentry (ts ! 0) then vec_at (localtimes data) 0
         else let transI = bisect (\<lambda>t. Comp_less cmp t sentry) ts 0 (length ts)
              in if transI \<noteq> length ts then
                   (if \<not> Comp_equal cmp sentry (ts ! transI) then
                      (if transI \<noteq> 0 then vec_at (localtimes data) (localtimeIdx (ts ! (transI - 1))) else None)
                    else vec_at (localtimes data) (localtimeIdx (ts ! transI)))
                 else vec_at (localtimes data) (localtimeIdx (last ts)))"

type_synonym time_zone = "Data option"

definition TimeZone_file :: "host_order \<Rightarrow> byte list option \<Rightarrow> time_zone option" where
  "TimeZone_file h zonefile =
     map_option (\<lambda>(ok, d, _). if ok then Some d else None) (readTimeZoneFile h zonefile new_Data)"

definition TimeZone_fixed :: "int \<Rightarrow> string \<Rightarrow> time_zone" where
  "TimeZone_fixed eastOfUtc name =
     Some (new_Data\<lparr>localtimes := [\<lparr>gmtOffset = eastOfUtc, isDst = False, arrbIdx = 0\<rparr>], abbreviation_text := name\<rparr>)"

definition TimeZone_valid :: "time_zone \<Rightarrow> bool" where
  "TimeZone_valid z \<longleftrightarrow> z \<noteq> None"

text \<open>The characters up to the terminating NUL, from an index of a string.\<close>

definition c_string_at :: "string \<Rightarrow> int \<Rightarrow> string option" where
  "c_string_at s i =
     (if 0 \<le> i \<and> i \<le> int (length s) then Some (takeWhile (\<lambda>c. c \<noteq> CHR 0x00) (drop (nat i) s)) else None)"

definition toLocalTime :: "(int \<Rightarrow> tm) \<Rightarrow> time_zone \<Rightarrow> int \<Rightarrow> tm option" where
  "toLocalTime gmtime_r z seconds = do {
     data \<leftarrow> z;
     local \<leftarrow> findLocaltime data \<lparr>gmttime = seconds, localtime = 0, localtimeIdx = 0\<rparr> True;
     zone \<leftarrow> c_string_at (abbreviation_text data) (arrbIdx local);
     Some ((gmtime_r (seconds + gmtOffset local))
       \<lparr>tm_isdst := (if isDst local then 1 else 0), tm_gmtoff := gmtOffset local, tm_zone := zone\<rparr>)
   }"

definition fromLocalTime :: "(int \<Rightarrow> tm) \<Rightarrow> (tm \<Rightarrow> int) \<Rightarrow> time_zone \<Rightarrow> tm \<Rightarrow> int option" where
  "fromLocalTime gmtime_r timegm z localTm = do {
     data \<leftarrow> z;
     let seconds = timegm localTm;
     local \<leftarrow> findLocaltime data \<lparr>gmttime = 0, localtime = seconds, localtimeIdx = 0\<rparr> False;
     if tm_isdst localTm \<noteq> 0 then do {
       tryTm \<leftarrow> toLocalTime gmtime_r z (seconds - gmtOffset local);
       if tm_isdst tryTm = 0 \<and> tm_hour tryTm = tm_hour localTm \<and> tm_min tryTm = tm_min localTm
       then Some (seconds - 3600 - gmtOffset local)
       else Some (seconds - gmtOffset local)
     } else Some (seconds - gmtOffset local)
   }"

definition zero_tm :: tm where
  "zero_tm = \<lparr>tm_sec = 0, tm_min = 0, tm_hour = 0, tm_mday = 0, tm_mon = 0, tm_year = 0, tm_wday = 0,
     tm_yday = 0, tm_isdst = 0, tm_gmtoff = 0, tm_zone = []\<rparr>"

definition toUtcTime :: "int \<Rightarrow> bool \<Rightarrow> tm" where
  "toUtcTime secondsSinceEpoch yday =
     (let seconds0 = signed_take_bit 31 (secondsSinceEpoch smod kSecondsPerDay);
          days0 = signed_take_bit 31 (secondsSinceEpoch sdiv kSecondsPerDay);
          seconds = (if seconds0 < 0 then seconds0 + kSecondsPerDay else seconds0);
          days = (if seconds0 < 0 then days0 - 1 else days0);
          utc = fillHMS (nat seconds) (zero_tm\<lparr>tm_zone := ''GMT''\<rparr>);
          date = days + kJulianDayOf1970_01_01;
          ymd = yearMonthDay date
      in utc\<lparr>tm_mday := day ymd, tm_mon := month ymd - 1, tm_year := year ymd - 1900, tm_wday := weekDay date,
             tm_yday := (if yday then date - Date_of_ymd (year ymd) 1 1 else 0)\<rparr>)"

definition fromUtcTime :: "int \<Rightarrow> int \<Rightarrow> int \<Rightarrow> int \<Rightarrow> int \<Rightarrow> int \<Rightarrow> int" where
  "fromUtcTime yr mon d hour minute seconds =
     (let date = Date_of_ymd yr mon d;
          secondsInDay = hour * 3600 + minute * 60 + seconds;
          days = date - kJulianDayOf1970_01_01
      in days * kSecondsPerDay + secondsInDay)"

definition fromUtcTime_tm :: "tm \<Rightarrow> int" where
  "fromUtcTime_tm utc =
     fromUtcTime (tm_year utc + 1900) (tm_mon utc + 1) (tm_mday utc) (tm_hour utc) (tm_min utc) (tm_sec utc)"

section \<open>UTC\<close>

text \<open>The seconds whose date can be computed.\<close>

definition utc_day :: "int \<Rightarrow> int" where
  "utc_day s = s div kSecondsPerDay + kJulianDayOf1970_01_01"

definition utc_range :: "int \<Rightarrow> bool" where
  "utc_range s \<longleftrightarrow> -32044 \<le> utc_day s \<and> utc_day s \<le> max_day"

lemma julian_epoch: "kJulianDayOf1970_01_01 = 2440588"
  by code_simp

lemma sdiv_smod_floor:
  fixes s n :: int
  assumes "0 < n"
  shows "(if s smod n < 0 then s smod n + n else s smod n) = s mod n"
    "(if s smod n < 0 then s sdiv n - 1 else s sdiv n) = s div n"
proof -
  have "(if s smod n < 0 then s smod n + n else s smod n) = s mod n \<and>
        (if s smod n < 0 then s sdiv n - 1 else s sdiv n) = s div n"
  proof (cases "0 \<le> s")
    case True
    then show ?thesis using assms pos_mod_sign[of n s] by (simp add: sdiv_div smod_mod del: pos_mod_sign)
  next
    case False
    define t where "t = - s"
    have t: "s = - t" "0 < t" using False by (simp_all add: t_def)
    have "s sdiv n = - (t div n)" "s smod n = - (t mod n)"
      using assms t by (simp_all add: signed_divide_int_def signed_modulo_int_def)
    moreover have "s mod n = (if t mod n = 0 then 0 else n - t mod n)" "s div n = (if t mod n = 0 then - (t div n) else - (t div n) - 1)"
      using assms by (simp_all add: t(1) zmod_zminus1_eq_if zdiv_zminus1_eq_if)
    moreover have "0 \<le> t mod n" using assms by simp
    ultimately show ?thesis by auto
  qed
  then show "(if s smod n < 0 then s smod n + n else s smod n) = s mod n"
    "(if s smod n < 0 then s sdiv n - 1 else s sdiv n) = s div n" by simp_all
qed

lemma signed_take_bit_small: "- (2 ^ 31) \<le> x \<Longrightarrow> x < 2 ^ 31 \<Longrightarrow> signed_take_bit 31 x = (x :: int)"
  by (simp add: signed_take_bit_int_eq_self)

lemma toUtcTime_simps:
  assumes "utc_range s"
  shows "toUtcTime s yday =
    (let ymd = getYearMonthDay (utc_day s); r = s mod 86400
     in \<lparr>tm_sec = r mod 60, tm_min = r div 60 mod 60, tm_hour = r div 60 div 60, tm_mday = day ymd,
         tm_mon = month ymd - 1, tm_year = year ymd - 1900, tm_wday = weekDay (utc_day s),
         tm_yday = (if yday then utc_day s - getJulianDayNumber (year ymd) 1 1 else 0),
         tm_isdst = 0, tm_gmtoff = 0, tm_zone = ''GMT''\<rparr>)"
proof -
  have fl: "(if s smod kSecondsPerDay < 0 then s smod kSecondsPerDay + kSecondsPerDay else s smod kSecondsPerDay) = s mod 86400"
    "(if s smod kSecondsPerDay < 0 then s sdiv kSecondsPerDay - 1 else s sdiv kSecondsPerDay) = s div kSecondsPerDay"
    using sdiv_smod_floor[of kSecondsPerDay s] by (simp_all add: kSecondsPerDay_def)
  have r: "0 \<le> s mod 86400" "s mod 86400 < 86400" by simp_all
  have d: "-2472632 \<le> s div kSecondsPerDay" "s div kSecondsPerDay < 2 ^ 30"
    using assms by (simp_all add: utc_range_def utc_day_def julian_epoch max_day_def)
  have "signed_take_bit 31 (s smod kSecondsPerDay) = s smod kSecondsPerDay"
    using fl(1) r by (intro signed_take_bit_small) (auto simp: kSecondsPerDay_def split: if_splits)
  moreover have "signed_take_bit 31 (s sdiv kSecondsPerDay) = s sdiv kSecondsPerDay"
    using fl(2) d by (intro signed_take_bit_small) (auto split: if_splits)
  ultimately show ?thesis
    using r by (simp add: toUtcTime_def Let_def fl fillHMS_def zero_tm_def utc_day_def[symmetric] yearMonthDay_def Date_of_ymd_def
        zmod_int zdiv_int)
qed

lemma fromUtcTime_toUtcTime:
  assumes "utc_range s"
  shows "fromUtcTime_tm (toUtcTime s yday) = s"
proof -
  let ?ymd = "getYearMonthDay (utc_day s)" and ?r = "s mod 86400"
  have "getJulianDayNumber (year ?ymd) (month ?ymd) (day ?ymd) = utc_day s"
    using assms getYearMonthDay_ok[of "utc_day s"] by (simp add: utc_range_def julian_def)
  then have "fromUtcTime_tm (toUtcTime s yday) =
      s div 86400 * 86400 + (?r div 60 div 60 * 3600 + ?r div 60 mod 60 * 60 + ?r mod 60)"
    by (simp add: toUtcTime_simps[OF assms] Let_def fromUtcTime_tm_def fromUtcTime_def Date_of_ymd_def utc_day_def kSecondsPerDay_def)
  also have "?r div 60 div 60 * 3600 + ?r div 60 mod 60 * 60 + ?r mod 60 = ?r"
    using div_mult_mod_eq[of "?r div 60" 60] div_mult_mod_eq[of ?r 60] by linarith
  finally show ?thesis by simp
qed

section \<open>The local time in force\<close>

lemma bisect_partition:
  assumes "\<And>i. i < k \<Longrightarrow> P (xs ! i)" "\<And>i. k \<le> i \<Longrightarrow> i < length xs \<Longrightarrow> \<not> P (xs ! i)"
    and "first \<le> k" "k \<le> first + len" "first + len \<le> length xs"
  shows "bisect P xs first len = k"
  using assms(3-5)
proof (induction len arbitrary: first rule: less_induct)
  case (less len)
  show ?case
  proof (cases "len = 0")
    case True
    then show ?thesis using less.prems by (simp add: bisect.simps)
  next
    case False
    let ?m = "first + len div 2"
    have half: "len div 2 < len" using False by simp
    have m: "P (xs ! ?m) \<longleftrightarrow> ?m < k" using assms(1,2)[of ?m] less.prems half by (meson leI less_le_trans nat_add_left_cancel_less)
    show ?thesis
      using False half m less.IH[of "len - len div 2 - 1" "?m + 1"] less.IH[of "len div 2" first] less.prems
      by (simp add: bisect.simps[of _ _ _ len] Let_def)
  qed
qed

text \<open>
  Period \<open>n\<close> is the time between transition \<open>n - 1\<close> and transition \<open>n\<close>; period 0 is what was before the
  first one, for which the first local time of the file is taken.
\<close>

definition local_at :: "Data \<Rightarrow> nat \<Rightarrow> Localtime" where
  "local_at d n = (if n = 0 then localtimes d ! 0 else localtimes d ! nat (localtimeIdx (transitions d ! (n - 1))))"

definition in_period :: "(Transition \<Rightarrow> int) \<Rightarrow> Transition list \<Rightarrow> int \<Rightarrow> nat \<Rightarrow> bool" where
  "in_period f ts v n \<longleftrightarrow> n \<le> length ts \<and> (0 < n \<longrightarrow> f (ts ! (n - 1)) \<le> v) \<and> (n < length ts \<longrightarrow> v < f (ts ! n))"

definition indices_ok :: "Data \<Rightarrow> bool" where
  "indices_ok d \<longleftrightarrow> localtimes d \<noteq> [] \<and>
     list_all (\<lambda>t. 0 \<le> localtimeIdx t \<and> localtimeIdx t < int (length (localtimes d))) (transitions d)"

definition comp_key :: "bool \<Rightarrow> Transition \<Rightarrow> int" where
  "comp_key cmp = (if cmp then gmttime else localtime)"

lemma Comp_by_key: "Comp_less cmp a b \<longleftrightarrow> comp_key cmp a < comp_key cmp b" "Comp_equal cmp a b \<longleftrightarrow> comp_key cmp a = comp_key cmp b"
  by (simp_all add: Comp_less_def Comp_equal_def comp_key_def)

lemma in_period_ex:
  assumes "sorted_wrt (\<lambda>a b. f a < f b) ts"
  shows "\<exists>n. in_period f ts v n"
proof -
  let ?n = "length (takeWhile (\<lambda>t. f t \<le> v) ts)"
  have "0 < ?n \<longrightarrow> f (ts ! (?n - 1)) \<le> v"
    by (metis (mono_tags, lifting) diff_less less_numeral_extra(1) nth_mem set_takeWhileD takeWhile_nth)
  then have "in_period f ts v ?n"
    using nth_length_takeWhile[of "\<lambda>t. f t \<le> v" ts] by (simp add: in_period_def length_takeWhile_le not_le)
  then show ?thesis by blast
qed

lemma findLocaltime_period:
  assumes s: "sorted_wrt (\<lambda>a b. comp_key cmp a < comp_key cmp b) (transitions d)" and i: "indices_ok d"
    and n: "in_period (comp_key cmp) (transitions d) (comp_key cmp sentry) n"
  shows "findLocaltime d sentry cmp = Some (local_at d n)"
proof -
  let ?ts = "transitions d" and ?f = "comp_key cmp" and ?v = "comp_key cmp sentry"
  have lt: "?f (?ts ! i) < ?f (?ts ! j)" if "i < j" "j < length ?ts" for i j using s that by (simp add: sorted_wrt_iff_nth_less)
  have at: "vec_at (localtimes d) (localtimeIdx (?ts ! j)) = Some (local_at d (Suc j))" if "j < length ?ts" for j
    using i that by (simp add: indices_ok_def vec_at_def local_at_def list_all_length)
  have at0: "vec_at (localtimes d) 0 = Some (local_at d 0)" using i by (simp add: indices_ok_def vec_at_def local_at_def)
  show ?thesis
  proof (cases "n = 0")
    case True
    then have "?ts = [] \<or> Comp_less cmp sentry (?ts ! 0)" using n by (auto simp: in_period_def Comp_by_key)
    then show ?thesis using at0 True by (simp add: findLocaltime_def)
  next
    case False
    then obtain m where m: "n = Suc m" by (cases n) auto
    have n': "m < length ?ts" "?f (?ts ! m) \<le> ?v" "Suc m < length ?ts \<longrightarrow> ?v < ?f (?ts ! Suc m)"
      using n by (simp_all add: in_period_def m)
    have low: "?f (?ts ! i) \<le> ?f (?ts ! m)" if "i \<le> m" for i using lt[of i m] that n'(1) by (cases "i = m") auto
    have first: "\<not> (?ts = [] \<or> Comp_less cmp sentry (?ts ! 0))" using low[of 0] n'(1,2) by (auto simp: Comp_by_key)
    define k where "k = (if ?f (?ts ! m) = ?v then m else Suc m)"
    have "bisect (\<lambda>t. Comp_less cmp t sentry) ?ts 0 (length ?ts) = k"
    proof (rule bisect_partition)
      show "Comp_less cmp (?ts ! i) sentry" if "i < k" for i
        using that low[of i] lt[of i m] n'(1,2) by (auto simp: Comp_by_key k_def split: if_splits)
      show "\<not> Comp_less cmp (?ts ! i) sentry" if ki: "k \<le> i" and il: "i < length ?ts" for i
      proof -
        consider "i = m" "?f (?ts ! m) = ?v" | "i = Suc m" | "Suc m < i"
          using ki by (cases "?f (?ts ! m) = ?v") (simp_all add: k_def, linarith+)
        then show ?thesis using n'(3) lt[of "Suc m" i] il by cases (auto simp: Comp_by_key)
      qed
    qed (use n'(1) in \<open>auto simp: k_def\<close>)
    then have b: "findLocaltime d sentry cmp =
        (if k \<noteq> length ?ts then
           (if \<not> Comp_equal cmp sentry (?ts ! k) then
              (if k \<noteq> 0 then vec_at (localtimes d) (localtimeIdx (?ts ! (k - 1))) else None)
            else vec_at (localtimes d) (localtimeIdx (?ts ! k)))
         else vec_at (localtimes d) (localtimeIdx (last ?ts)))"
      unfolding findLocaltime_def Let_def using first by (simp only: if_False)
    have last: "Suc m = length ?ts \<Longrightarrow> last ?ts = ?ts ! m" using first by (metis last_conv_nth diff_Suc_1)
    show ?thesis
      unfolding b k_def using n' at[of m] last by (auto simp: Comp_by_key m)
  qed
qed

section \<open>Local time and back\<close>

text \<open>
  What a zone must be like: indices within the vectors, transitions at least an hour apart in both
  scales, their local times computed as \<open>readTimeZoneFile\<close> does, and an offset that decreases only at the
  end of daylight saving time, by one hour.
\<close>

definition change_ok :: "Localtime \<Rightarrow> Localtime \<Rightarrow> bool" where
  "change_ok a b \<longleftrightarrow> gmtOffset a \<le> gmtOffset b \<or> gmtOffset a = gmtOffset b + 3600 \<and> isDst a \<and> \<not> isDst b"

definition zone_ok :: "Data \<Rightarrow> bool" where
  "zone_ok d \<longleftrightarrow> indices_ok d \<and>
     list_all (\<lambda>l. 0 \<le> arrbIdx l \<and> arrbIdx l \<le> int (length (abbreviation_text d))) (localtimes d) \<and>
     sorted_wrt (\<lambda>a b. gmttime a + 3600 \<le> gmttime b \<and> localtime a + 3600 \<le> localtime b) (transitions d) \<and>
     (\<forall>i \<in> {..< length (transitions d)}.
        localtime (transitions d ! i) = gmttime (transitions d ! i) + gmtOffset (local_at d (Suc i)) \<and>
        change_ok (local_at d i) (local_at d (Suc i)))"

text \<open>What is relied on of the C library: \<open>timegm\<close> is inverse to \<open>gmtime_r\<close> and ignores the zone.\<close>

definition libc_calendar :: "(int \<Rightarrow> tm) \<Rightarrow> (tm \<Rightarrow> int) \<Rightarrow> bool" where
  "libc_calendar gmtime_r timegm \<longleftrightarrow>
     (\<forall>s. utc_range s \<longrightarrow> timegm (gmtime_r s) = s) \<and>
     (\<forall>t dst off zone. timegm (t\<lparr>tm_isdst := dst, tm_gmtoff := off, tm_zone := zone\<rparr>) = timegm t)"

lemma zone_ok_period:
  assumes "zone_ok d"
  shows "in_period gmttime (transitions d) s n \<Longrightarrow> findLocaltime d \<lparr>gmttime = s, localtime = l, localtimeIdx = i\<rparr> True = Some (local_at d n)"
    "in_period localtime (transitions d) s n \<Longrightarrow> findLocaltime d \<lparr>gmttime = l, localtime = s, localtimeIdx = i\<rparr> False = Some (local_at d n)"
    "\<exists>n. in_period gmttime (transitions d) s n"
proof -
  have s: "sorted_wrt (\<lambda>a b. gmttime a + 3600 \<le> gmttime b \<and> localtime a + 3600 \<le> localtime b) (transitions d)" and ok: "indices_ok d"
    using assms by (simp_all add: zone_ok_def)
  have g: "sorted_wrt (\<lambda>a b. gmttime a < gmttime b) (transitions d)" and lo: "sorted_wrt (\<lambda>a b. localtime a < localtime b) (transitions d)"
    by (rule sorted_wrt_mono_rel[OF _ s], simp)+
  show "in_period gmttime (transitions d) s n \<Longrightarrow> findLocaltime d \<lparr>gmttime = s, localtime = l, localtimeIdx = i\<rparr> True = Some (local_at d n)"
    using findLocaltime_period[of True d, OF _ ok] g by (simp add: comp_key_def)
  show "in_period localtime (transitions d) s n \<Longrightarrow> findLocaltime d \<lparr>gmttime = l, localtime = s, localtimeIdx = i\<rparr> False = Some (local_at d n)"
    using findLocaltime_period[of False d, OF _ ok] lo by (simp add: comp_key_def)
  show "\<exists>n. in_period gmttime (transitions d) s n" by (rule in_period_ex[OF g])
qed

lemma local_at_mem: "indices_ok d \<Longrightarrow> n \<le> length (transitions d) \<Longrightarrow> local_at d n \<in> set (localtimes d)"
  by (cases n) (auto simp: indices_ok_def local_at_def list_all_length Suc_le_eq nat_less_iff intro!: nth_mem)

lemma toLocalTime_period:
  assumes z: "zone_ok d" and n: "in_period gmttime (transitions d) s n"
  shows "\<exists>zone. toLocalTime gmtime_r (Some d) s = Some ((gmtime_r (s + gmtOffset (local_at d n)))
    \<lparr>tm_isdst := (if isDst (local_at d n) then 1 else 0), tm_gmtoff := gmtOffset (local_at d n), tm_zone := zone\<rparr>)"
proof -
  have "local_at d n \<in> set (localtimes d)" using z n by (intro local_at_mem) (simp_all add: zone_ok_def in_period_def)
  then have "\<exists>zone. c_string_at (abbreviation_text d) (arrbIdx (local_at d n)) = Some zone"
    using z by (simp add: zone_ok_def list_all_iff c_string_at_def)
  then show ?thesis using zone_ok_period(1)[OF z n] by (auto simp: toLocalTime_def)
qed

text \<open>
  Local time falls into the period it was made in, unless it repeats after the end of daylight saving
  time; then it falls into the next period.
\<close>

lemma local_period:
  assumes z: "zone_ok d" and n: "in_period gmttime (transitions d) s n"
  defines "l \<equiv> s + gmtOffset (local_at d n)"
  shows "in_period localtime (transitions d) l n \<or>
    in_period localtime (transitions d) l (Suc n) \<and> isDst (local_at d n) \<and> \<not> isDst (local_at d (Suc n)) \<and>
    gmtOffset (local_at d n) = gmtOffset (local_at d (Suc n)) + 3600 \<and> in_period gmttime (transitions d) (s + 3600) (Suc n)"
proof -
  let ?ts = "transitions d"
  have gap: "gmttime (?ts ! i) + 3600 \<le> gmttime (?ts ! Suc i) \<and> localtime (?ts ! i) + 3600 \<le> localtime (?ts ! Suc i)"
    if "Suc i < length ?ts" for i
  proof -
    have "sorted_wrt (\<lambda>a b. gmttime a + 3600 \<le> gmttime b \<and> localtime a + 3600 \<le> localtime b) ?ts" using z by (simp add: zone_ok_def)
    then show ?thesis using that unfolding sorted_wrt_iff_nth_less by simp
  qed
  have loc: "localtime (?ts ! i) = gmttime (?ts ! i) + gmtOffset (local_at d (Suc i))" "change_ok (local_at d i) (local_at d (Suc i))"
    if "i < length ?ts" for i using z that by (simp_all add: zone_ok_def)
  have n': "n \<le> length ?ts" "0 < n \<longrightarrow> gmttime (?ts ! (n - 1)) \<le> s" "n < length ?ts \<longrightarrow> s < gmttime (?ts ! n)"
    using n by (simp_all add: in_period_def)
  have before: "0 < n \<longrightarrow> localtime (?ts ! (n - 1)) \<le> l" using n'(1,2) loc(1)[of "n - 1"] by (auto simp: l_def)
  show ?thesis
  proof (cases "n < length ?ts \<longrightarrow> l < localtime (?ts ! n)")
    case True
    then show ?thesis using before n'(1) by (simp add: in_period_def)
  next
    case False
    then have f: "n < length ?ts" "localtime (?ts ! n) \<le> l" by simp_all
    then have dec: "gmtOffset (local_at d (Suc n)) < gmtOffset (local_at d n)" using n'(3) loc(1)[of n] by (simp add: l_def)
    then have c: "gmtOffset (local_at d n) = gmtOffset (local_at d (Suc n)) + 3600" "isDst (local_at d n)" "\<not> isDst (local_at d (Suc n))"
      using loc(2)[OF f(1)] by (auto simp: change_ok_def)
    have "in_period localtime ?ts l (Suc n)" "in_period gmttime ?ts (s + 3600) (Suc n)"
      using f gap[of n] n'(3) loc(1)[of n] c(1) by (auto simp: in_period_def l_def)
    then show ?thesis using c by simp
  qed
qed

lemma fromLocalTime_toLocalTime:
  assumes z: "zone_ok d" and c: "libc_calendar gmtime_r timegm"
    and r: "list_all (\<lambda>l. utc_range (s + gmtOffset l)) (localtimes d)"
  shows "\<exists>t. toLocalTime gmtime_r (Some d) s = Some t \<and> fromLocalTime gmtime_r timegm (Some d) t = Some s"
proof -
  obtain n where n: "in_period gmttime (transitions d) s n" using zone_ok_period(3)[OF z] by blast
  define l where "l = s + gmtOffset (local_at d n)"
  have "local_at d n \<in> set (localtimes d)" using z n by (intro local_at_mem) (simp_all add: zone_ok_def in_period_def)
  then have l: "utc_range l" using r by (simp add: list_all_iff l_def)
  obtain zone where t: "toLocalTime gmtime_r (Some d) s = Some ((gmtime_r l)
    \<lparr>tm_isdst := (if isDst (local_at d n) then 1 else 0), tm_gmtoff := gmtOffset (local_at d n), tm_zone := zone\<rparr>)"
    using toLocalTime_period[OF z n] unfolding l_def by blast
  let ?t = "(gmtime_r l)\<lparr>tm_isdst := (if isDst (local_at d n) then 1 else 0), tm_gmtoff := gmtOffset (local_at d n), tm_zone := zone\<rparr>"
  have tg: "timegm ((gmtime_r l)\<lparr>tm_isdst := dst, tm_gmtoff := off, tm_zone := zn\<rparr>) = l" for dst off zn
    using c l by (simp add: libc_calendar_def)
  have "fromLocalTime gmtime_r timegm (Some d) ?t = Some s"
    using local_period[OF z n, folded l_def]
  proof
    assume p: "in_period localtime (transitions d) l n"
    then have "findLocaltime d \<lparr>gmttime = 0, localtime = l, localtimeIdx = 0\<rparr> False = Some (local_at d n)" by (rule zone_ok_period(2)[OF z])
    moreover have "l - gmtOffset (local_at d n) = s" by (simp add: l_def)
    ultimately show ?thesis using t by (simp add: fromLocalTime_def tg Let_def)
  next
    assume p: "in_period localtime (transitions d) l (Suc n) \<and> isDst (local_at d n) \<and> \<not> isDst (local_at d (Suc n)) \<and>
      gmtOffset (local_at d n) = gmtOffset (local_at d (Suc n)) + 3600 \<and> in_period gmttime (transitions d) (s + 3600) (Suc n)"
    then have f: "findLocaltime d \<lparr>gmttime = 0, localtime = l, localtimeIdx = 0\<rparr> False = Some (local_at d (Suc n))"
      using zone_ok_period(2)[OF z] by blast
    have e: "l - gmtOffset (local_at d (Suc n)) = s + 3600" "s + 3600 + gmtOffset (local_at d (Suc n)) = l" using p by (simp_all add: l_def)
    obtain zone' where "toLocalTime gmtime_r (Some d) (s + 3600) = Some ((gmtime_r l)
        \<lparr>tm_isdst := (if isDst (local_at d (Suc n)) then 1 else 0), tm_gmtoff := gmtOffset (local_at d (Suc n)), tm_zone := zone'\<rparr>)"
      using toLocalTime_period[OF z, of "s + 3600" "Suc n" gmtime_r] p unfolding e(2) by blast
    then show ?thesis using p f e(1) by (simp add: fromLocalTime_def tg Let_def)
  qed
  then show ?thesis using t by blast
qed

section \<open>Zone files\<close>

text \<open>The layout of a zone file, version 1, up to the names; what follows is not read.\<close>

definition be32 :: "int \<Rightarrow> byte list" where
  "be32 x = bytes_be 4 (nat (x mod 2 ^ 32))"

definition be8 :: "nat \<Rightarrow> byte list" where
  "be8 n = [word_of_nat n]"

definition local_bytes :: "int \<times> nat \<times> nat \<Rightarrow> byte list" where
  "local_bytes l = (case l of (off, dst, idx) \<Rightarrow> be32 off @ be8 dst @ be8 idx)"

definition zone_file :: "byte list \<Rightarrow> int \<Rightarrow> int \<Rightarrow> int \<Rightarrow> (int \<times> nat) list \<Rightarrow> (int \<times> nat \<times> nat) list \<Rightarrow> byte list \<Rightarrow> byte list \<Rightarrow> byte list" where
  "zone_file reserved isgmtcnt isstdcnt leapcnt changes locals text rest =
     [84, 90, 105, 102] @ reserved @ be32 isgmtcnt @ be32 isstdcnt @ be32 leapcnt @
     be32 (int (length changes)) @ be32 (int (length locals)) @ be32 (int (length text)) @
     concat (map be32 (map fst changes)) @ concat (map be8 (map snd changes)) @ concat (map local_bytes locals) @ text @ rest"

definition local_of :: "int \<times> nat \<times> nat \<Rightarrow> Localtime" where
  "local_of l = (case l of (off, dst, idx) \<Rightarrow> \<lparr>gmtOffset = off, isDst = dst \<noteq> 0, arrbIdx = int idx\<rparr>)"

definition transition_of :: "Localtime list \<Rightarrow> int \<times> nat \<Rightarrow> Transition" where
  "transition_of ls t = \<lparr>gmttime = fst t, localtime = fst t + gmtOffset (ls ! snd t), localtimeIdx = int (snd t)\<rparr>"

definition data_of :: "(int \<times> nat) list \<Rightarrow> (int \<times> nat \<times> nat) list \<Rightarrow> byte list \<Rightarrow> Data" where
  "data_of changes locals text =
     \<lparr>transitions = map (transition_of (map local_of locals)) changes, localtimes = map local_of locals, names = [],
      abbreviation_text = map (\<lambda>b. char_of (unat b)) text\<rparr>"

definition file_ok :: "byte list \<Rightarrow> int \<Rightarrow> int \<Rightarrow> int \<Rightarrow> (int \<times> nat) list \<Rightarrow> (int \<times> nat \<times> nat) list \<Rightarrow> byte list \<Rightarrow> bool" where
  "file_ok reserved isgmtcnt isstdcnt leapcnt changes locals text \<longleftrightarrow>
     length reserved = 16 \<and> list_all int32 [isgmtcnt, isstdcnt, leapcnt, int (length changes), int (length locals), int (length text)] \<and>
     list_all (\<lambda>(t, i). int32 t \<and> i < length locals \<and> i < 256) changes \<and>
     list_all (\<lambda>(off, dst, idx). int32 off \<and> dst < 256 \<and> idx < 256) locals"

lemma fread_ok: "length xs = n \<Longrightarrow> fread n e (xs @ ys, d) = Some (Inr xs, ys, d)"
  by (simp add: fread_def)

lemma readBytes_ok: "length xs = n \<Longrightarrow> readBytes (int n) (xs @ ys, d) = Some (Inr (map (\<lambda>b. char_of (unat b)) xs), ys, d)"
  by (simp add: readBytes_def and_then_def fread_ok returns_def)

lemma readInt32_ok:
  assumes "int32 x"
  shows "readInt32 h (be32 x @ ys, d) = Some (Inr x, ys, d)"
proof -
  have "networkToHost32 h (obj_of_bytes h (be32 x)) = word_of_nat (nat_of_be (be32 x))"
    unfolding networkToHost32_def by (rule betoh_obj_of_bytes[of 4]) (simp_all add: be32_def)
  moreover have "nat_of_be (be32 x) = nat (x mod 2 ^ 32)"
    unfolding be32_def nat_of_be_bytes_be by (rule mod_less) (simp add: nat_less_iff)
  moreover have "(word_of_nat (nat (x mod 2 ^ 32)) :: 32 word) = word_of_int x"
    by (simp add: word_of_int_eq_iff take_bit_eq_mod)
  moreover have "sint (word_of_int x :: 32 word) = x"
    using assms by (simp add: int32_def signed_of_int signed_take_bit_small)
  ultimately show ?thesis by (simp add: readInt32_def and_then_def fread_ok returns_def be32_def)
qed

lemma readUInt8_ok: "n < 256 \<Longrightarrow> readUInt8 (be8 n @ ys, d) = Some (Inr n, ys, d)"
  by (simp add: readUInt8_def and_then_def fread_def returns_def be8_def unsigned_of_nat take_bit_nat_eq_self_iff)

lemma read_times_ok:
  assumes "\<And>x ys. x \<in> set xs \<Longrightarrow> m (enc x @ ys, d) = Some (Inr x, ys, d)"
  shows "read_times (length xs) m (concat (map enc xs) @ ys, d) = Some (Inr xs, ys, d)"
  using assms
proof (induction xs)
  case Nil
  then show ?case by (simp add: returns_def)
next
  case (Cons x xs)
  then show ?case by (simp add: and_then_def returns_def)
qed

lemma read_localtimes_ok:
  assumes "list_all (\<lambda>(off, dst, idx). int32 off \<and> dst < 256 \<and> idx < 256) ls"
  shows "read_localtimes h (length ls) (concat (map local_bytes ls) @ ys, d) =
    Some (Inr (), ys, d\<lparr>localtimes := localtimes d @ map local_of ls\<rparr>)"
  using assms
proof (induction ls arbitrary: d)
  case Nil
  then show ?case by (simp add: returns_def)
next
  case (Cons l ls)
  obtain off dst idx where l: "l = (off, dst, idx)" by (cases l) auto
  show ?case using Cons by (simp add: l and_then_def local_bytes_def readInt32_ok readUInt8_ok modify_def local_of_def)
qed

lemma make_transitions_ok:
  assumes "list_all (\<lambda>(t, i). i < length (localtimes d)) ts"
  shows "make_transitions ts (ys, d) =
    Some (Inr (), ys, d\<lparr>transitions := transitions d @ map (transition_of (localtimes d)) ts\<rparr>)"
  using assms
proof (induction ts arbitrary: d)
  case Nil
  then show ?case by (simp add: returns_def)
next
  case (Cons t ts)
  obtain g i where t: "t = (g, i)" by (cases t) auto
  show ?case using Cons by (simp add: t and_then_def modify_def transition_of_def)
qed

lemma readZone_ok:
  assumes ok: "file_ok reserved isgmtcnt isstdcnt leapcnt changes locals text"
  shows "readZone h (zone_file reserved isgmtcnt isstdcnt leapcnt changes locals text rest, new_Data) =
    Some (Inr (), rest, data_of changes locals text)"
proof -
  have len: "length reserved = 16" and c: "int32 isgmtcnt" "int32 isstdcnt" "int32 leapcnt" "int32 (int (length changes))"
    "int32 (int (length locals))" "int32 (int (length text))"
    and ts: "\<And>t i. (t, i) \<in> set changes \<Longrightarrow> int32 t \<and> i < length locals \<and> i < 256"
    and ls: "list_all (\<lambda>(off, dst, idx). int32 off \<and> dst < 256 \<and> idx < 256) locals"
    using ok by (auto simp: file_ok_def list_all_iff)
  obtain v r where res: "reserved = v @ r" "length v = 1" "length r = 15"
    using len that[of "take 1 reserved" "drop 1 reserved"] by simp
  have head: "map (\<lambda>b. char_of (unat b)) [84, 90, 105, 102 :: byte] = ''TZif''" by code_simp
  have b4: "readBytes 4 ([84, 90, 105, 102] @ ys, d) = Some (Inr ''TZif'', ys, d)" for ys d
    using readBytes_ok[of "[84, 90, 105, 102]" 4 ys d] head by simp
  have b1: "readBytes 1 (v @ ys, d) = Some (Inr (map (\<lambda>b. char_of (unat b)) v), ys, d)" for ys d
    using readBytes_ok[OF res(2)] by simp
  have b15: "readBytes 15 (r @ ys, d) = Some (Inr (map (\<lambda>b. char_of (unat b)) r), ys, d)" for ys d
    using readBytes_ok[OF res(3)] by simp
  have rt: "read_times (length changes) (readInt32 h) (concat (map be32 (map fst changes)) @ ys, d) = Some (Inr (map fst changes), ys, d)" for ys d
    by (subst length_map[of fst, symmetric], rule read_times_ok) (use ts in \<open>auto simp: readInt32_ok\<close>)
  have ru: "read_times (length changes) readUInt8 (concat (map be8 (map snd changes)) @ ys, d) = Some (Inr (map snd changes), ys, d)" for ys d
    by (subst length_map[of snd, symmetric], rule read_times_ok) (use ts in \<open>auto simp: readUInt8_ok\<close>)
  have mt: "make_transitions changes (ys, d\<lparr>localtimes := map local_of locals\<rparr>) = Some (Inr (), ys,
      d\<lparr>localtimes := map local_of locals, transitions := transitions d @ map (transition_of (map local_of locals)) changes\<rparr>)" for ys d
    using ts by (subst make_transitions_ok) (auto simp: list_all_iff)
  have bt: "readBytes (int (length text)) (text @ ys, d) = Some (Inr (map (\<lambda>b. char_of (unat b)) text), ys, d)" for ys d
    by (rule readBytes_ok) simp
  have "localtimes new_Data = []" "transitions new_Data = []" by (simp_all add: new_Data_def)
  then show ?thesis
    unfolding zone_file_def res(1) append_assoc readZone_def
    by (simp only: and_then_def b4 b1 b15 readInt32_ok[OF c(1)] readInt32_ok[OF c(2)] readInt32_ok[OF c(3)]
        readInt32_ok[OF c(4)] readInt32_ok[OF c(5)] readInt32_ok[OF c(6)] rt ru read_localtimes_ok[OF ls]
        zip_map_fst_snd mt bt option.case sum.case prod.case nat_int of_nat_less_0_iff not_True_eq_False if_False append_Nil modify_def
        fst_conv snd_conv simp_thms)
       (simp add: data_of_def new_Data_def)
qed

section \<open>Properties\<close>

lemma utc_calendar: "libc_calendar (\<lambda>s. toUtcTime s False) fromUtcTime_tm"
  unfolding libc_calendar_def by (simp add: fromUtcTime_toUtcTime) (simp add: fromUtcTime_tm_def)

text \<open>
  C24. \<open>toUtcTime\<close> and \<open>fromUtcTime\<close> are inverse to each other, before and after 1970: the broken-down time
  of a number of seconds has hours, minutes and seconds in range, its date exists, and converting it
  back gives the same number of seconds.
\<close>

theorem utc_round_trip:
  assumes "utc_range s"
  shows "fromUtcTime_tm (toUtcTime s yday) = s \<and>
    (let t = toUtcTime s yday
     in 0 \<le> tm_sec t \<and> tm_sec t < 60 \<and> 0 \<le> tm_min t \<and> tm_min t < 60 \<and> 0 \<le> tm_hour t \<and> tm_hour t < 24 \<and>
        valid_date \<lparr>year = tm_year t + 1900, month = tm_mon t + 1, day = tm_mday t\<rparr>)"
proof -
  let ?ymd = "getYearMonthDay (utc_day s)"
  have "valid_date ?ymd" using assms getYearMonthDay_ok[of "utc_day s"] by (simp add: utc_range_def)
  then have "valid_date \<lparr>year = year ?ymd, month = month ?ymd, day = day ?ymd\<rparr>" by (simp add: valid_date_def)
  moreover have "0 \<le> s mod 86400" "s mod 86400 < 86400" by simp_all
  moreover have "s mod 86400 div 60 div 60 < 24" "0 \<le> s mod 86400 div 60 div 60" using calculation(2,3) by simp_all
  ultimately show ?thesis using fromUtcTime_toUtcTime[OF assms] by (simp add: toUtcTime_simps[OF assms] Let_def)
qed

theorem utc_round_trip_witness:
  "fromUtcTime_tm (toUtcTime (-1) True) = -1 \<and> utc_range (-1)"
proof -
  have "utc_range (-1)" by code_simp
  then show ?thesis using utc_round_trip[of "-1" True] by simp
qed



text \<open>
  A zone file that cannot be opened, or that does not begin with the magic number, gives a time zone
  that reports to be valid, because \<open>readTimeZoneFile\<close> returns true also then; converting any time with it
  reads the front of an empty vector.
\<close>

theorem unreadable_zone_valid:
  assumes "zonefile = None \<or> (\<exists>bs. zonefile = Some bs \<and> take 4 bs \<noteq> [84, 90, 105, 102])"
  shows "\<exists>z. TimeZone_file h zonefile = Some z \<and> TimeZone_valid z \<and> toLocalTime gmtime_r z s = None"
proof -
  have "\<exists>e. readTimeZoneFile h zonefile new_Data = Some (True, new_Data, e)"
  proof (cases zonefile)
    case None
    then show ?thesis by (simp add: readTimeZoneFile_def)
  next
    case (Some bs)
    then have b: "take 4 bs \<noteq> [84, 90, 105, 102]" using assms by simp
    have "\<exists>e r. readZone h (bs, new_Data) = Some (Inl e, r, new_Data)"
    proof (cases "4 \<le> length bs")
      case True
      have "map (\<lambda>b. char_of (unat b)) (take 4 bs) \<noteq> ''TZif''"
      proof
        assume "map (\<lambda>b. char_of (unat b)) (take 4 bs) = ''TZif''"
        then have "map (\<lambda>c. of_nat (of_char c)) (map (\<lambda>b. char_of (unat b)) (take 4 bs)) = [84, 90, 105, 102 :: byte]" by simp
        moreover have "of_nat (of_char (char_of (unat x) :: char)) = x" for x :: byte
          using unat_byte_less[of x] by simp
        ultimately show False using b by (simp add: o_def)
      qed
      then show ?thesis using True by (simp add: readZone_def and_then_def readBytes_def fread_def returns_def throws_def)
    next
      case False
      then show ?thesis by (simp add: readZone_def and_then_def readBytes_def fread_def returns_def)
    qed
    then show ?thesis using Some by (auto simp: readTimeZoneFile_def)
  qed
  then have "TimeZone_file h zonefile = Some (Some new_Data)" by (auto simp: TimeZone_file_def)
  moreover have "toLocalTime gmtime_r (Some new_Data) s = None"
    by (simp add: toLocalTime_def findLocaltime_def new_Data_def vec_at_def)
  ultimately show ?thesis by (auto simp: TimeZone_valid_def)
qed

theorem unreadable_zone_valid_witness:
  "\<exists>z. TimeZone_file Little_Endian (Some [80, 75]) = Some z \<and> TimeZone_valid z \<and> toLocalTime (\<lambda>s. toUtcTime s False) z 0 = None"
  by (rule unreadable_zone_valid) simp

end
