(* ===== verification/Blocking_Queues.thy ===== *)
theory Blocking_Queues
  imports Muduo_Prelude "HOL-Library.Multiset"
begin

text \<open>
  Monitors with condition variables (\<open>muduo/base/Condition.h\<close>), and the components built on one:
  \<open>CountDownLatch\<close>, \<open>BlockingQueue\<close> and \<open>BoundedBlockingQueue\<close>.  A call is cut at its waits: between
  two waits it holds the mutex, so one step of the model is what a thread does from locking, or from
  being woken, to unlocking or to the next wait.  A thread in a call is in one of two lists: it contends
  for the mutex (awake), or it sits in the wait of a condition variable (waiting).
\<close>

section \<open>Condition variables\<close>

text \<open>
  \<open>notify\<close> wakes one of the waiting threads, if there is one, and it is not known which; \<open>notifyAll\<close>
  wakes them all.  The relations are between the waiting and awake threads before and after.
\<close>

definition notify :: "'t list \<times> 't list \<Rightarrow> 't list \<times> 't list \<Rightarrow> bool" where
  "notify = (\<lambda>(waiting, awake) (waiting', awake').
     (if waiting = [] then waiting' = [] \<and> awake' = awake
      else \<exists>t \<in> set waiting. waiting' = remove1 t waiting \<and> awake' = awake @ [t]))"

definition notifyAll :: "'t list \<times> 't list \<Rightarrow> 't list \<times> 't list \<Rightarrow> bool" where
  "notifyAll = (\<lambda>(waiting, awake) (waiting', awake'). waiting' = [] \<and> awake' = awake @ waiting)"

text \<open>A thread that waits may also be woken for no reason.\<close>

definition spurious :: "'t list \<times> 't list \<Rightarrow> 't list \<times> 't list \<Rightarrow> bool" where
  "spurious = (\<lambda>(waiting, awake) (waiting', awake').
     \<exists>t \<in> set waiting. waiting' = remove1 t waiting \<and> awake' = awake @ [t])"

text \<open>
  No wakeup is lost while every one of \<open>n\<close> things to be had is matched by a thread that is awake to look
  for it, or nobody waits.
\<close>

definition covered :: "nat \<Rightarrow> 't list \<Rightarrow> 't list \<Rightarrow> bool" where
  "covered n waiting awake \<longleftrightarrow> waiting = [] \<or> n \<le> length awake"

text \<open>What a way to wake threads promises.\<close>

locale waker =
  fixes wake :: "'t list \<times> 't list \<Rightarrow> 't list \<times> 't list \<Rightarrow> bool"
  assumes wake_same: "wake (w, a) (w', a') \<Longrightarrow> mset w' + mset a' = mset w + mset a"
    and wake_awake: "wake (w, a) (w', a') \<Longrightarrow> mset a \<subseteq># mset a'"
    and wake_one: "wake (w, a) (w', a') \<Longrightarrow> w \<noteq> [] \<Longrightarrow> length a < length a'"
begin

lemma wake_covered:
  assumes "wake (w, a) (w', a')" "covered n w a"
  shows "covered (Suc n) w' a'"
proof (cases "w = []")
  case True
  have "mset w' + mset a' = mset a" using wake_same[OF assms(1)] True by simp
  moreover have "mset a \<subseteq># mset a'" by (rule wake_awake[OF assms(1)])
  ultimately have "mset w' = {#}"
    by (metis add_cancel_left_left mset_subset_eq_add_right subset_mset.antisym add.commute)
  then show ?thesis by (simp add: covered_def)
next
  case False
  then show ?thesis using wake_one[OF assms(1)] assms(2) by (auto simp: covered_def)
qed

lemma wake_length:
  assumes "wake (w, a) (w', a')"
  shows "length w' + length a' = length w + length a"
  using arg_cong[OF wake_same[OF assms], of size] by simp

lemma wake_set:
  assumes "wake (w, a) (w', a')"
  shows "set w' \<union> set a' = set w \<union> set a"
  by (metis wake_same[OF assms] set_mset_mset set_mset_union)

end

interpretation one: waker notify
proof
  fix w a w' a' :: "'a list"
  assume "notify (w, a) (w', a')"
  then show "mset w' + mset a' = mset w + mset a" "mset a \<subseteq># mset a'" "w \<noteq> [] \<Longrightarrow> length a < length a'"
    by (auto simp: notify_def split: if_splits)
qed

interpretation every: waker notifyAll
  by unfold_locales (auto simp: notifyAll_def)

lemma notifyAll_empty: "notifyAll (w, a) (w', a') \<Longrightarrow> w' = []"
  by (simp add: notifyAll_def)

lemma notify_ex: "\<exists>w' a'. notify (w, a) (w', a')"
  by (cases w) (auto simp: notify_def intro: exI[of _ "hd w"])

lemma covered_simps [simp]: "covered 0 w a" "covered n [] a"
  by (simp_all add: covered_def)

lemma covered_enter: "covered n w a \<Longrightarrow> covered n w (a @ [t])"
  by (auto simp: covered_def)

lemma covered_spurious: "spurious (w, a) (w', a') \<Longrightarrow> covered n w a \<Longrightarrow> covered n w' a'"
  by (auto simp: covered_def spurious_def)

lemma covered_done: "covered (Suc n) w a \<Longrightarrow> t \<in> set a \<Longrightarrow> covered n w (remove1 t a)"
  by (auto simp: covered_def length_remove1)

section \<open>CountDownLatch\<close>

record latch =
  latch_count :: int
  latch_awake :: "nat list"
  latch_waiting :: "nat list"
  latch_passed :: "nat list"
  latch_downs :: nat

definition new_CountDownLatch :: "int \<Rightarrow> latch" where
  "new_CountDownLatch n = \<lparr>latch_count = n, latch_awake = [], latch_waiting = [], latch_passed = [], latch_downs = 0\<rparr>"

text \<open>One turn of the loop in \<open>wait\<close>, by a thread that holds the mutex.\<close>

definition latch_wait :: "nat \<Rightarrow> latch \<Rightarrow> latch" where
  "latch_wait t l =
     (if latch_count l > 0 then l\<lparr>latch_awake := remove1 t (latch_awake l), latch_waiting := latch_waiting l @ [t]\<rparr>
      else l\<lparr>latch_awake := remove1 t (latch_awake l), latch_passed := latch_passed l @ [t]\<rparr>)"

definition countDown :: "latch \<Rightarrow> latch \<Rightarrow> bool" where
  "countDown l l' \<longleftrightarrow>
     (let l1 = l\<lparr>latch_count := latch_count l - 1, latch_downs := latch_downs l + 1\<rparr>
      in if latch_count l1 = 0 then
           (\<exists>w a. notifyAll (latch_waiting l1, latch_awake l1) (w, a) \<and> l' = l1\<lparr>latch_waiting := w, latch_awake := a\<rparr>)
         else l' = l1)"

definition getCount :: "latch \<Rightarrow> int" where
  "getCount l = latch_count l"

inductive latch_step :: "latch \<Rightarrow> latch \<Rightarrow> bool" where
  call_wait: "latch_step l (l\<lparr>latch_awake := latch_awake l @ [t]\<rparr>)"
| wait_turn: "t \<in> set (latch_awake l) \<Longrightarrow> latch_step l (latch_wait t l)"
| count_down: "countDown l l' \<Longrightarrow> latch_step l l'"
| wait_spurious: "spurious (latch_waiting l, latch_awake l) (w, a) \<Longrightarrow> latch_step l (l\<lparr>latch_waiting := w, latch_awake := a\<rparr>)"

inductive latch_reach :: "int \<Rightarrow> latch \<Rightarrow> bool" for n where
  latch_init: "latch_reach n (new_CountDownLatch n)"
| latch_more: "latch_reach n l \<Longrightarrow> latch_step l l' \<Longrightarrow> latch_reach n l'"

definition latch_inv :: "int \<Rightarrow> latch \<Rightarrow> bool" where
  "latch_inv n l \<longleftrightarrow> latch_count l = n - int (latch_downs l) \<and> (latch_count l \<le> 0 \<longrightarrow> latch_waiting l = []) \<and>
     (latch_passed l \<noteq> [] \<longrightarrow> latch_count l \<le> 0)"

lemma latch_step_inv: "latch_step l l' \<Longrightarrow> latch_inv n l \<Longrightarrow> latch_inv n l'"
  by (induction rule: latch_step.induct)
    (auto simp: latch_inv_def latch_wait_def countDown_def notifyAll_def spurious_def Let_def split: if_splits)

lemma latch_reach_inv: "latch_reach n l \<Longrightarrow> latch_inv n l"
  by (induction rule: latch_reach.induct) (simp_all add: latch_step_inv, simp add: latch_inv_def new_CountDownLatch_def)

section \<open>BlockingQueue and BoundedBlockingQueue\<close>

text \<open>
  Both queues in one model: the capacity is \<open>None\<close> for \<open>BlockingQueue\<close>, whose \<open>put\<close> never waits, and the
  size of the circular buffer for \<open>BoundedBlockingQueue\<close>.  \<open>put_done\<close> and \<open>take_done\<close> record what went in
  and what each thread took, in order.
\<close>

record 'a bqueue =
  capacity :: "nat option"
  bq_queue :: "'a list"
  putters :: "(nat \<times> 'a) list"
  put_waiting :: "(nat \<times> 'a) list"
  takers :: "nat list"
  take_waiting :: "nat list"
  put_done :: "'a list"
  take_done :: "(nat \<times> 'a) list"

definition new_BlockingQueue :: "'a bqueue" where
  "new_BlockingQueue = \<lparr>capacity = None, bq_queue = [], putters = [], put_waiting = [], takers = [],
     take_waiting = [], put_done = [], take_done = []\<rparr>"

definition new_BoundedBlockingQueue :: "nat \<Rightarrow> 'a bqueue" where
  "new_BoundedBlockingQueue maxSize = new_BlockingQueue\<lparr>capacity := Some maxSize\<rparr>"

definition bq_empty :: "'a bqueue \<Rightarrow> bool" where
  "bq_empty q \<longleftrightarrow> bq_queue q = []"

definition bq_full :: "'a bqueue \<Rightarrow> bool" where
  "bq_full q \<longleftrightarrow> capacity q = Some (length (bq_queue q))"

definition bq_size :: "'a bqueue \<Rightarrow> nat" where
  "bq_size q = length (bq_queue q)"

text \<open>What a thread in \<open>put\<close> or \<open>take\<close> does while it holds the mutex.\<close>

definition bq_put :: "nat \<times> 'a \<Rightarrow> 'a bqueue \<Rightarrow> 'a bqueue \<Rightarrow> bool" where
  "bq_put tx q q' \<longleftrightarrow>
     (if bq_full q then q' = q\<lparr>putters := remove1 tx (putters q), put_waiting := put_waiting q @ [tx]\<rparr>
      else \<exists>w a. notify (take_waiting q, takers q) (w, a) \<and>
             q' = q\<lparr>putters := remove1 tx (putters q), bq_queue := bq_queue q @ [snd tx],
                    put_done := put_done q @ [snd tx], take_waiting := w, takers := a\<rparr>)"

text \<open>\<open>BlockingQueue\<close> has no condition \<open>notFull_\<close>; nobody ever waits for it.\<close>

definition bq_take :: "nat \<Rightarrow> 'a bqueue \<Rightarrow> 'a bqueue \<Rightarrow> bool" where
  "bq_take t q q' \<longleftrightarrow>
     (case bq_queue q of
        [] \<Rightarrow> q' = q\<lparr>takers := remove1 t (takers q), take_waiting := take_waiting q @ [t]\<rparr>
      | x # xs \<Rightarrow> \<exists>w a. notify (put_waiting q, putters q) (w, a) \<and>
             q' = q\<lparr>takers := remove1 t (takers q), bq_queue := xs, take_done := take_done q @ [(t, x)],
                    put_waiting := w, putters := a\<rparr>)"

inductive bq_step :: "'a bqueue \<Rightarrow> 'a bqueue \<Rightarrow> bool" where
  call_put: "bq_step q (q\<lparr>putters := putters q @ [(t, x)]\<rparr>)"
| call_take: "bq_step q (q\<lparr>takers := takers q @ [t]\<rparr>)"
| put_turn: "tx \<in> set (putters q) \<Longrightarrow> bq_put tx q q' \<Longrightarrow> bq_step q q'"
| take_turn: "t \<in> set (takers q) \<Longrightarrow> bq_take t q q' \<Longrightarrow> bq_step q q'"
| put_spurious: "spurious (put_waiting q, putters q) (w, a) \<Longrightarrow> bq_step q (q\<lparr>put_waiting := w, putters := a\<rparr>)"
| take_spurious: "spurious (take_waiting q, takers q) (w, a) \<Longrightarrow> bq_step q (q\<lparr>take_waiting := w, takers := a\<rparr>)"

inductive bq_reach :: "'a bqueue \<Rightarrow> 'a bqueue \<Rightarrow> bool" for q0 where
  bq_init: "bq_reach q0 q0"
| bq_more: "bq_reach q0 q \<Longrightarrow> bq_step q q' \<Longrightarrow> bq_reach q0 q'"

definition room :: "'a bqueue \<Rightarrow> nat" where
  "room q = (case capacity q of None \<Rightarrow> 0 | Some n \<Rightarrow> n - length (bq_queue q))"

lemma room_frame [simp]:
  "room (q\<lparr>takers := a\<rparr>) = room q" "room (q\<lparr>take_waiting := w\<rparr>) = room q"
  "room (q\<lparr>putters := b\<rparr>) = room q" "room (q\<lparr>put_waiting := v\<rparr>) = room q"
  by (cases "capacity q"; simp add: room_def)+

definition bq_inv :: "nat option \<Rightarrow> 'a bqueue \<Rightarrow> bool" where
  "bq_inv c q \<longleftrightarrow> capacity q = c \<and> put_done q = map snd (take_done q) @ bq_queue q \<and>
     (\<forall>n. c = Some n \<longrightarrow> length (bq_queue q) \<le> n) \<and> (c = None \<longrightarrow> put_waiting q = []) \<and>
     covered (length (bq_queue q)) (take_waiting q) (takers q) \<and> covered (room q) (put_waiting q) (putters q)"

lemma bq_invD:
  assumes "bq_inv c q"
  shows "capacity q = c" "put_done q = map snd (take_done q) @ bq_queue q" "c = Some n \<Longrightarrow> length (bq_queue q) \<le> n"
    "c = None \<Longrightarrow> put_waiting q = []" "covered (length (bq_queue q)) (take_waiting q) (takers q)"
    "covered (room q) (put_waiting q) (putters q)"
  using assms by (simp_all add: bq_inv_def)

lemma bq_put_inv:
  assumes "bq_put tx q q'" "tx \<in> set (putters q)" "bq_inv c q"
  shows "bq_inv c q'"
proof (cases "bq_full q")
  case True
  then have "room q = 0" by (simp add: bq_full_def room_def)
  moreover have "room q' = room q" "c \<noteq> None" using assms(1,3) True by (auto simp: bq_put_def room_def bq_full_def bq_inv_def)
  ultimately show ?thesis using assms(1,3) True by (auto simp: bq_put_def bq_inv_def)
next
  case False
  then obtain w a where n: "notify (take_waiting q, takers q) (w, a)" and q': "q' = q\<lparr>putters := remove1 tx (putters q),
      bq_queue := bq_queue q @ [snd tx], put_done := put_done q @ [snd tx], take_waiting := w, takers := a\<rparr>"
    using assms(1) by (auto simp: bq_put_def)
  note d = bq_invD[OF assms(3)]
  have "covered (Suc (length (bq_queue q))) w a" by (rule one.wake_covered[OF n d(5)])
  moreover have "covered (room q') (put_waiting q) (remove1 tx (putters q))"
  proof (cases c)
    case None
    then show ?thesis using d(4) by simp
  next
    case (Some m)
    then have "length (bq_queue q) < m" using d(1,3) False by (auto simp: bq_full_def le_less)
    then have "room q = Suc (room q')" using Some d(1) by (simp add: room_def q')
    then show ?thesis using covered_done[of "room q'"] d(6) assms(2) by simp
  qed
  moreover have "c = Some m \<longrightarrow> length (bq_queue q) < m" for m using d(1,3) False by (auto simp: bq_full_def le_less)
  ultimately show ?thesis using d(1,2,4) by (auto simp: q' bq_inv_def Suc_le_eq)
qed

lemma bq_take_inv:
  assumes "bq_take t q q'" "t \<in> set (takers q)" "bq_inv c q"
  shows "bq_inv c q'"
proof (cases "bq_queue q")
  case Nil
  then have "room q' = room q" using assms(1) by (simp add: bq_take_def)
  then show ?thesis using assms(1,3) Nil by (auto simp: bq_take_def bq_inv_def)
next
  case (Cons x xs)
  then obtain w a where n: "notify (put_waiting q, putters q) (w, a)" and q': "q' = q\<lparr>takers := remove1 t (takers q),
      bq_queue := xs, take_done := take_done q @ [(t, x)], put_waiting := w, putters := a\<rparr>"
    using assms(1) by (auto simp: bq_take_def)
  note d = bq_invD[OF assms(3)]
  have "covered (room q') w a"
  proof (cases c)
    case None
    then show ?thesis using d(4) n by (simp add: notify_def)
  next
    case (Some m)
    then have "room q' = Suc (room q)" using d(1,3) Cons by (simp add: room_def q' Suc_diff_le)
    then show ?thesis using one.wake_covered[OF n d(6)] by simp
  qed
  moreover have "covered (length xs) (take_waiting q) (remove1 t (takers q))"
    using covered_done[of "length xs"] d(5) assms(2) Cons by simp
  moreover have "c = None \<longrightarrow> w = []" using d(4) n by (auto simp: notify_def)
  ultimately show ?thesis using d(1-3) Cons by (auto simp: q' bq_inv_def)
qed

lemma bq_step_inv:
  assumes "bq_step q q'" "bq_inv c q"
  shows "bq_inv c q'"
  using assms
proof (cases rule: bq_step.cases)
  case put_turn
  then show ?thesis using bq_put_inv assms(2) by blast
next
  case take_turn
  then show ?thesis using bq_take_inv assms(2) by blast
next
  case (put_spurious w a)
  have "c \<noteq> None" using put_spurious assms(2) by (auto simp: bq_inv_def spurious_def)
  moreover have "covered (room q) w a" using put_spurious(2) bq_invD(6)[OF assms(2)] by (rule covered_spurious)
  ultimately show ?thesis using put_spurious assms(2) by (auto simp: bq_inv_def)
next
  case (take_spurious w a)
  have "covered (length (bq_queue q)) w a" using take_spurious(2) bq_invD(5)[OF assms(2)] by (rule covered_spurious)
  then show ?thesis using take_spurious assms(2) by (auto simp: bq_inv_def)
qed (use assms(2) in \<open>auto simp: bq_inv_def covered_enter\<close>)

lemma bq_reach_inv: "bq_reach q0 q \<Longrightarrow> bq_inv c q0 \<Longrightarrow> bq_inv c q"
  by (induction rule: bq_reach.induct) (auto intro: bq_step_inv)

lemma bq_inv_new: "bq_inv None new_BlockingQueue" "bq_inv (Some n) (new_BoundedBlockingQueue n)"
  by (simp_all add: bq_inv_def new_BlockingQueue_def new_BoundedBlockingQueue_def)

section \<open>Properties\<close>

text \<open>
  A latch opens exactly when it has been counted down to zero: no thread passes \<open>wait\<close> before, and
  none is left waiting from then on, under every interleaving and with spurious wakeups.
\<close>

theorem latch_opens:
  assumes "latch_reach n l"
  shows "getCount l = n - int (latch_downs l) \<and> (latch_passed l \<noteq> [] \<longrightarrow> n \<le> int (latch_downs l)) \<and>
    (n \<le> int (latch_downs l) \<longrightarrow> latch_waiting l = [] \<and>
       (\<forall>t \<in> set (latch_awake l). latch_passed (latch_wait t l) = latch_passed l @ [t]))"
  using latch_reach_inv[OF assms] by (auto simp: latch_inv_def getCount_def latch_wait_def)

theorem latch_opens_witness:
  "\<exists>l. latch_reach 1 l \<and> latch_waiting l = [] \<and> latch_awake l = [7] \<and> latch_passed (latch_wait 7 l) = [7]"
proof -
  define l1 where "l1 = (new_CountDownLatch 1)\<lparr>latch_awake := [7]\<rparr>"
  define l2 where "l2 = latch_wait 7 l1"
  define l3 where "l3 = l2\<lparr>latch_count := 0, latch_downs := 1, latch_waiting := [], latch_awake := [7]\<rparr>"
  have e: "latch_awake l3 = [7]" "latch_passed l3 = []" "latch_downs l3 = 1"
    by (simp_all add: l1_def l2_def l3_def latch_wait_def new_CountDownLatch_def)
  have "latch_step (new_CountDownLatch 1) l1"
    using call_wait[of "new_CountDownLatch 1" 7] by (simp add: l1_def new_CountDownLatch_def)
  moreover have "latch_step l1 l2" unfolding l2_def by (rule wait_turn) (simp add: l1_def)
  moreover have "latch_step l2 l3"
    by (rule count_down) (simp add: countDown_def notifyAll_def l1_def l2_def l3_def latch_wait_def new_CountDownLatch_def)
  ultimately have "latch_reach 1 l3" by (meson latch_init latch_more)
  then show ?thesis using latch_opens[of 1 l3] e by auto
qed

text \<open>
  C25. A \<open>BoundedBlockingQueue\<close> hands out what was put into it, each item once and in order, never holds
  more than its capacity, and loses no wakeup: when threads wait in \<open>take\<close>, at least as many threads are
  awake to take as there are items, and when threads wait in \<open>put\<close>, at least as many are awake to put as
  there is room, under every interleaving of any number of threads and with spurious wakeups.
\<close>

theorem bounded_queue_correct:
  assumes "bq_reach (new_BoundedBlockingQueue n) q"
  shows "put_done q = map snd (take_done q) @ bq_queue q \<and> bq_size q \<le> n \<and>
    (take_waiting q \<noteq> [] \<longrightarrow> bq_size q \<le> length (takers q)) \<and>
    (put_waiting q \<noteq> [] \<longrightarrow> n - bq_size q \<le> length (putters q))"
  using bq_reach_inv[OF assms bq_inv_new(2)] by (auto simp: bq_inv_def covered_def room_def bq_size_def)

theorem bounded_queue_correct_witness:
  "\<exists>q. bq_reach (new_BoundedBlockingQueue 1) q \<and> take_done q = [(7, ''a'')] \<and> put_done q = [''a'']"
proof -
  define q0 :: "string bqueue" where "q0 = new_BoundedBlockingQueue 1"
  define q1 where "q1 = q0\<lparr>takers := [7]\<rparr>"
  define q2 where "q2 = q1\<lparr>takers := [], take_waiting := [7]\<rparr>"
  define q3 where "q3 = q2\<lparr>putters := [(8, ''a'')]\<rparr>"
  define q4 where "q4 = q3\<lparr>putters := [], bq_queue := [''a''], put_done := [''a''], take_waiting := [], takers := [7]\<rparr>"
  define q5 where "q5 = q4\<lparr>takers := [], bq_queue := [], take_done := [(7, ''a'')], put_waiting := [], putters := []\<rparr>"
  note defs = q0_def q1_def q2_def q3_def q4_def q5_def new_BoundedBlockingQueue_def new_BlockingQueue_def
  have "bq_step q0 q1" using call_take[of q0 7] by (simp add: defs)
  moreover have "bq_step q1 q2" by (rule take_turn[of 7]) (simp_all add: defs bq_take_def)
  moreover have "bq_step q2 q3" using call_put[of q2 8 "''a''"] by (simp add: defs)
  moreover have "bq_step q3 q4" by (rule put_turn[of "(8, ''a'')"]) (simp_all add: defs bq_put_def bq_full_def notify_def)
  moreover have "bq_step q4 q5" by (rule take_turn[of 7]) (simp_all add: defs bq_take_def notify_def)
  ultimately have r: "bq_reach q0 q5" by (meson bq_init bq_more)
  have "put_done q5 = map snd (take_done q5) @ bq_queue q5" using bounded_queue_correct[OF r[unfolded q0_def]] by simp
  then show ?thesis using r by (intro exI[of _ q5]) (simp add: defs)
qed

end
