(* ===== verification/Thread_Pool.thy ===== *)
theory Thread_Pool
  imports Blocking_Queues
begin

text \<open>
  The thread pool (\<open>muduo/base/ThreadPool.h\<close>, \<open>ThreadPool.cc\<close>).  As with the blocking queues, a step is
  what a thread does between two points at which it may lose the processor to another: a turn of a loop
  under the mutex, the test of \<open>running_\<close> without it, a task.  A list for each point at which a worker or a
  caller of \<open>run\<close> can be holds the threads that are there.  A thread that runs a task may call \<open>run\<close>
  itself.  The last four fields record what happened and are read by no operation.
\<close>

record 'a pool =
  tp_queue :: "'a list"
  maxQueueSize :: nat
  tp_running :: bool
  tp_threads :: nat
  w_init :: "nat list"
  w_loop :: "nat list"
  w_take :: "nat list"
  w_wait :: "nat list"
  w_run :: "(nat \<times> 'a) list"
  w_done :: "nat list"
  p_run :: "(nat \<times> 'a) list"
  p_wait :: "(nat \<times> 'a) list"
  tp_pushed :: "'a list"
  tp_started :: "(nat \<times> 'a) list"
  tp_finished :: "(nat \<times> 'a) list"
  tp_inline :: "'a list"

definition new_ThreadPool :: "'a pool" where
  "new_ThreadPool = \<lparr>tp_queue = [], maxQueueSize = 0, tp_running = False, tp_threads = 0, w_init = [], w_loop = [],
     w_take = [], w_wait = [], w_run = [], w_done = [], p_run = [], p_wait = [], tp_pushed = [], tp_started = [],
     tp_finished = [], tp_inline = []\<rparr>"

definition setMaxQueueSize :: "nat \<Rightarrow> 'a pool \<Rightarrow> 'a pool" where
  "setMaxQueueSize maxSize s = s\<lparr>maxQueueSize := maxSize\<rparr>"

definition start :: "nat \<Rightarrow> 'a pool \<Rightarrow> 'a pool option" where
  "start numThreads s = do {
     assert_that (tp_threads s = 0);
     Some (s\<lparr>tp_running := True, tp_threads := numThreads, w_init := [0 ..< numThreads]\<rparr>)
   }"

definition stop :: "'a pool \<Rightarrow> 'a pool \<Rightarrow> bool" where
  "stop s s' \<longleftrightarrow> (\<exists>w a. notifyAll (w_wait s, w_take s) (w, a) \<and> s' = s\<lparr>tp_running := False, w_wait := w, w_take := a\<rparr>)"

text \<open>\<open>join\<close> of every thread returns when all of them are finished.\<close>

definition joined :: "'a pool \<Rightarrow> bool" where
  "joined s \<longleftrightarrow> length (w_done s) = tp_threads s"

definition queueSize :: "'a pool \<Rightarrow> nat" where
  "queueSize s = length (tp_queue s)"

definition isFull :: "'a pool \<Rightarrow> bool" where
  "isFull s \<longleftrightarrow> maxQueueSize s > 0 \<and> length (tp_queue s) \<ge> maxQueueSize s"

text \<open>A call of \<open>run\<close>, and a turn of its loop under the mutex.\<close>

definition run_call :: "nat \<Rightarrow> 'a \<Rightarrow> 'a pool \<Rightarrow> 'a pool" where
  "run_call t task s =
     (if tp_threads s = 0 then s\<lparr>tp_inline := tp_inline s @ [task]\<rparr> else s\<lparr>p_run := p_run s @ [(t, task)]\<rparr>)"

definition run_turn :: "nat \<times> 'a \<Rightarrow> 'a pool \<Rightarrow> 'a pool \<Rightarrow> bool" where
  "run_turn tx s s' \<longleftrightarrow>
     (if isFull s then s' = s\<lparr>p_run := remove1 tx (p_run s), p_wait := p_wait s @ [tx]\<rparr>
      else \<exists>w a. notify (w_wait s, w_take s) (w, a) \<and>
             s' = s\<lparr>p_run := remove1 tx (p_run s), tp_queue := tp_queue s @ [snd tx], tp_pushed := tp_pushed s @ [snd tx],
                    w_wait := w, w_take := a\<rparr>)"

text \<open>
  A turn of \<open>take\<close> under the mutex.  Without a task, which happens only when the pool stops, the worker
  goes back to the test of \<open>running_\<close>.
\<close>

definition take_turn :: "nat \<Rightarrow> 'a pool \<Rightarrow> 'a pool \<Rightarrow> bool" where
  "take_turn t s s' \<longleftrightarrow>
     (let s1 = s\<lparr>w_take := remove1 t (w_take s)\<rparr>
      in case tp_queue s of
           [] \<Rightarrow> if tp_running s then s' = s1\<lparr>w_wait := w_wait s @ [t]\<rparr> else s' = s1\<lparr>w_loop := w_loop s @ [t]\<rparr>
         | task # q \<Rightarrow>
             (let s2 = s1\<lparr>tp_queue := q, w_run := w_run s @ [(t, task)], tp_started := tp_started s @ [(t, task)]\<rparr>
              in if maxQueueSize s > 0 then (\<exists>w a. notify (p_wait s, p_run s) (w, a) \<and> s' = s2\<lparr>p_wait := w, p_run := a\<rparr>)
                 else s' = s2))"

text \<open>
  The steps of the workers: \<open>runInThread\<close>.  A task that throws ends the process (\<open>None\<close>); a task returns
  only when a call of \<open>run\<close> it may have made has returned.
\<close>

inductive worker_step :: "('a \<Rightarrow> bool) \<Rightarrow> 'a pool \<Rightarrow> 'a pool option \<Rightarrow> bool" for raises where
  work_init: "t \<in> set (w_init s) \<Longrightarrow>
    worker_step raises s (Some (s\<lparr>w_init := remove1 t (w_init s), w_loop := w_loop s @ [t]\<rparr>))"
| work_on: "t \<in> set (w_loop s) \<Longrightarrow> tp_running s \<Longrightarrow>
    worker_step raises s (Some (s\<lparr>w_loop := remove1 t (w_loop s), w_take := w_take s @ [t]\<rparr>))"
| work_end: "t \<in> set (w_loop s) \<Longrightarrow> \<not> tp_running s \<Longrightarrow>
    worker_step raises s (Some (s\<lparr>w_loop := remove1 t (w_loop s), w_done := w_done s @ [t]\<rparr>))"
| work_take: "t \<in> set (w_take s) \<Longrightarrow> take_turn t s s' \<Longrightarrow> worker_step raises s (Some s')"
| work_task: "(t, task) \<in> set (w_run s) \<Longrightarrow> \<not> raises task \<Longrightarrow> t \<notin> fst ` set (p_run s @ p_wait s) \<Longrightarrow>
    worker_step raises s (Some (s\<lparr>w_run := remove1 (t, task) (w_run s), tp_finished := tp_finished s @ [(t, task)],
                                  w_loop := w_loop s @ [t]\<rparr>))"
| work_raise: "(t, task) \<in> set (w_run s) \<Longrightarrow> raises task \<Longrightarrow> worker_step raises s None"

inductive tp_step :: "('a \<Rightarrow> bool) \<Rightarrow> 'a pool \<Rightarrow> 'a pool option \<Rightarrow> bool" for raises where
  tp_worker: "worker_step raises s r \<Longrightarrow> tp_step raises s r"
| tp_call: "tp_step raises s (Some (run_call t task s))"
| tp_run: "tx \<in> set (p_run s) \<Longrightarrow> run_turn tx s s' \<Longrightarrow> tp_step raises s (Some s')"
| tp_stop: "stop s s' \<Longrightarrow> tp_step raises s (Some s')"
| tp_worker_spurious: "spurious (w_wait s, w_take s) (w, a) \<Longrightarrow> tp_step raises s (Some (s\<lparr>w_wait := w, w_take := a\<rparr>))"
| tp_run_spurious: "spurious (p_wait s, p_run s) (w, a) \<Longrightarrow> tp_step raises s (Some (s\<lparr>p_wait := w, p_run := a\<rparr>))"

inductive tp_steps :: "('a \<Rightarrow> bool) \<Rightarrow> 'a pool \<Rightarrow> 'a pool \<Rightarrow> bool" for raises where
  tp_refl: "tp_steps raises s s"
| tp_more: "tp_steps raises s s' \<Longrightarrow> tp_step raises s' (Some s'') \<Longrightarrow> tp_steps raises s s''"

text \<open>A pool that was given its queue size and started.\<close>

definition tp_reach :: "('a \<Rightarrow> bool) \<Rightarrow> nat \<Rightarrow> nat \<Rightarrow> 'a pool \<Rightarrow> bool" where
  "tp_reach raises maxSize numThreads s \<longleftrightarrow>
     (\<exists>s0. start numThreads (setMaxQueueSize maxSize new_ThreadPool) = Some s0 \<and> tp_steps raises s0 s)"

section \<open>The invariant\<close>

definition tp_room :: "'a pool \<Rightarrow> nat" where
  "tp_room s = maxQueueSize s - length (tp_queue s)"

definition workers :: "'a pool \<Rightarrow> nat" where
  "workers s = length (w_init s) + length (w_loop s) + length (w_take s) + length (w_wait s) + length (w_run s) + length (w_done s)"

definition tp_inv :: "nat \<Rightarrow> nat \<Rightarrow> 'a pool \<Rightarrow> bool" where
  "tp_inv m n s \<longleftrightarrow> maxQueueSize s = m \<and> tp_threads s = n \<and> workers s = n \<and>
     tp_pushed s = map snd (tp_started s) @ tp_queue s \<and> mset (tp_started s) = mset (w_run s) + mset (tp_finished s) \<and>
     (0 < m \<longrightarrow> length (tp_queue s) \<le> m) \<and> (m = 0 \<longrightarrow> p_wait s = []) \<and>
     (\<not> tp_running s \<longrightarrow> w_wait s = []) \<and> (tp_running s \<longrightarrow> w_done s = []) \<and>
     covered (length (tp_queue s)) (w_wait s) (w_take s) \<and> covered (tp_room s) (p_wait s) (p_run s)"

lemma tp_invD:
  assumes "tp_inv m n s"
  shows "maxQueueSize s = m" "tp_threads s = n" "workers s = n" "tp_pushed s = map snd (tp_started s) @ tp_queue s"
    "mset (tp_started s) = mset (w_run s) + mset (tp_finished s)" "0 < m \<Longrightarrow> length (tp_queue s) \<le> m" "m = 0 \<Longrightarrow> p_wait s = []"
    "\<not> tp_running s \<Longrightarrow> w_wait s = []" "tp_running s \<Longrightarrow> w_done s = []"
    "covered (length (tp_queue s)) (w_wait s) (w_take s)" "covered (tp_room s) (p_wait s) (p_run s)"
  using assms by (simp_all add: tp_inv_def)

lemma length_remove1_Suc: "x \<in> set xs \<Longrightarrow> Suc (length (remove1 x xs)) = length xs"
  by (induction xs) auto

lemma run_turn_inv:
  assumes "run_turn tx s s'" "tx \<in> set (p_run s)" "tp_inv m n s"
  shows "tp_inv m n s'"
proof (cases "isFull s")
  case True
  then have "tp_room s = 0" "m \<noteq> 0" using assms(3) by (auto simp: isFull_def tp_room_def tp_inv_def)
  then show ?thesis using assms(1,3) True by (auto simp: run_turn_def tp_inv_def tp_room_def workers_def)
next
  case False
  then obtain w a where nt: "notify (w_wait s, w_take s) (w, a)" and s': "s' = s\<lparr>p_run := remove1 tx (p_run s),
      tp_queue := tp_queue s @ [snd tx], tp_pushed := tp_pushed s @ [snd tx], w_wait := w, w_take := a\<rparr>"
    using assms(1) by (auto simp: run_turn_def)
  note d = tp_invD[OF assms(3)]
  have "covered (Suc (length (tp_queue s))) w a" by (rule one.wake_covered[OF nt d(10)])
  moreover have "covered (tp_room s') (p_wait s) (remove1 tx (p_run s))"
  proof (cases "m = 0")
    case True
    then show ?thesis using d(7) by simp
  next
    case m: False
    then have "tp_room s = Suc (tp_room s')" using False d(1) by (simp add: isFull_def tp_room_def s')
    then show ?thesis using covered_done[of "tp_room s'"] d(11) assms(2) by simp
  qed
  moreover have "\<not> tp_running s \<longrightarrow> w = []" using d(8) nt by (auto simp: notify_def)
  moreover have "workers s' = workers s" using one.wake_length[OF nt] by (simp add: s' workers_def)
  moreover have "0 < m \<longrightarrow> length (tp_queue s) < m" using False d(1) by (auto simp: isFull_def)
  ultimately show ?thesis using d(1-5,7,9) by (auto simp: s' tp_inv_def Suc_le_eq)
qed

lemma take_turn_inv:
  assumes "take_turn t s s'" "t \<in> set (w_take s)" "tp_inv m n s"
  shows "tp_inv m n s'"
proof (cases "tp_queue s")
  case Nil
  note len = length_remove1_Suc[OF assms(2)]
  then show ?thesis using assms(1,3) Nil
    by (cases "tp_running s") (auto simp: take_turn_def Let_def tp_inv_def tp_room_def workers_def simp del: length_remove1)
next
  case (Cons x q)
  note d = tp_invD[OF assms(3)]
  have len: "Suc (length (remove1 t (w_take s))) = length (w_take s)" by (rule length_remove1_Suc[OF assms(2)])
  have q: "covered (length q) (w_wait s) (remove1 t (w_take s))"
    using covered_done[of "length q"] d(10) assms(2) Cons by simp
  show ?thesis
  proof (cases "m = 0")
    case True
    then show ?thesis using assms(1) Cons d len q
      by (auto simp: take_turn_def Let_def tp_inv_def workers_def)
  next
    case False
    then obtain w a where nt: "notify (p_wait s, p_run s) (w, a)" and s': "s' = s\<lparr>w_take := remove1 t (w_take s),
        tp_queue := q, w_run := w_run s @ [(t, x)], tp_started := tp_started s @ [(t, x)], p_wait := w, p_run := a\<rparr>"
      using assms(1) Cons d(1) by (auto simp: take_turn_def Let_def)
    have "tp_room s' = Suc (tp_room s)" using d(1,6) False Cons by (simp add: tp_room_def s' Suc_diff_le)
    then have "covered (tp_room s') w a" using one.wake_covered[OF nt d(11)] by simp
    then show ?thesis using d Cons len q False by (auto simp: s' tp_inv_def workers_def)
  qed
qed

lemma worker_step_inv:
  assumes "worker_step raises s (Some s')" "tp_inv m n s"
  shows "tp_inv m n s'"
  using assms
proof (cases rule: worker_step.cases)
  case (work_take t)
  then show ?thesis using take_turn_inv assms(2) by blast
qed (use assms(2) length_remove1_Suc in \<open>force simp: tp_inv_def tp_room_def workers_def covered_enter dest: length_remove1_Suc\<close>)+

lemma tp_step_inv:
  assumes "tp_step raises s (Some s')" "tp_inv m n s"
  shows "tp_inv m n s'"
  using assms
proof (cases rule: tp_step.cases)
  case tp_worker
  then show ?thesis using worker_step_inv assms(2) by blast
next
  case (tp_call t task)
  then show ?thesis using assms(2) by (auto simp: run_call_def tp_inv_def tp_room_def workers_def covered_enter)
next
  case (tp_run tx)
  then show ?thesis using run_turn_inv assms(2) by blast
next
  case tp_stop
  then show ?thesis using assms(2) by (auto simp: stop_def notifyAll_def tp_inv_def tp_room_def workers_def)
next
  case (tp_worker_spurious w a)
  have "length w + length a = length (w_wait s) + length (w_take s)"
    using tp_worker_spurious(2) by (auto simp: spurious_def dest: length_remove1_Suc simp del: length_remove1)
  moreover have "tp_running s" using tp_worker_spurious(2) tp_invD(8)[OF assms(2)] by (cases "tp_running s") (auto simp: spurious_def)
  moreover have "covered (length (tp_queue s)) w a" using tp_worker_spurious(2) tp_invD(10)[OF assms(2)] by (rule covered_spurious)
  ultimately show ?thesis using tp_worker_spurious(1) assms(2) by (auto simp: tp_inv_def tp_room_def workers_def)
next
  case (tp_run_spurious w a)
  have "m \<noteq> 0" using tp_run_spurious(2) tp_invD(7)[OF assms(2)] by (cases "m = 0") (auto simp: spurious_def)
  moreover have "covered (tp_room s) w a" using tp_run_spurious(2) tp_invD(11)[OF assms(2)] by (rule covered_spurious)
  ultimately show ?thesis using tp_run_spurious(1) assms(2) by (auto simp: tp_inv_def tp_room_def workers_def)
qed

lemma tp_steps_inv: "tp_steps raises s s' \<Longrightarrow> tp_inv m n s \<Longrightarrow> tp_inv m n s'"
  by (induction rule: tp_steps.induct) (auto intro: tp_step_inv)

lemma start_inv: "start n (setMaxQueueSize m new_ThreadPool) = Some s \<Longrightarrow> tp_inv m n s"
  by (auto simp: start_def setMaxQueueSize_def new_ThreadPool_def tp_inv_def tp_room_def workers_def)

lemma tp_reach_inv: "tp_reach raises m n s \<Longrightarrow> tp_inv m n s"
  unfolding tp_reach_def using start_inv tp_steps_inv by blast

section \<open>Stopping\<close>

text \<open>How many steps the workers have left to do once the pool stops.\<close>

definition work_left :: "'a pool \<Rightarrow> nat" where
  "work_left s = 2 * length (w_init s) + length (w_loop s) + 3 * length (w_take s) + 4 * length (w_wait s) + 2 * length (w_run s)"

lemma worker_step_work:
  assumes "worker_step raises s (Some s')" "\<not> tp_running s"
  shows "work_left s' < work_left s \<and> \<not> tp_running s'"
  using assms(1)
proof (cases rule: worker_step.cases)
  case (work_init t)
  then show ?thesis using length_remove1_Suc[of t "w_init s"] assms(2) by (simp add: work_left_def del: length_remove1)
next
  case (work_end t)
  then show ?thesis using length_remove1_Suc[of t "w_loop s"] assms(2) by (simp add: work_left_def del: length_remove1)
next
  case (work_take t)
  then show ?thesis using length_remove1_Suc[of t "w_take s"] assms(2)
    by (cases "tp_queue s") (auto simp: take_turn_def Let_def work_left_def simp del: length_remove1 split: if_splits)
next
  case (work_task t task)
  then show ?thesis using length_remove1_Suc[of "(t, task)" "w_run s"] assms(2) by (simp add: work_left_def del: length_remove1)
qed (use assms(2) in simp)

lemma take_turn_ex: "\<exists>s'. take_turn t s s'"
  using notify_ex[of "p_wait s" "p_run s"]
  by (cases "tp_queue s"; cases "tp_running s"; cases "maxQueueSize s = 0") (auto simp: take_turn_def Let_def)

lemma worker_step_ex:
  assumes "tp_inv m n s" "\<not> tp_running s" "\<not> joined s" "\<forall>(t, task) \<in> set (w_run s). \<not> raises task \<and> t \<notin> fst ` set (p_run s @ p_wait s)"
  shows "\<exists>s'. worker_step raises s (Some s')"
proof -
  have w: "w_wait s = []" using tp_invD(8)[OF assms(1)] assms(2) by simp
  have "work_left s \<noteq> 0"
    using assms(3) tp_invD(2,3)[OF assms(1)] by (auto simp: joined_def workers_def work_left_def)
  then consider t where "t \<in> set (w_init s)" | t where "t \<in> set (w_loop s)" | t where "t \<in> set (w_take s)" | t task where "(t, task) \<in> set (w_run s)"
    using w unfolding work_left_def by (metis add_is_0 length_0_conv list.set_intros(1) list.exhaust mult_0_right surj_pair)
  then show ?thesis
  proof cases
    case 1
    then show ?thesis using work_init by blast
  next
    case 2
    then show ?thesis using work_end[OF _ assms(2)] by blast
  next
    case (3 t)
    then show ?thesis using work_take take_turn_ex by blast
  next
    case (4 t task)
    then have "\<not> raises task" "t \<notin> fst ` set (p_run s @ p_wait s)" using assms(4) by auto
    then show ?thesis using work_task[OF 4] by blast
  qed
qed

text \<open>All workers gone and the queue full: nothing moves any more.\<close>

definition stranded :: "'a pool \<Rightarrow> bool" where
  "stranded s \<longleftrightarrow> \<not> tp_running s \<and> 0 < tp_threads s \<and> isFull s \<and> w_init s = [] \<and> w_loop s = [] \<and> w_take s = [] \<and>
     w_wait s = [] \<and> w_run s = []"

lemma stranded_step:
  assumes "tp_step raises s (Some s')" "stranded s"
  shows "stranded s' \<and> tp_queue s' = tp_queue s \<and> tp_pushed s' = tp_pushed s \<and> tp_started s' = tp_started s"
  using assms(1)
proof (cases rule: tp_step.cases)
  case tp_worker
  then show ?thesis using assms(2) by (cases rule: worker_step.cases) (simp_all add: stranded_def)
next
  case (tp_call t task)
  then show ?thesis using assms(2) by (simp add: run_call_def stranded_def isFull_def)
next
  case (tp_run tx)
  then show ?thesis using assms(2) by (simp add: run_turn_def stranded_def isFull_def)
next
  case tp_stop
  then show ?thesis using assms(2) by (auto simp: stop_def notifyAll_def stranded_def isFull_def)
next
  case (tp_worker_spurious w a)
  then show ?thesis using assms(2) by (simp add: spurious_def stranded_def)
next
  case (tp_run_spurious w a)
  then show ?thesis using assms(2) by (simp add: stranded_def isFull_def)
qed

lemma stranded_steps:
  "tp_steps raises s s' \<Longrightarrow> stranded s \<Longrightarrow>
   stranded s' \<and> tp_queue s' = tp_queue s \<and> tp_pushed s' = tp_pushed s \<and> tp_started s' = tp_started s"
proof (induction rule: tp_steps.induct)
  case (tp_more s s' s'')
  then show ?case using stranded_step[OF tp_more.hyps(2)] by simp
qed simp

section \<open>Properties\<close>

text \<open>
  C10. The tasks given to a pool are started in the order in which they were queued, each once; what was
  started is running or finished, and the queue never exceeds its size.  No wakeup is lost: a worker
  waits only when at least as many workers are awake as there are queued tasks, so that a pool whose queue
  is not empty has a worker at work, and a caller of \<open>run\<close> waits only when at least as many callers are
  awake as there is room.  This holds under every interleaving of workers, callers and \<open>stop\<close>, also
  when tasks call \<open>run\<close>.
\<close>

theorem thread_pool_fifo:
  assumes "tp_reach raises m n s"
  shows "tp_pushed s = map snd (tp_started s) @ tp_queue s \<and>
    mset (tp_started s) = mset (w_run s) + mset (tp_finished s) \<and> (0 < m \<longrightarrow> queueSize s \<le> m) \<and>
    (w_wait s \<noteq> [] \<longrightarrow> queueSize s \<le> length (w_take s)) \<and> (p_wait s \<noteq> [] \<longrightarrow> m - queueSize s \<le> length (p_run s)) \<and>
    (tp_running s \<and> 0 < n \<and> queueSize s > 0 \<longrightarrow> w_init s \<noteq> [] \<or> w_loop s \<noteq> [] \<or> w_take s \<noteq> [] \<or> w_run s \<noteq> [])"
proof -
  note d = tp_invD[OF tp_reach_inv[OF assms]]
  have "w_init s \<noteq> [] \<or> w_loop s \<noteq> [] \<or> w_take s \<noteq> [] \<or> w_run s \<noteq> []" if "tp_running s" "0 < n" "queueSize s > 0"
    using d(3,9,10) that by (auto simp: workers_def covered_def queueSize_def)
  then show ?thesis using d by (auto simp: queueSize_def covered_def tp_room_def)
qed

text \<open>A pool with one worker and room for one task: one task is queued, one caller of \<open>run\<close> waits.\<close>

definition demo0 :: "string pool" where
  "demo0 = new_ThreadPool\<lparr>maxQueueSize := 1, tp_running := True, tp_threads := 1, w_init := [0]\<rparr>"

definition demo1 :: "string pool" where
  "demo1 = demo0\<lparr>tp_queue := [''a''], tp_pushed := [''a''], p_wait := [(9, ''b'')]\<rparr>"

lemmas demo_defs = demo0_def demo1_def new_ThreadPool_def

lemma demo0_start: "start 1 (setMaxQueueSize 1 new_ThreadPool) = Some demo0"
  by (simp add: start_def setMaxQueueSize_def demo_defs)

lemma demo1_reach: "tp_steps raises demo0 demo1"
proof -
  define s1 where "s1 = demo0\<lparr>p_run := [(8, ''a'')]\<rparr>"
  define s2 where "s2 = s1\<lparr>p_run := [], tp_queue := [''a''], tp_pushed := [''a'']\<rparr>"
  define s3 where "s3 = s2\<lparr>p_run := [(9, ''b'')]\<rparr>"
  note defs = demo_defs s1_def s2_def s3_def
  have "tp_step raises demo0 (Some s1)" using tp_call[of raises demo0 8 "''a''"] by (simp add: run_call_def defs)
  moreover have "tp_step raises s1 (Some s2)" by (rule tp_run[of "(8, ''a'')"]) (simp_all add: run_turn_def isFull_def notify_def defs)
  moreover have "tp_step raises s2 (Some s3)" using tp_call[of raises s2 9 "''b''"] by (simp add: run_call_def defs)
  moreover have "tp_step raises s3 (Some demo1)" by (rule tp_run[of "(9, ''b'')"]) (simp_all add: run_turn_def isFull_def defs)
  ultimately show ?thesis by (meson tp_refl tp_more)
qed

theorem thread_pool_fifo_witness:
  "tp_reach (\<lambda>_. False) 1 1 demo1 \<and> tp_pushed demo1 = [''a''] \<and> queueSize demo1 \<le> 1"
proof -
  have r: "tp_reach (\<lambda>_. False) 1 1 demo1" using demo0_start demo1_reach unfolding tp_reach_def by blast
  show ?thesis using thread_pool_fifo[OF r] r by (simp add: demo_defs)
qed



text \<open>
  \<open>stop\<close> strands what is queued: a pool can come to a state in which all its workers are finished,
  a task is queued and a caller waits in \<open>run\<close> for room.  \<open>stop\<close> does not wake that caller, and from that
  state on nothing is ever queued or started again: the task is not run and the caller does not return.
\<close>

theorem thread_pool_stop_strands:
  "\<exists>s. tp_reach raises 1 1 s \<and> joined s \<and> tp_queue s = [''a''] \<and> p_wait s = [(9, ''b'')] \<and>
     (\<forall>s'. tp_steps raises s s' \<longrightarrow> tp_queue s' = [''a''] \<and> tp_pushed s' = [''a''] \<and> tp_started s' = [])"
proof -
  define s1 where "s1 = demo1\<lparr>tp_running := False\<rparr>"
  define s2 where "s2 = s1\<lparr>w_init := [], w_loop := [0]\<rparr>"
  define s3 where "s3 = s2\<lparr>w_loop := [], w_done := [0]\<rparr>"
  note defs = demo_defs s1_def s2_def s3_def
  have "tp_step raises demo1 (Some s1)" by (rule tp_stop) (simp add: stop_def notifyAll_def defs)
  moreover have "tp_step raises s1 (Some s2)" using tp_worker[OF work_init[of 0 s1 raises]] by (simp add: defs)
  moreover have "tp_step raises s2 (Some s3)" using tp_worker[OF work_end[of 0 s2 raises]] by (simp add: defs)
  ultimately have "tp_steps raises demo0 s3" using demo1_reach[of raises] by (meson tp_more)
  then have r: "tp_reach raises 1 1 s3" using demo0_start unfolding tp_reach_def by blast
  have "stranded s3" by (simp add: stranded_def isFull_def defs)
  then show ?thesis using stranded_steps[of raises s3] r by (intro exI[of _ s3]) (auto simp: defs joined_def)
qed

theorem thread_pool_stop_strands_witness:
  "\<exists>s :: string pool. tp_reach (\<lambda>_. False) 1 1 s \<and> joined s \<and> (\<forall>s'. tp_steps (\<lambda>_. False) s s' \<longrightarrow> tp_started s' = [])"
  using thread_pool_stop_strands[of "\<lambda>_. False"] by blast

end
