(* ===== verification/Log_Stream.thy ===== *)
theory Log_Stream
  imports Muduo_Prelude Formatting
begin

text \<open>
  The stream that log messages are formatted with (\<open>muduo/base/LogStream.h\<close>, \<open>LogStream.cc\<close>): the
  fixed buffer, the integer conversions and the stream's operators.  A \<open>FixedBuffer\<close> is its array and
  the index of its cursor; a write beyond the array is \<open>None\<close>.  Integers are \<open>int\<close> with C's division,
  which rounds towards zero; the bounds of the C types are hypotheses where they matter.
\<close>

section \<open>Integer conversions\<close>

text \<open>\<open>zero\<close> points into the middle of the table, so that negative remainders index it as well.\<close>

definition digits :: string where
  "digits = ''9876543210123456789''"

definition zero_at :: "int \<Rightarrow> char" where
  "zero_at lsd = digits ! nat (9 + lsd)"

definition digitsHex :: string where
  "digitsHex = ''0123456789ABCDEF''"

lemma sdiv_10_less: "i sdiv (10::int) \<noteq> 0 \<Longrightarrow> nat \<bar>i sdiv 10\<bar> < nat \<bar>i\<bar>"
  by (auto simp: signed_divide_int_def sgn_if split: if_splits)

function convert_loop :: "int \<Rightarrow> string \<Rightarrow> string" where
  "convert_loop i p =
     (let lsd = i smod 10;
          i' = i sdiv 10;
          p' = p @ [zero_at lsd]
      in if i' \<noteq> 0 then convert_loop i' p' else p')"
  by auto
termination
  by (relation "measure (\<lambda>(i, _). nat \<bar>i\<bar>)") (use sdiv_10_less in auto)

declare convert_loop.simps [simp del]

definition convert :: "int \<Rightarrow> string" where
  "convert value =
     (let p = convert_loop value [];
          p = (if value < 0 then p @ ''-'' else p)
      in rev p)"

fun convertHex_loop :: "nat \<Rightarrow> string \<Rightarrow> string" where
  "convertHex_loop i p =
     (let lsd = i mod 16;
          i' = i div 16;
          p' = p @ [digitsHex ! lsd]
      in if i' \<noteq> 0 then convertHex_loop i' p' else p')"

declare convertHex_loop.simps [simp del]

definition convertHex :: "64 word \<Rightarrow> string" where
  "convertHex v = rev (convertHex_loop (unat v) [])"

section \<open>FixedBuffer\<close>

definition kSmallBuffer :: nat where "kSmallBuffer = 4000"
definition kLargeBuffer :: nat where "kLargeBuffer = 4000 * 1000"

record fixed_buffer =
  data :: string
  cur :: nat

definition new_FixedBuffer :: "nat \<Rightarrow> fixed_buffer" where
  "new_FixedBuffer SIZE = \<lparr>data = replicate SIZE CHR 0x00, cur = 0\<rparr>"

definition avail :: "fixed_buffer \<Rightarrow> nat" where
  "avail b = length (data b) - cur b"

definition toString :: "fixed_buffer \<Rightarrow> string" where
  "toString b = take (cur b) (data b)"

text \<open>Characters written at the cursor, which does not move.\<close>

definition poke :: "fixed_buffer \<Rightarrow> string \<Rightarrow> fixed_buffer option" where
  "poke b s = do {
     assert_that (cur b + length s \<le> length (data b));
     Some (b\<lparr>data := take (cur b) (data b) @ s @ drop (cur b + length s) (data b)\<rparr>)
   }"

definition add :: "fixed_buffer \<Rightarrow> nat \<Rightarrow> fixed_buffer" where
  "add b len = b\<lparr>cur := cur b + len\<rparr>"

definition reset :: "fixed_buffer \<Rightarrow> fixed_buffer" where
  "reset b = b\<lparr>cur := 0\<rparr>"

definition bzero :: "fixed_buffer \<Rightarrow> fixed_buffer" where
  "bzero b = b\<lparr>data := replicate (length (data b)) CHR 0x00\<rparr>"

definition debugString :: "fixed_buffer \<Rightarrow> (string \<times> fixed_buffer) option" where
  "debugString b = do { b' \<leftarrow> poke b [CHR 0x00]; Some (takeWhile (\<lambda>c. c \<noteq> CHR 0x00) (data b'), b') }"

definition fb_append :: "fixed_buffer \<Rightarrow> string \<Rightarrow> fixed_buffer option" where
  "fb_append b s = (if avail b > length s then do { b' \<leftarrow> poke b s; Some (add b' (length s)) } else Some b)"

section \<open>LogStream\<close>

definition kMaxNumericSize :: nat where "kMaxNumericSize = 32"

text \<open>\<open>convert\<close> and \<open>convertHex\<close> write their text and a terminating zero.\<close>

definition formatInteger :: "fixed_buffer \<Rightarrow> int \<Rightarrow> fixed_buffer option" where
  "formatInteger b v =
     (if avail b \<ge> kMaxNumericSize then do {
        let s = convert v;
        b' \<leftarrow> poke b (s @ [CHR 0x00]);
        Some (add b' (length s))
      } else Some b)"

definition formatPointer :: "fixed_buffer \<Rightarrow> 64 word \<Rightarrow> fixed_buffer option" where
  "formatPointer b v =
     (if avail b \<ge> kMaxNumericSize then do {
        let s = convertHex v;
        b' \<leftarrow> poke b (''0x'' @ s @ [CHR 0x00]);
        Some (add b' (length s + 2))
      } else Some b)"

text \<open>
  The operators of the stream.  \<open>Num\<close> is any integer type; \<open>Dbl\<close> carries what \<open>%.12g\<close> prints, since
  the library's own conversion of doubles is \<open>snprintf\<close>.
\<close>

datatype item = Bool bool | Num int | Ptr "64 word" | Dbl string | Chr char | CStr "string option" | Str string

definition put_double :: "fixed_buffer \<Rightarrow> string \<Rightarrow> fixed_buffer option" where
  "put_double b printed =
     (if avail b \<ge> kMaxNumericSize then do {
        b' \<leftarrow> poke b (take (kMaxNumericSize - 1) printed @ [CHR 0x00]);
        Some (add b' (length printed))
      } else Some b)"

fun put :: "fixed_buffer \<Rightarrow> item \<Rightarrow> fixed_buffer option" where
  "put b (Bool v) = fb_append b (if v then ''1'' else ''0'')"
| "put b (Num v) = formatInteger b v"
| "put b (Ptr p) = formatPointer b p"
| "put b (Dbl printed) = put_double b printed"
| "put b (Chr c) = fb_append b [c]"
| "put b (CStr (Some s)) = fb_append b s"
| "put b (CStr None) = fb_append b ''(null)''"
| "put b (Str s) = fb_append b s"

fun puts :: "fixed_buffer \<Rightarrow> item list \<Rightarrow> fixed_buffer option" where
  "puts b [] = Some b"
| "puts b (x # xs) = do { b' \<leftarrow> put b x; puts b' xs }"

section \<open>The conversions are printf's\<close>

lemma zero_at_digit:
  assumes "-9 \<le> lsd" "lsd \<le> 9"
  shows "zero_at lsd = digit_char (nat \<bar>lsd\<bar>)"
proof -
  have "lsd \<in> {-9, -8, -7, -6, -5, -4, -3, -2, -1, 0, 1, 2, 3, 4, 5, 6, 7, 8, 9}" using assms by simp presburger
  then show ?thesis by (auto simp: zero_at_def digits_def)
qed

lemma convert_loop_show: "convert_loop i p = p @ rev (show_nat (nat \<bar>i\<bar>))"
proof (induction i p rule: convert_loop.induct)
  case (1 i p)
  have m: "nat \<bar>i smod 10\<bar> = nat \<bar>i\<bar> mod 10" "-9 \<le> i smod 10" "i smod 10 \<le> 9"
    by (auto simp: signed_modulo_int_def sgn_if nat_mod_distrib abs_mult nat_abs_mult_distrib split: if_splits)
  have d: "nat \<bar>i sdiv 10\<bar> = nat \<bar>i\<bar> div 10"
    by (auto simp: signed_divide_int_def sgn_if nat_div_distrib)
  have z: "i sdiv 10 \<noteq> 0 \<longleftrightarrow> \<not> nat \<bar>i\<bar> < 10"
    using d by (metis abs_0 abs_eq_0 div_eq_0_iff nat_0 nat_0_iff abs_le_zero_iff zero_neq_numeral)
  show ?case
  proof (cases "i sdiv 10 = 0")
    case True
    then have "nat \<bar>i\<bar> < 10" using z by blast
    then show ?thesis using True m zero_at_digit[of "i smod 10"]
      by (simp add: convert_loop.simps[of i] show_base.simps Let_def)
  next
    case False
    then have "\<not> nat \<bar>i\<bar> < 10" using z by blast
    then have "show_nat (nat \<bar>i\<bar>) = show_nat (nat \<bar>i\<bar> div 10) @ [digit_char (nat \<bar>i\<bar> mod 10)]"
      by (subst show_base.simps) simp
    then show ?thesis using 1[OF refl refl refl False] False m d zero_at_digit[of "i smod 10"]
      by (simp add: convert_loop.simps[of i] Let_def)
  qed
qed

lemma convert_show: "convert v = show_int v"
  by (simp add: convert_def convert_loop_show show_int_def Let_def)

lemma digitsHex_digit: "d < 16 \<Longrightarrow> digitsHex ! d = digit_char d"
proof -
  assume "d < 16"
  then have "d \<in> {0, 1, 2, 3, 4, 5, 6, 7, 8, 9, 10, 11, 12, 13, 14, 15}" by simp presburger
  then show ?thesis by (auto simp: digitsHex_def)
qed

lemma convertHex_loop_show: "convertHex_loop i p = p @ rev (show_base 16 i)"
proof (induction i p rule: convertHex_loop.induct)
  case (1 i p)
  have d: "digitsHex ! (i mod 16) = digit_char (i mod 16)" by (simp add: digitsHex_digit)
  show ?case
  proof (cases "i < 16")
    case True
    then show ?thesis using d by (simp add: convertHex_loop.simps[of i] show_base.simps Let_def)
  next
    case False
    then have "show_base 16 i = show_base 16 (i div 16) @ [digit_char (i mod 16)]" by (subst show_base.simps) simp
    moreover have "i div 16 \<noteq> 0" using False by (simp add: div_eq_0_iff)
    ultimately show ?thesis using 1[OF refl refl refl] d by (simp add: convertHex_loop.simps[of i] Let_def)
  qed
qed

lemma convertHex_show: "convertHex v = show_base 16 (unat v)"
  by (simp add: convertHex_def convertHex_loop_show)

text \<open>Text of an item, the room it asks for, and the arguments the C types allow.\<close>

fun render :: "item \<Rightarrow> string" where
  "render (Bool v) = (if v then ''1'' else ''0'')"
| "render (Num v) = show_int v"
| "render (Ptr p) = ''0x'' @ show_base 16 (unat p)"
| "render (Dbl printed) = printed"
| "render (Chr c) = [c]"
| "render (CStr s) = (case s of None \<Rightarrow> ''(null)'' | Some s \<Rightarrow> s)"
| "render (Str s) = s"

fun room :: "item \<Rightarrow> nat" where
  "room (Num v) = kMaxNumericSize"
| "room (Ptr p) = kMaxNumericSize"
| "room (Dbl printed) = kMaxNumericSize"
| "room x = length (render x) + 1"

fun item_ok :: "item \<Rightarrow> bool" where
  "item_ok (Num v) \<longleftrightarrow> - (2 ^ 63) \<le> v \<and> v < 2 ^ 64"
| "item_ok (Dbl printed) \<longleftrightarrow> length printed < kMaxNumericSize"
| "item_ok x \<longleftrightarrow> True"

fun log_spec :: "nat \<Rightarrow> string \<Rightarrow> item list \<Rightarrow> string" where
  "log_spec N s [] = s"
| "log_spec N s (x # xs) = log_spec N (if room x \<le> N - length s then s @ render x else s) xs"

lemma length_show_int: "- (2 ^ 63) \<le> v \<Longrightarrow> v < 2 ^ 64 \<Longrightarrow> length (show_int v) \<le> 20"
proof -
  assume "- (2 ^ 63) \<le> v" "v < 2 ^ 64"
  then have "nat v < 10 ^ Suc 19" "nat (- v) < 10 ^ Suc 18" by auto
  then have "length (show_nat (nat v)) \<le> Suc 19" "length (show_nat (nat (- v))) \<le> Suc 18"
    using length_show_base[of 10 _ 19] length_show_base[of 10 _ 18] by simp_all
  then show ?thesis by (auto simp: show_int_def)
qed

lemma length_show_pointer: "length (show_base 16 (unat (p :: 64 word))) \<le> 16"
proof -
  have "unat p < 16 ^ Suc 15" using unsigned_less[of p] by simp
  then show ?thesis using length_show_base[of 16 "unat p" 15] by simp
qed

definition fb_wf :: "fixed_buffer \<Rightarrow> bool" where
  "fb_wf b \<longleftrightarrow> cur b \<le> length (data b)"

lemma poke_add:
  assumes "fb_wf b" and "length s + length z \<le> avail b"
  shows "\<exists>b'. poke b (s @ z) = Some b' \<and> fb_wf (add b' (length s)) \<and> length (data (add b' (length s))) = length (data b) \<and>
    toString (add b' (length s)) = toString b @ s"
proof -
  have "length (take (cur b) (data b)) = cur b" "cur b + (length s + length z) \<le> length (data b)"
    using assms by (auto simp: fb_wf_def avail_def)
  then show ?thesis
    by (auto simp: poke_def add_def fb_wf_def toString_def)
qed

lemma fb_append_ok:
  assumes "fb_wf b"
  shows "\<exists>b'. fb_append b s = Some b' \<and> fb_wf b' \<and> length (data b') = length (data b) \<and>
    toString b' = toString b @ (if length s + 1 \<le> avail b then s else [])"
  using poke_add[OF assms, of s "[]"] assms by (auto simp: fb_append_def)

lemma put_ok:
  assumes "fb_wf b" and "item_ok x"
  shows "\<exists>b'. put b x = Some b' \<and> fb_wf b' \<and> length (data b') = length (data b) \<and>
    toString b' = toString b @ (if room x \<le> avail b then render x else [])"
proof (cases "put b x = fb_append b (render x) \<and> room x = length (render x) + 1")
  case True
  then show ?thesis using fb_append_ok[OF assms(1), of "render x"] by simp
next
  case special: False
  show ?thesis
  proof (cases x)
    case (Num v)
    show ?thesis
    proof (cases "room x \<le> avail b")
      case True
      then have "length (show_int v) + length [CHR 0x00] \<le> avail b"
        using Num assms(2) length_show_int[of v] by (simp add: kMaxNumericSize_def)
      from poke_add[OF assms(1) this] show ?thesis using Num True by (auto simp: formatInteger_def convert_show)
    qed (use Num assms in \<open>simp add: formatInteger_def\<close>)
  next
    case (Ptr p)
    let ?s = "''0x'' @ show_base 16 (unat p)"
    show ?thesis
    proof (cases "room x \<le> avail b")
      case True
      then have "length ?s + length [CHR 0x00] \<le> avail b"
        using Ptr length_show_pointer[of p] by (simp add: kMaxNumericSize_def)
      from poke_add[OF assms(1) this] show ?thesis using Ptr True by (auto simp: formatPointer_def convertHex_show)
    qed (use Ptr assms in \<open>simp add: formatPointer_def\<close>)
  next
    case (Dbl s)
    show ?thesis
    proof (cases "room x \<le> avail b")
      case True
      then have "length s + length [CHR 0x00] \<le> avail b" "take (kMaxNumericSize - 1) s = s"
        using Dbl assms(2) by (simp_all add: kMaxNumericSize_def)
      then show ?thesis using poke_add[OF assms(1), of s "[CHR 0x00]"] Dbl True by (auto simp: put_double_def)
    qed (use Dbl assms in \<open>simp add: put_double_def\<close>)
  next
    case (CStr s)
    then show ?thesis using special by (cases s) simp_all
  qed (use special in simp_all)
qed

lemma puts_ok:
  assumes "fb_wf b" and "\<forall>x \<in> set xs. item_ok x"
  shows "\<exists>b'. puts b xs = Some b' \<and> fb_wf b' \<and> length (data b') = length (data b) \<and>
    toString b' = log_spec (length (data b)) (toString b) xs"
  using assms
proof (induction xs arbitrary: b)
  case (Cons x xs)
  obtain b1 where b1: "put b x = Some b1" "fb_wf b1" "length (data b1) = length (data b)"
    "toString b1 = toString b @ (if room x \<le> avail b then render x else [])"
    using put_ok[OF Cons.prems(1)] Cons.prems(2) by auto
  have "avail b = length (data b) - length (toString b)"
    using Cons.prems(1) by (simp add: avail_def toString_def fb_wf_def)
  then show ?case using Cons.IH[OF b1(2)] Cons.prems(2) b1 by auto
qed simp

section \<open>Properties\<close>

text \<open>
  C35. The hand-written conversions print what \<open>printf\<close> prints, for every integer, the most negative one
  included: \<open>convert\<close> agrees with \<open>%d\<close>, and \<open>convertHex\<close> with hexadecimal in capitals.
\<close>

theorem convert_printf:
  "convert v = (if v < 0 then ''-'' else []) @ show_base 10 (nat \<bar>v\<bar>) \<and> convertHex p = show_base 16 (unat p) \<and>
   read_base 10 (convert (int n)) = n \<and> read_base 16 (convertHex p) = unat p"
  by (simp add: convert_show convertHex_show show_int_def read_show_base)

text \<open>
  C34. Whatever is streamed into a log buffer, no write leaves the buffer, and its text is that of the
  items in order, an item being dropped as a whole when the room it asks for is not there: its length
  and one more, or 32 for a number.
\<close>

theorem log_stream_bounded:
  assumes "\<forall>x \<in> set xs. item_ok x"
  shows "\<exists>b. puts (new_FixedBuffer N) xs = Some b \<and> toString b = log_spec N [] xs \<and> length (toString b) \<le> N"
proof -
  have "fb_wf (new_FixedBuffer N)" "length (data (new_FixedBuffer N)) = N" "toString (new_FixedBuffer N) = []"
    by (simp_all add: new_FixedBuffer_def fb_wf_def toString_def)
  then show ?thesis using puts_ok[of "new_FixedBuffer N" xs] assms by (auto simp: toString_def)
qed

theorem log_stream_bounded_witness:
  "\<exists>b. puts (new_FixedBuffer 39) [Str ''fd = '', Num (-7), Chr CHR ''!'', Num 8] = Some b \<and> toString b = ''fd = -7!''"
proof -
  have "show_int (-7) = ''-7''" by (simp add: show_int_def show_base.simps digit_char_def) code_simp
  then have "log_spec 39 [] [Str ''fd = '', Num (-7), Chr CHR ''!'', Num 8] = ''fd = -7!''"
    by (simp add: kMaxNumericSize_def)
  then show ?thesis
    using log_stream_bounded[of "[Str ''fd = '', Num (-7), Chr CHR ''!'', Num 8]" 39] by auto
qed

end
