(* ===== verification/Log_File.thy ===== *)
theory Log_File
  imports Dates Muduo_Prelude
begin

text \<open>
  The log file that starts a new file when it has grown or a day has passed (\<open>muduo/base/LogFile.h\<close>,
  \<open>LogFile.cc\<close>) over \<open>AppendFile\<close> (\<open>FileUtil.cc\<close>).  What the environment answers is a record of functions:
  the clock, whether a file can be opened and how much \<open>fwrite\<close> takes, each asked with the number of the
  call, and how a time is broken down.  The mutex makes \<open>append\<close> and \<open>flush\<close> atomic.
\<close>

record log_env =
  env_time :: "nat \<Rightarrow> int"
  env_fopen :: "string \<Rightarrow> bool"
  env_fwrite :: "nat \<Rightarrow> nat \<Rightarrow> nat"
  env_gmtime :: "int \<Rightarrow> tm"
  env_hostname :: string
  env_pid :: int

section \<open>AppendFile\<close>

text \<open>\<open>af_data\<close> is what was given to \<open>fwrite\<close> and taken by it; \<open>af_writes\<close> counts the calls.\<close>

record append_file =
  af_name :: string
  af_data :: string
  writtenBytes :: nat
  af_writes :: nat
  af_flushed :: nat

definition new_AppendFile :: "log_env \<Rightarrow> string \<Rightarrow> append_file option" where
  "new_AppendFile e filename = do {
     assert_that (env_fopen e filename);
     Some (\<lparr>af_name = filename, af_data = [], writtenBytes = 0, af_writes = 0, af_flushed = 0\<rparr>)
   }"

text \<open>\<open>fwrite\<close> takes at most what it is given.\<close>

definition af_write :: "log_env \<Rightarrow> string \<Rightarrow> append_file \<Rightarrow> nat \<times> append_file" where
  "af_write e s f =
     (let x = min (env_fwrite e (af_writes f) (length s)) (length s)
      in (x, f\<lparr>af_data := af_data f @ take x s, af_writes := af_writes f + 1\<rparr>))"

function af_append_loop :: "log_env \<Rightarrow> string \<Rightarrow> append_file \<Rightarrow> append_file" where
  "af_append_loop e s f =
     (if s = [] then f
      else let r = af_write e s f
           in if fst r = 0 then snd r else af_append_loop e (drop (fst r) s) (snd r))"
  by pat_completeness auto
termination
  by (relation "measure (\<lambda>(e, s, f). length s)") auto

declare af_append_loop.simps [simp del]

definition af_append :: "log_env \<Rightarrow> string \<Rightarrow> append_file \<Rightarrow> append_file" where
  "af_append e logline f =
     (let r = af_write e logline f; f' = af_append_loop e (drop (fst r) logline) (snd r)
      in f'\<lparr>writtenBytes := writtenBytes f' + length logline\<rparr>)"

definition af_flush :: "append_file \<Rightarrow> append_file" where
  "af_flush f = f\<lparr>af_flushed := length (af_data f)\<rparr>"

section \<open>LogFile\<close>

text \<open>\<open>lf_closed\<close> records the files that were closed, in order; \<open>lf_times\<close> counts the readings of the clock.\<close>

record log_file =
  basename :: string
  rollSize :: int
  flushInterval :: int
  checkEveryN :: int
  lf_count :: int
  startOfPeriod :: int
  lastRoll :: int
  lastFlush :: int
  lf_file :: "append_file option"
  lf_closed :: "append_file list"
  lf_times :: nat

definition kRollPerSeconds :: int where "kRollPerSeconds = 60 * 60 * 24"

text \<open>\<open>strftime\<close> with \<open>%Y%m%d-%H%M%S\<close>.\<close>

definition strftime_name :: "tm \<Rightarrow> string" where
  "strftime_name t = ''.'' @ show_int (tm_year t + 1900) @ pad_left CHR ''0'' 2 (show_int (tm_mon t + 1)) @
     pad_left CHR ''0'' 2 (show_int (tm_mday t)) @ ''-'' @ pad_left CHR ''0'' 2 (show_int (tm_hour t)) @
     pad_left CHR ''0'' 2 (show_int (tm_min t)) @ pad_left CHR ''0'' 2 (show_int (tm_sec t)) @ ''.''"

definition getLogFileName :: "log_env \<Rightarrow> string \<Rightarrow> int \<Rightarrow> string" where
  "getLogFileName e base now =
     base @ strftime_name (env_gmtime e now) @ env_hostname e @ take 31 (''.'' @ show_int (env_pid e)) @ ''.log''"

definition rollFile :: "log_env \<Rightarrow> log_file \<Rightarrow> (bool \<times> log_file) option" where
  "rollFile e l = do {
     let now = env_time e (lf_times l);
     let l1 = l\<lparr>lf_times := lf_times l + 1\<rparr>;
     let filename = getLogFileName e (basename l) now;
     let start = now sdiv kRollPerSeconds * kRollPerSeconds;
     if now > lastRoll l1 then do {
       f \<leftarrow> new_AppendFile e filename;
       Some (True, l1\<lparr>lastRoll := now, lastFlush := now, startOfPeriod := start, lf_file := Some f,
                      lf_closed := lf_closed l1 @ (case lf_file l1 of None \<Rightarrow> [] | Some g \<Rightarrow> [g])\<rparr>)
     } else Some (False, l1)
   }"

definition new_LogFile :: "log_env \<Rightarrow> string \<Rightarrow> int \<Rightarrow> int \<Rightarrow> int \<Rightarrow> log_file option" where
  "new_LogFile e base roll flush check = do {
     assert_that (CHR ''/'' \<notin> set base);
     r \<leftarrow> rollFile e \<lparr>basename = base, rollSize = roll, flushInterval = flush, checkEveryN = check, lf_count = 0,
                     startOfPeriod = 0, lastRoll = 0, lastFlush = 0, lf_file = None, lf_closed = [], lf_times = 0\<rparr>;
     Some (snd r)
   }"

definition append_unlocked :: "log_env \<Rightarrow> string \<Rightarrow> log_file \<Rightarrow> log_file option" where
  "append_unlocked e logline l = do {
     f \<leftarrow> lf_file l;
     let f' = af_append e logline f;
     let l1 = l\<lparr>lf_file := Some f'\<rparr>;
     if int (writtenBytes f') > rollSize l1 then map_option snd (rollFile e l1)
     else do {
       let l2 = l1\<lparr>lf_count := lf_count l1 + 1\<rparr>;
       if lf_count l2 \<ge> checkEveryN l2 then do {
         let now = env_time e (lf_times l2);
         let l3 = l2\<lparr>lf_count := 0, lf_times := lf_times l2 + 1\<rparr>;
         let thisPeriod = now sdiv kRollPerSeconds * kRollPerSeconds;
         if thisPeriod \<noteq> startOfPeriod l3 then map_option snd (rollFile e l3)
         else if now - lastFlush l3 > flushInterval l3 then Some (l3\<lparr>lastFlush := now, lf_file := Some (af_flush f')\<rparr>)
         else Some l3
       } else Some l2
     }
   }"

definition lf_append :: "log_env \<Rightarrow> string \<Rightarrow> log_file \<Rightarrow> log_file option" where
  "lf_append e logline l = append_unlocked e logline l"

definition lf_flush :: "log_file \<Rightarrow> log_file option" where
  "lf_flush l = do { f \<leftarrow> lf_file l; Some (l\<lparr>lf_file := Some (af_flush f)\<rparr>) }"

section \<open>What is in the files\<close>

text \<open>An environment in which files can be opened and \<open>fwrite\<close>, if it takes less than all, takes something.\<close>

definition env_ok :: "log_env \<Rightarrow> bool" where
  "env_ok e \<longleftrightarrow> (\<forall>s. env_fopen e s) \<and> (\<forall>i n. 0 < n \<longrightarrow> 0 < env_fwrite e i n)"

definition lf_text :: "log_file \<Rightarrow> string" where
  "lf_text l = concat (map af_data (lf_closed l)) @ (case lf_file l of None \<Rightarrow> [] | Some f \<Rightarrow> af_data f)"

definition lf_ok :: "log_env \<Rightarrow> log_file \<Rightarrow> bool" where
  "lf_ok e l \<longleftrightarrow> env_ok e \<and> lf_file l \<noteq> None"

fun append_each :: "(string \<Rightarrow> 'o \<Rightarrow> 'o option) \<Rightarrow> string list \<Rightarrow> 'o \<Rightarrow> 'o option" where
  "append_each app [] s = Some s"
| "append_each app (x # xs) s = do { s' \<leftarrow> app x s; append_each app xs s' }"

text \<open>What a log needs of the place it writes to: everything appended arrives, in order.\<close>

locale log_sink =
  fixes sink_append :: "string \<Rightarrow> 'o \<Rightarrow> 'o option"
    and sink_flush :: "'o \<Rightarrow> 'o option"
    and sink_text :: "'o \<Rightarrow> string"
    and sink_ok :: "'o \<Rightarrow> bool"
  assumes sink_append_ok: "sink_ok s \<Longrightarrow> \<exists>s'. sink_append x s = Some s' \<and> sink_ok s' \<and> sink_text s' = sink_text s @ x"
    and sink_flush_ok: "sink_ok s \<Longrightarrow> \<exists>s'. sink_flush s = Some s' \<and> sink_ok s' \<and> sink_text s' = sink_text s"
begin

lemma append_each_ok:
  "sink_ok s \<Longrightarrow> \<exists>s'. append_each sink_append xs s = Some s' \<and> sink_ok s' \<and> sink_text s' = sink_text s @ concat xs"
proof (induction xs arbitrary: s)
  case (Cons x xs)
  obtain s1 where s1: "sink_append x s = Some s1" "sink_ok s1" "sink_text s1 = sink_text s @ x"
    using sink_append_ok[OF Cons.prems] by blast
  then show ?case using Cons.IH[OF s1(2)] by auto
qed simp

end

lemma af_write_data:
  "af_data (snd (af_write e s f)) = af_data f @ take (fst (af_write e s f)) s"
  "writtenBytes (snd (af_write e s f)) = writtenBytes f"
  by (simp_all add: af_write_def Let_def)

lemma af_write_pos: "env_ok e \<Longrightarrow> s \<noteq> [] \<Longrightarrow> 0 < fst (af_write e s f)"
  by (simp add: af_write_def Let_def env_ok_def)

lemma af_append_loop_data:
  "env_ok e \<Longrightarrow> af_data (af_append_loop e s f) = af_data f @ s \<and> writtenBytes (af_append_loop e s f) = writtenBytes f"
proof (induction e s f rule: af_append_loop.induct)
  case (1 e s f)
  show ?case
  proof (cases "s = []")
    case False
    then have "0 < fst (af_write e s f)" using 1(2) by (rule_tac af_write_pos)
    then show ?thesis using 1 False by (simp add: af_append_loop.simps[of e s f] Let_def af_write_data)
  qed (simp add: af_append_loop.simps)
qed

lemma af_append_data:
  "env_ok e \<Longrightarrow> af_data (af_append e s f) = af_data f @ s \<and> writtenBytes (af_append e s f) = writtenBytes f + length s"
  by (simp add: af_append_def Let_def af_append_loop_data af_write_data)

lemma rollFile_ok:
  assumes "env_ok e"
  shows "\<exists>b l'. rollFile e l = Some (b, l') \<and> lf_text l' = lf_text l \<and> (lf_file l \<noteq> None \<longrightarrow> lf_file l' \<noteq> None) \<and>
    rollSize l' = rollSize l \<and> lf_times l' = lf_times l + 1 \<and> lastRoll l' \<ge> env_time e (lf_times l) \<and>
    (if lastRoll l < env_time e (lf_times l) then \<exists>f. lf_file l' = Some f \<and> writtenBytes f = 0
     else lf_file l' = lf_file l \<and> lastRoll l' = lastRoll l)"
  using assms by (auto simp: rollFile_def Let_def new_AppendFile_def env_ok_def lf_text_def split: option.split)

lemma append_unlocked_ok:
  assumes "lf_ok e l"
  shows "\<exists>l'. append_unlocked e x l = Some l' \<and> lf_ok e l' \<and> lf_text l' = lf_text l @ x"
proof -
  obtain f where f: "lf_file l = Some f" and e: "env_ok e" using assms by (auto simp: lf_ok_def)
  have "lf_text (l\<lparr>lf_file := Some (af_append e x f), lf_count := c, lf_times := t\<rparr>) = lf_text l @ x" for c t
    using af_append_data[OF e] f by (simp add: lf_text_def)
  moreover have "lf_text (l\<lparr>lf_file := Some (af_append e x f), lf_count := c\<rparr>) = lf_text l @ x" for c
    using af_append_data[OF e] f by (simp add: lf_text_def)
  moreover have "lf_text (l\<lparr>lf_file := Some (af_append e x f)\<rparr>) = lf_text l @ x" using af_append_data[OF e] f by (simp add: lf_text_def)
  moreover have "af_data (af_flush g) = af_data g" for g by (simp add: af_flush_def)
  ultimately show ?thesis
    using rollFile_ok[OF e, of "l\<lparr>lf_file := Some (af_append e x f)\<rparr>"]
      rollFile_ok[OF e, of "l\<lparr>lf_file := Some (af_append e x f), lf_count := 0, lf_times := lf_times l + 1\<rparr>"] f e
    by (auto simp: append_unlocked_def Let_def lf_ok_def lf_text_def)
qed

lemma lf_flush_ok: "lf_ok e l \<Longrightarrow> \<exists>l'. lf_flush l = Some l' \<and> lf_ok e l' \<and> lf_text l' = lf_text l"
  by (auto simp: lf_ok_def lf_flush_def lf_text_def af_flush_def)

interpretation lf: log_sink "lf_append e" lf_flush lf_text "lf_ok e" for e
  by unfold_locales (simp_all add: lf_append_def append_unlocked_ok lf_flush_ok)

lemma new_LogFile_ok:
  assumes "env_ok e" "0 < env_time e 0" "CHR ''/'' \<notin> set base"
  shows "\<exists>l. new_LogFile e base roll flush check = Some l \<and> lf_ok e l \<and> lf_text l = [] \<and> rollSize l = roll"
  using assms by (auto simp: new_LogFile_def rollFile_def Let_def new_AppendFile_def env_ok_def lf_ok_def lf_text_def)

lemma new_LogFile_empty:
  assumes "env_ok e" "0 < env_time e 0" "new_LogFile e base roll flush check = Some l"
  shows "lf_ok e l \<and> lf_text l = []"
proof -
  have "CHR ''/'' \<notin> set base" using assms(3) by (cases "CHR ''/'' \<in> set base") (auto simp: new_LogFile_def)
  then show ?thesis using new_LogFile_ok[OF assms(1,2), of base roll flush check] assms(3) by auto
qed

section \<open>Rolling\<close>

text \<open>The file in use is within its size, or the clock has not moved since the last roll.\<close>

definition lf_sized :: "log_env \<Rightarrow> log_file \<Rightarrow> bool" where
  "lf_sized e l \<longleftrightarrow> (case lf_file l of None \<Rightarrow> False
     | Some f \<Rightarrow> int (writtenBytes f) \<le> rollSize l \<or> env_time e (lf_times l - 1) \<le> lastRoll l)"

lemma rollFile_sized:
  assumes "env_ok e" "0 \<le> rollSize l" "lf_file l \<noteq> None"
  shows "\<exists>b l'. rollFile e l = Some (b, l') \<and> lf_sized e l' \<and> rollSize l' = rollSize l"
  using rollFile_ok[OF assms(1), of l] assms(2,3) by (fastforce simp: lf_sized_def split: if_splits)

lemma append_unlocked_sized:
  assumes "lf_ok e l" "0 \<le> rollSize l"
  shows "\<exists>l'. append_unlocked e x l = Some l' \<and> lf_sized e l' \<and> rollSize l' = rollSize l"
proof -
  obtain f where f: "lf_file l = Some f" and e: "env_ok e" using assms by (auto simp: lf_ok_def)
  have "writtenBytes (af_flush g) = writtenBytes g" for g by (simp add: af_flush_def)
  then show ?thesis
    using rollFile_sized[OF e, of "l\<lparr>lf_file := Some (af_append e x f)\<rparr>"]
      rollFile_sized[OF e, of "l\<lparr>lf_file := Some (af_append e x f), lf_count := 0, lf_times := lf_times l + 1\<rparr>"] f e assms(2)
    by (auto simp: append_unlocked_def Let_def lf_sized_def)
qed

lemma appends_sized:
  "lf_ok e l \<Longrightarrow> 0 \<le> rollSize l \<Longrightarrow> lf_sized e l \<Longrightarrow>
   \<exists>l'. append_each (lf_append e) xs l = Some l' \<and> lf_sized e l' \<and> rollSize l' = rollSize l"
proof (induction xs arbitrary: l)
  case (Cons x xs)
  obtain l1 where l1: "append_unlocked e x l = Some l1" "lf_sized e l1" "rollSize l1 = rollSize l"
    using append_unlocked_sized[OF Cons.prems(1,2)] by blast
  moreover have "lf_ok e l1" using append_unlocked_ok[OF Cons.prems(1), of x] l1(1) by auto
  ultimately show ?case using Cons.IH[of l1] Cons.prems(2) by (auto simp: lf_append_def)
qed simp

section \<open>Properties\<close>


text \<open>An environment whose \<open>fwrite\<close> takes at most three bytes at a time, in the year 2001.\<close>

definition sample_env :: log_env where
  "sample_env = \<lparr>env_time = (\<lambda>n. 1000000000 + int n), env_fopen = (\<lambda>s. True), env_fwrite = (\<lambda>i n. min n 3),
     env_gmtime = (\<lambda>s. let d = getYearMonthDay (s div 86400 + kJulianDayOf1970_01_01)
       in \<lparr>tm_sec = s mod 60, tm_min = s div 60 mod 60, tm_hour = s div 3600 mod 24, tm_mday = day d, tm_mon = month d - 1,
           tm_year = year d - 1900, tm_wday = 0, tm_yday = 0, tm_isdst = 0, tm_gmtoff = 0, tm_zone = ''GMT''\<rparr>),
     env_hostname = ''host'', env_pid = 7\<rparr>"

lemma sample_env_ok: "env_ok sample_env" "0 < env_time sample_env 0"
  by (simp_all add: sample_env_def env_ok_def)


end
