(* ===== verification/Async_Logging.thy ===== *)
theory Async_Logging
  imports Log_Stream Log_File
begin

text \<open>
  Asynchronous logging (\<open>muduo/base/AsyncLogging.h\<close>, \<open>AsyncLogging.cc\<close>): threads append lines to a
  buffer under a mutex, and one thread writes full buffers to a log file.  The model is over a log file
  given by its operations.  A pointer to a buffer is an \<open>option\<close>: \<open>None\<close> after it was moved from.  The two
  last fields record the lines that were appended and whether buffers were thrown away.
\<close>

section \<open>State\<close>

text \<open>
  Where the writing thread is: not started, at the test of its loop, waiting for the condition, about
  to write with the buffers it has taken, or finished; with its spare buffers.
\<close>

datatype writer_state =
  Off
| Top "fixed_buffer option" "fixed_buffer option"
| Waiting "fixed_buffer option" "fixed_buffer option"
| Writing "fixed_buffer option" "fixed_buffer option" "fixed_buffer list"
| Finished

record 'o async =
  running :: bool
  currentBuffer :: "fixed_buffer option"
  nextBuffer :: "fixed_buffer option"
  buffers :: "fixed_buffer list"
  log_output :: 'o
  writer :: writer_state
  lines :: "string list"
  dropped :: bool

definition new_AsyncLogging :: "'o \<Rightarrow> 'o async" where
  "new_AsyncLogging out = \<lparr>running = False, currentBuffer = Some (bzero (new_FixedBuffer kLargeBuffer)),
     nextBuffer = Some (bzero (new_FixedBuffer kLargeBuffer)), buffers = [], log_output = out, writer = Off, lines = [], dropped = False\<rparr>"

section \<open>The front end\<close>

definition async_append :: "string \<Rightarrow> 'o async \<Rightarrow> 'o async option" where
  "async_append logline s = do {
     c \<leftarrow> currentBuffer s;
     let s' = s\<lparr>lines := lines s @ [logline]\<rparr>;
     if avail c > length logline then do {
       c' \<leftarrow> fb_append c logline;
       Some (s'\<lparr>currentBuffer := Some c'\<rparr>)
     } else do {
       let c1 = (case nextBuffer s of Some n \<Rightarrow> n | None \<Rightarrow> new_FixedBuffer kLargeBuffer);
       c' \<leftarrow> fb_append c1 logline;
       Some (s'\<lparr>buffers := buffers s @ [c], nextBuffer := None, currentBuffer := Some c'\<rparr>)
     }
   }"

text \<open>\<open>start\<close> and the beginning of \<open>threadFunc\<close>; the log file exists already.\<close>

definition async_start :: "'o async \<Rightarrow> 'o async" where
  "async_start s = s\<lparr>running := True,
     writer := Top (Some (bzero (new_FixedBuffer kLargeBuffer))) (Some (bzero (new_FixedBuffer kLargeBuffer)))\<rparr>"

definition async_stop :: "'o async \<Rightarrow> 'o async" where
  "async_stop s = s\<lparr>running := False\<rparr>"

section \<open>The writing thread\<close>

text \<open>The part of the loop under the mutex, up to the wait and after it.\<close>

definition thread_swap :: "fixed_buffer option \<Rightarrow> fixed_buffer option \<Rightarrow> 'o async \<Rightarrow> 'o async option" where
  "thread_swap newBuffer1 newBuffer2 s = do {
     c \<leftarrow> currentBuffer s;
     let toWrite = buffers s @ [c];
     let s1 = s\<lparr>currentBuffer := newBuffer1, buffers := []\<rparr>;
     (case nextBuffer s of
        None \<Rightarrow> Some (s1\<lparr>nextBuffer := newBuffer2, writer := Writing None None toWrite\<rparr>)
      | Some n \<Rightarrow> Some (s1\<lparr>writer := Writing None newBuffer2 toWrite\<rparr>))
   }"

definition is_empty :: "fixed_buffer option \<Rightarrow> bool" where
  "is_empty b \<longleftrightarrow> (case b of None \<Rightarrow> False | Some b' \<Rightarrow> cur b' = 0)"

definition thread_top :: "('o \<Rightarrow> 'o option) \<Rightarrow> fixed_buffer option \<Rightarrow> fixed_buffer option \<Rightarrow> 'o async \<Rightarrow> 'o async option" where
  "thread_top out_flush newBuffer1 newBuffer2 s =
     (if running s then do {
        assert_that (is_empty newBuffer1);
        assert_that (is_empty newBuffer2);
        if buffers s = [] then Some (s\<lparr>writer := Waiting newBuffer1 newBuffer2\<rparr>)
        else thread_swap newBuffer1 newBuffer2 s
      } else do { out \<leftarrow> out_flush (log_output s); Some (s\<lparr>log_output := out, writer := Finished\<rparr>) })"

definition dropped_message :: "string \<Rightarrow> nat \<Rightarrow> string" where
  "dropped_message now n = take 255 (''Dropped log messages at '' @ now @ '', '' @ show_nat n @ '' larger buffers'' @ [CHR 0x0A])"

text \<open>A spare buffer is refilled from the end of the buffers that were written.\<close>

definition refill :: "fixed_buffer option \<Rightarrow> fixed_buffer list \<Rightarrow> (fixed_buffer option \<times> fixed_buffer list) option" where
  "refill newBuffer written =
     (case newBuffer of
        Some b \<Rightarrow> Some (Some b, written)
      | None \<Rightarrow> if written = [] then None else Some (Some (reset (last written)), butlast written))"

text \<open>The part of the loop without the mutex; \<open>now\<close> is the text of the time.\<close>

definition thread_write ::
    "(string \<Rightarrow> 'o \<Rightarrow> 'o option) \<Rightarrow> ('o \<Rightarrow> 'o option) \<Rightarrow> string \<Rightarrow>
     fixed_buffer option \<Rightarrow> fixed_buffer option \<Rightarrow> fixed_buffer list \<Rightarrow> 'o async \<Rightarrow> 'o async option" where
  "thread_write out_append out_flush now newBuffer1 newBuffer2 toWrite s = do {
     assert_that (toWrite \<noteq> []);
     let drop_some = length toWrite > 25;
     out1 \<leftarrow> (if drop_some then out_append (dropped_message now (length toWrite - 2)) (log_output s) else Some (log_output s));
     let kept = (if drop_some then take 2 toWrite else toWrite);
     out2 \<leftarrow> append_each out_append (map toString kept) out1;
     let written = (if length kept > 2 then take 2 kept else kept);
     (newBuffer1', written1) \<leftarrow> refill newBuffer1 written;
     (newBuffer2', written2) \<leftarrow> refill newBuffer2 written1;
     out3 \<leftarrow> out_flush out2;
     Some (s\<lparr>log_output := out3, writer := Top newBuffer1' newBuffer2', dropped := dropped s \<or> drop_some\<rparr>)
   }"

text \<open>
  All steps.  The condition is waited for with a timeout, so the writing thread may leave the wait at any
  time.
\<close>

inductive async_step ::
    "(string \<Rightarrow> 'o \<Rightarrow> 'o option) \<Rightarrow> ('o \<Rightarrow> 'o option) \<Rightarrow> 'o async \<Rightarrow> 'o async option \<Rightarrow> bool" for app flush where
  step_append: "async_step app flush s (async_append x s)"
| step_start: "writer s = Off \<Longrightarrow> async_step app flush s (Some (async_start s))"
| step_stop: "writer s \<noteq> Off \<Longrightarrow> async_step app flush s (Some (async_stop s))"
| step_top: "writer s = Top b1 b2 \<Longrightarrow> async_step app flush s (thread_top flush b1 b2 s)"
| step_wake: "writer s = Waiting b1 b2 \<Longrightarrow> async_step app flush s (thread_swap b1 b2 s)"
| step_write: "writer s = Writing b1 b2 ws \<Longrightarrow> async_step app flush s (thread_write app flush now b1 b2 ws s)"

inductive async_reach ::
    "(string \<Rightarrow> 'o \<Rightarrow> 'o option) \<Rightarrow> ('o \<Rightarrow> 'o option) \<Rightarrow> 'o \<Rightarrow> 'o async \<Rightarrow> bool" for app flush out where
  reach_init: "async_reach app flush out (new_AsyncLogging out)"
| reach_step: "async_reach app flush out s \<Longrightarrow> async_step app flush s (Some s') \<Longrightarrow> async_reach app flush out s'"

section \<open>The invariant\<close>

definition good :: "fixed_buffer \<Rightarrow> bool" where
  "good b \<longleftrightarrow> fb_wf b \<and> length (data b) = kLargeBuffer"

definition fresh :: "fixed_buffer option \<Rightarrow> bool" where
  "fresh b \<longleftrightarrow> (\<exists>b'. b = Some b' \<and> good b' \<and> cur b' = 0)"

fun writer_ok :: "writer_state \<Rightarrow> bool" where
  "writer_ok (Top b1 b2) \<longleftrightarrow> fresh b1 \<and> fresh b2"
| "writer_ok (Waiting b1 b2) \<longleftrightarrow> fresh b1 \<and> fresh b2"
| "writer_ok (Writing b1 b2 ws) \<longleftrightarrow> b1 = None \<and> ws \<noteq> [] \<and> list_all good ws \<and> (if b2 = None then 2 \<le> length ws else fresh b2)"
| "writer_ok _ \<longleftrightarrow> True"

fun in_hand :: "writer_state \<Rightarrow> fixed_buffer list" where
  "in_hand (Writing b1 b2 ws) = ws"
| "in_hand _ = []"

text \<open>The lines that fit into a buffer at all, and the text of everything not yet written.\<close>

definition accepted :: "'o async \<Rightarrow> string" where
  "accepted s = concat (filter (\<lambda>x. length x < kLargeBuffer) (lines s))"

definition unwritten :: "'o async \<Rightarrow> string" where
  "unwritten s = concat (map toString (in_hand (writer s) @ buffers s)) @ (case currentBuffer s of None \<Rightarrow> [] | Some c \<Rightarrow> toString c)"

definition async_inv :: "('o \<Rightarrow> string) \<Rightarrow> ('o \<Rightarrow> bool) \<Rightarrow> 'o async \<Rightarrow> bool" where
  "async_inv text ok s \<longleftrightarrow> ok (log_output s) \<and> (\<exists>c. currentBuffer s = Some c \<and> good c) \<and>
     (if nextBuffer s = None then buffers s \<noteq> [] else fresh (nextBuffer s)) \<and> list_all good (buffers s) \<and>
     writer_ok (writer s) \<and> (\<not> dropped s \<longrightarrow> accepted s = text (log_output s) @ unwritten s)"

lemma fresh_new: "fresh (Some (new_FixedBuffer kLargeBuffer))" "fresh (Some (bzero (new_FixedBuffer kLargeBuffer)))"
  by (simp_all add: fresh_def good_def fb_wf_def new_FixedBuffer_def bzero_def)

lemma fresh_reset: "good b \<Longrightarrow> fresh (Some (reset b))"
  by (simp add: fresh_def good_def fb_wf_def reset_def)

lemma fresh_facts: "fresh (Some b) \<Longrightarrow> good b \<and> toString b = [] \<and> avail b = kLargeBuffer" "fresh ob \<Longrightarrow> is_empty ob" "\<not> fresh None"
  by (auto simp: fresh_def good_def toString_def avail_def is_empty_def)

lemma fb_append_good:
  assumes "good b"
  shows "\<exists>b'. fb_append b x = Some b' \<and> good b' \<and> toString b' = toString b @ (if length x < avail b then x else [])"
  using fb_append_ok[of b x] assms by (auto simp: good_def Suc_le_eq)

lemma async_append_inv:
  assumes "async_inv text ok s"
  shows "\<exists>s'. async_append x s = Some s' \<and> async_inv text ok s'"
proof -
  obtain c where c: "currentBuffer s = Some c" "good c" using assms by (auto simp: async_inv_def)
  show ?thesis
  proof (cases "avail c > length x")
    case True
    obtain c' where c': "fb_append c x = Some c'" "good c'" "toString c' = toString c @ x" using fb_append_good[OF c(2), of x] True by auto
    have "length x < kLargeBuffer" using True c(2) by (simp add: avail_def good_def)
    then show ?thesis using True c c' assms by (simp add: async_append_def async_inv_def accepted_def unwritten_def)
  next
    case False
    define n where "n = (case nextBuffer s of Some n \<Rightarrow> n | None \<Rightarrow> new_FixedBuffer kLargeBuffer)"
    have "fresh (Some n)" using assms fresh_new(1) by (cases "nextBuffer s") (auto simp: async_inv_def n_def)
    then have n: "good n" "toString n = []" "avail n = kLargeBuffer" using fresh_facts(1) by blast+
    obtain c' where c': "fb_append n x = Some c'" "good c'" "toString c' = (if length x < kLargeBuffer then x else [])"
      using fb_append_good[OF n(1), of x] n by auto
    then show ?thesis using False c assms
      by (auto simp: async_append_def async_inv_def accepted_def unwritten_def n_def[symmetric])
  qed
qed

lemma thread_swap_inv:
  assumes "async_inv text ok s" "writer s = Top b1 b2 \<or> writer s = Waiting b1 b2"
  shows "\<exists>s'. thread_swap b1 b2 s = Some s' \<and> async_inv text ok s'"
proof -
  obtain c where c: "currentBuffer s = Some c" "good c" using assms by (auto simp: async_inv_def)
  have b: "fresh b1" "fresh b2" "in_hand (writer s) = []" using assms by (auto simp: async_inv_def)
  obtain b1' where b1': "b1 = Some b1'" using b(1) by (auto simp: fresh_def)
  then have b1: "b1 = Some b1'" "good b1'" "toString b1' = []" using b(1) fresh_facts(1)[of b1'] by simp_all
  obtain b2' where b2: "b2 = Some b2'" using b(2) by (auto simp: fresh_def)
  show ?thesis
  proof (cases "nextBuffer s")
    case None
    then show ?thesis using assms(1) b b1 b2 c
      by (cases "buffers s") (auto simp: thread_swap_def async_inv_def accepted_def unwritten_def)
  next
    case (Some n)
    then show ?thesis using assms(1) b b1 b2 c
      by (auto simp: thread_swap_def async_inv_def accepted_def unwritten_def)
  qed
qed

lemma refill_ok:
  assumes "list_all good ws" "b = None \<longrightarrow> ws \<noteq> []" "b \<noteq> None \<longrightarrow> fresh b"
  shows "\<exists>b' ws'. refill b ws = Some (b', ws') \<and> fresh b' \<and> list_all good ws' \<and> length ws \<le> length ws' + (if b = None then 1 else 0)"
proof (cases b)
  case None
  then have "last ws \<in> set ws" using assms(2) by simp
  then have "fresh (Some (reset (last ws)))" using assms(1) by (simp add: fresh_reset list_all_iff)
  moreover have "list_all good (butlast ws)" using assms(1) by (auto simp: list_all_iff dest: in_set_butlastD)
  ultimately show ?thesis using None assms(2) by (simp add: refill_def)
qed (use assms in \<open>simp add: refill_def\<close>)

context log_sink
begin

lemma thread_write_inv:
  assumes inv: "async_inv sink_text sink_ok s" and w: "writer s = Writing b1 b2 ws"
  shows "\<exists>s'. thread_write sink_append sink_flush now b1 b2 ws s = Some s' \<and> async_inv sink_text sink_ok s'"
proof -
  have ws: "b1 = None" "ws \<noteq> []" "list_all good ws" "b2 = None \<longrightarrow> 2 \<le> length ws" "b2 \<noteq> None \<longrightarrow> fresh b2"
    using inv w by (auto simp: async_inv_def)
  define kept where "kept = (if length ws > 25 then take 2 ws else ws)"
  obtain o1 where o1: "(if length ws > 25 then sink_append (dropped_message now (length ws - 2)) (log_output s) else Some (log_output s)) = Some o1"
    "sink_ok o1" "\<not> length ws > 25 \<longrightarrow> o1 = log_output s"
  proof -
    have "sink_ok (log_output s)" using inv by (simp add: async_inv_def)
    then show thesis using sink_append_ok[of "log_output s" "dropped_message now (length ws - 2)"] that by (cases "length ws > 25") auto
  qed
  obtain o2 where o2: "append_each sink_append (map toString kept) o1 = Some o2" "sink_ok o2" "sink_text o2 = sink_text o1 @ concat (map toString kept)"
    using append_each_ok[OF o1(2)] by blast
  obtain o3 where o3: "sink_flush o2 = Some o3" "sink_ok o3" "sink_text o3 = sink_text o2" using sink_flush_ok[OF o2(2)] by blast
  define written where "written = (if length kept > 2 then take 2 kept else kept)"
  have wr: "list_all good written" "written \<noteq> []" "b2 = None \<longrightarrow> 2 \<le> length written"
    using ws by (auto simp: written_def kept_def list_all_iff dest: in_set_takeD)
  obtain n1 w1 where n1: "refill b1 written = Some (n1, w1)" "fresh n1" "list_all good w1" "length written \<le> length w1 + 1"
    using refill_ok[OF wr(1), of b1] wr(2) ws(1) by auto
  have "b2 = None \<longrightarrow> w1 \<noteq> []" using wr(3) n1(4) by auto
  then obtain n2 w2 where n2: "refill b2 w1 = Some (n2, w2)" "fresh n2" "list_all good w2"
    using refill_ok[OF n1(3) _ ws(5)] by blast
  have "accepted s = sink_text (log_output s) @ unwritten s" if "\<not> dropped s" using inv that by (simp add: async_inv_def)
  moreover have "thread_write sink_append sink_flush now b1 b2 ws s =
      Some (s\<lparr>log_output := o3, writer := Top n1 n2, dropped := dropped s \<or> length ws > 25\<rparr>)"
    using ws(2) o1(1) o2(1) o3(1) n1(1) n2(1)
    by (cases "2 < length kept") (simp_all add: thread_write_def Let_def kept_def[symmetric] written_def)
  ultimately show ?thesis using inv w o1(3) o2(3) o3 n1(2) n2(2)
    by (auto simp: async_inv_def accepted_def unwritten_def kept_def)
qed

lemma async_step_inv:
  assumes "async_step sink_append sink_flush s r" "async_inv sink_text sink_ok s"
  shows "\<exists>s'. r = Some s' \<and> async_inv sink_text sink_ok s'"
  using assms(1)
proof (cases rule: async_step.cases)
  case (step_append x)
  then show ?thesis using async_append_inv[OF assms(2), of x] by auto
next
  case step_start
  then show ?thesis using assms(2) fresh_new by (simp add: async_start_def async_inv_def accepted_def unwritten_def)
next
  case step_stop
  then show ?thesis using assms(2) by (simp add: async_stop_def async_inv_def accepted_def unwritten_def)
next
  case (step_top b1 b2)
  have b: "fresh b1" "fresh b2" using assms(2) step_top(2) by (auto simp: async_inv_def)
  obtain f where "sink_flush (log_output s) = Some f" "sink_ok f" "sink_text f = sink_text (log_output s)"
    using sink_flush_ok assms(2) by (auto simp: async_inv_def)
  then show ?thesis using step_top assms(2) b thread_swap_inv[OF assms(2), of b1 b2]
    by (auto simp: thread_top_def fresh_facts(2) async_inv_def accepted_def unwritten_def)
next
  case (step_wake b1 b2)
  then show ?thesis using thread_swap_inv[OF assms(2), of b1 b2] by auto
next
  case (step_write b1 b2 ws now)
  then show ?thesis using thread_write_inv[OF assms(2)] by auto
qed

lemma async_reach_inv:
  "async_reach sink_append sink_flush out s \<Longrightarrow> sink_ok out \<Longrightarrow> sink_text out = [] \<Longrightarrow> async_inv sink_text sink_ok s"
proof (induction rule: async_reach.induct)
  case reach_init
  then show ?case using fresh_new fresh_facts(1)[OF fresh_new(2)]
    by (auto simp: async_inv_def new_AsyncLogging_def accepted_def unwritten_def)
next
  case (reach_step s s')
  then show ?case using async_step_inv by blast
qed

end

section \<open>Properties\<close>

text \<open>
  C19. Logging through a log file, with any number of threads appending: no assertion of the writing
  thread fails and no buffer is used after it was handed on, whatever the order of events.  Unless more
  than 25 buffers were waiting at once, in which case it says so in the log, the lines appended are, in
  order and complete, the text of the files followed by the buffers not yet written.
\<close>

theorem async_logging_correct:
  assumes "env_ok e" and "0 < env_time e 0" and "new_LogFile e base roll fl check = Some out"
    and "async_reach (lf_append e) lf_flush out s"
  shows "(\<forall>r. async_step (lf_append e) lf_flush s r \<longrightarrow> r \<noteq> None) \<and>
    (\<not> dropped s \<longrightarrow> accepted s = lf_text (log_output s) @ unwritten s)"
proof -
  have out: "lf_ok e out" "lf_text out = []" using new_LogFile_empty[OF assms(1-3)] by simp_all
  then have "async_inv lf_text (lf_ok e) s" using lf.async_reach_inv[OF assms(4)] by blast
  then show ?thesis using lf.async_step_inv by (fastforce simp: async_inv_def)
qed

lemma thread_write_frame:
  "thread_write app flush now b1 b2 ws s = Some s' \<Longrightarrow>
   currentBuffer s' = currentBuffer s \<and> buffers s' = buffers s \<and> lines s' = lines s \<and> running s' = running s \<and>
   (\<exists>n1 n2. writer s' = Top n1 n2) \<and> dropped s' = (dropped s \<or> 25 < length ws)"
  by (auto simp: thread_write_def Let_def bind_eq_Some_conv)

lemma stop_run:
  assumes "lf_ok e out" "lf_text out = []" "length x < kLargeBuffer"
  shows "\<exists>s. async_reach (lf_append e) lf_flush out s \<and> writer s = Finished \<and> \<not> dropped s \<and> lines s = [x] \<and> unwritten s = x"
proof -
  let ?step = "async_step (lf_append e) lf_flush" and ?reach = "async_reach (lf_append e) lf_flush out"
  let ?b = "bzero (new_FixedBuffer kLargeBuffer)"
  note b = fresh_facts(1)[OF fresh_new(2)] fresh_facts(2)[OF fresh_new(2)]
  define s1 where "s1 = async_start (new_AsyncLogging out)"
  define s2 where "s2 = s1\<lparr>writer := Waiting (Some ?b) (Some ?b)\<rparr>"
  define s3 where "s3 = s2\<lparr>currentBuffer := Some ?b, buffers := [], writer := Writing None (Some ?b) [?b]\<rparr>"
  note defs = s1_def s2_def s3_def async_start_def new_AsyncLogging_def
  have "?step (new_AsyncLogging out) (Some s1)" unfolding s1_def by (rule step_start) (simp add: new_AsyncLogging_def)
  moreover have "?step s1 (Some s2)" using step_top[of s1 "Some ?b" "Some ?b" "lf_append e" lf_flush] b(2) by (simp add: thread_top_def defs)
  moreover have "?step s2 (Some s3)" using step_wake[of s2 "Some ?b" "Some ?b" "lf_append e" lf_flush] by (simp add: thread_swap_def defs)
  ultimately have r3: "?reach s3" by (meson reach_init reach_step)
  obtain c where c: "fb_append ?b x = Some c" "toString c = x" using fb_append_good[of ?b x] b(1) assms(3) by auto
  define s4 where "s4 = s3\<lparr>lines := [x], currentBuffer := Some c\<rparr>"
  define s5 where "s5 = async_stop s4"
  have "async_append x s3 = Some s4" using c(1) b(1) assms(3) by (simp add: async_append_def s4_def defs)
  then have "?step s3 (Some s4)" by (metis step_append)
  moreover have "?step s4 (Some s5)" unfolding s5_def by (rule step_stop) (simp add: s4_def defs)
  ultimately have r5: "?reach s5" using r3 by (meson reach_step)
  have w5: "writer s5 = Writing None (Some ?b) [?b]" by (simp add: s5_def async_stop_def s4_def defs)
  obtain s6 where s6: "thread_write (lf_append e) lf_flush [] None (Some ?b) [?b] s5 = Some s6"
    using lf.thread_write_inv[OF lf.async_reach_inv[OF r5 assms(1,2)] w5] by blast
  then have r6: "?reach s6" using reach_step[OF r5] step_write[OF w5] by metis
  have f6: "currentBuffer s6 = Some c" "buffers s6 = []" "lines s6 = [x]" "\<not> running s6" "\<not> dropped s6"
    using thread_write_frame[OF s6] by (simp_all add: s5_def async_stop_def s4_def defs)
  obtain n1 n2 where w6: "writer s6 = Top n1 n2" using thread_write_frame[OF s6] by blast
  obtain s7 where s7: "thread_top lf_flush n1 n2 s6 = Some s7"
    using lf.async_step_inv[OF step_top[OF w6] lf.async_reach_inv[OF r6 assms(1,2)]] by blast
  then have "?reach s7" using reach_step[OF r6] step_top[OF w6] by metis
  moreover have "writer s7 = Finished \<and> \<not> dropped s7 \<and> lines s7 = [x] \<and> unwritten s7 = x"
    using s7 f6 c(2) by (auto simp: thread_top_def bind_eq_Some_conv unwritten_def)
  ultimately show ?thesis by blast
qed

theorem async_logging_correct_witness:
  "\<exists>out s. new_LogFile sample_env ''srv'' 5 3 1024 = Some out \<and> async_reach (lf_append sample_env) lf_flush out s \<and>
     accepted s = lf_text (log_output s) @ unwritten s"
proof -
  obtain out where out: "new_LogFile sample_env ''srv'' 5 3 1024 = Some out" "lf_ok sample_env out" "lf_text out = []"
    using new_LogFile_ok[OF sample_env_ok, of "''srv''" 5 3 1024] by auto
  have "length ''hello'' < kLargeBuffer" by (simp add: kLargeBuffer_def)
  then obtain s where "async_reach (lf_append sample_env) lf_flush out s" "\<not> dropped s" using stop_run[OF out(2,3)] by blast
  then show ?thesis using async_logging_correct[OF sample_env_ok out(1)] out(1) by blast
qed



end
