(* ===== verification/Protobuf_Codec.thy ===== *)
theory Protobuf_Codec
  imports Net_Buffer
begin

text \<open>
  The codec for protocol buffers (\<open>muduo/net/protobuf/ProtobufCodecLite.h\<close>, \<open>ProtobufCodecLite.cc\<close>): messages
  with a length, a tag and a checksum on the wire.  Serialising and parsing one message (protobuf) and the
  checksum (\<open>adler32\<close> of zlib) are given with the codec.  The callbacks become events, in order; \<open>None\<close>
  in the result of the message handler is a failed assertion.
\<close>

section \<open>The codec\<close>

record 'm codec =
  tag :: "byte list"
  serialize :: "'m \<Rightarrow> byte list"
  parseFromArray :: "byte list \<Rightarrow> 'm option"
  adler32 :: "byte list \<Rightarrow> 32 word"
  rawCb :: "(byte list \<Rightarrow> bool) option"
  host :: host_order

definition kHeaderLen :: nat where "kHeaderLen = 4"
definition kChecksumLen :: nat where "kChecksumLen = 4"
definition kMaxMessageLen :: int where "kMaxMessageLen = 64 * 1024 * 1024"

definition kMinMessageLen :: "'m codec \<Rightarrow> nat" where
  "kMinMessageLen c = length (tag c) + kChecksumLen"

datatype ErrorCode = kNoError | kInvalidLength | kCheckSumError | kInvalidNameLen | kUnknownMessageType | kParseError

fun errorCodeToString :: "ErrorCode \<Rightarrow> string" where
  "errorCodeToString kNoError = ''NoError''"
| "errorCodeToString kInvalidLength = ''InvalidLength''"
| "errorCodeToString kCheckSumError = ''CheckSumError''"
| "errorCodeToString kInvalidNameLen = ''InvalidNameLen''"
| "errorCodeToString kUnknownMessageType = ''UnknownMessageType''"
| "errorCodeToString kParseError = ''ParseError''"

definition asInt32 :: "host_order \<Rightarrow> byte list \<Rightarrow> 32 word" where
  "asInt32 h bs = networkToHost32 h (obj_of_bytes h (take 4 bs))"

definition checksum :: "'m codec \<Rightarrow> byte list \<Rightarrow> 32 word" where
  "checksum c bs = adler32 c bs"

definition validateChecksum :: "'m codec \<Rightarrow> byte list \<Rightarrow> bool" where
  "validateChecksum c bs =
     (let n = length bs - kChecksumLen
      in checksum c (take n bs) = asInt32 (host c) (drop n bs))"

definition parse :: "'m codec \<Rightarrow> byte list \<Rightarrow> ErrorCode \<times> 'm option" where
  "parse c bs =
     (if validateChecksum c bs then
        (if take (length (tag c)) bs = tag c then
           (let dataLen = length bs - kChecksumLen - length (tag c)
            in case parseFromArray c (take dataLen (drop (length (tag c)) bs)) of
                 Some m \<Rightarrow> (kNoError, Some m)
               | None \<Rightarrow> (kParseError, None))
         else (kUnknownMessageType, None))
      else (kCheckSumError, None))"

text \<open>The message is written into the space of the buffer behind the readable bytes.\<close>

definition serializeToBuffer :: "'m codec \<Rightarrow> 'm \<Rightarrow> buffer \<Rightarrow> (nat \<times> buffer) option" where
  "serializeToBuffer c m b = do {
     let bs = serialize c m;
     let byte_size = length bs;
     b1 \<leftarrow> ensureWritableBytes b (byte_size + kChecksumLen);
     v \<leftarrow> vec_write (buf b1) (beginWrite b1) bs;
     b2 \<leftarrow> hasWritten (b1\<lparr>buf := v\<rparr>) byte_size;
     Some (byte_size, b2)
   }"

definition fillEmptyBuffer :: "'m codec \<Rightarrow> 'm \<Rightarrow> buffer \<Rightarrow> buffer option" where
  "fillEmptyBuffer c m b = do {
     assert_that (readableBytes b = 0);
     b1 \<leftarrow> append b (tag c) (length (tag c));
     (byte_size, b2) \<leftarrow> serializeToBuffer c m b1;
     bs \<leftarrow> peek_bytes b2 (readableBytes b2);
     b3 \<leftarrow> appendInt32 (host c) b2 (checksum c bs);
     assert_that (readableBytes b3 = length (tag c) + byte_size + kChecksumLen);
     let len = hostToNetwork32 (host c) (word_of_nat (readableBytes b3));
     prepend b3 (obj_bytes (host c) len) 4
   }"

text \<open>\<open>send\<close>: what the connection is given to send.\<close>

definition codec_send :: "'m codec \<Rightarrow> 'm \<Rightarrow> byte list option" where
  "codec_send c m = do { b0 \<leftarrow> new_Buffer kInitialSize; b \<leftarrow> fillEmptyBuffer c m b0; Some (content b) }"

datatype 'm codec_event = CodecMessage 'm | CodecRaw "byte list" | CodecError ErrorCode

definition raw_events :: "'m codec \<Rightarrow> byte list \<Rightarrow> 'm codec_event list" where
  "raw_events c frame = (case rawCb c of None \<Rightarrow> [] | Some f \<Rightarrow> [CodecRaw frame])"

definition raw_stops :: "'m codec \<Rightarrow> byte list \<Rightarrow> bool" where
  "raw_stops c frame = (case rawCb c of None \<Rightarrow> False | Some f \<Rightarrow> \<not> f frame)"

partial_function (option) onMessage :: "'m codec \<Rightarrow> buffer \<Rightarrow> ('m codec_event list \<times> buffer) option option" where
  "onMessage c b =
     (if readableBytes b \<ge> kMinMessageLen c + kHeaderLen then
        (case peekInt32 (host c) b of
           None \<Rightarrow> Some None
         | Some w \<Rightarrow>
             (let len = sint w
              in if len > kMaxMessageLen \<or> len < int (kMinMessageLen c) then Some (Some ([CodecError kInvalidLength], b))
                 else if readableBytes b \<ge> kHeaderLen + nat len then
                   (let frame = vec_range (buf b) (peek b) (peek b + (kHeaderLen + nat len))
                    in if raw_stops c frame then
                         (case retrieve b (kHeaderLen + nat len) of
                            None \<Rightarrow> Some None
                          | Some b' \<Rightarrow> do { r \<leftarrow> onMessage c b'; Some (map_option (apfst ((@) (raw_events c frame))) r) })
                       else
                         (case parse c (drop kHeaderLen frame) of
                            (errorCode, message) \<Rightarrow>
                              (case message of
                                 Some m \<Rightarrow>
                                   (case retrieve b (kHeaderLen + nat len) of
                                      None \<Rightarrow> Some None
                                    | Some b' \<Rightarrow> do {
                                        r \<leftarrow> onMessage c b';
                                        Some (map_option (apfst ((@) (raw_events c frame @ [CodecMessage m]))) r) })
                               | None \<Rightarrow> Some (Some (raw_events c frame @ [CodecError errorCode], b)))))
                 else Some (Some ([], b))))
      else Some (Some ([], b)))"

section \<open>The wire format\<close>

definition encode :: "'m codec \<Rightarrow> 'm \<Rightarrow> byte list" where
  "encode c m =
     (let body = tag c @ serialize c m
      in bytes_be 4 (length body + 4) @ body @ bytes_be 4 (unat (adler32 c body)))"

text \<open>A message that the codec can carry: it fits, and protobuf parses what it serialised.\<close>

definition carries :: "'m codec \<Rightarrow> 'm \<Rightarrow> bool" where
  "carries c m \<longleftrightarrow> int (kMinMessageLen c + length (serialize c m)) \<le> kMaxMessageLen \<and> parseFromArray c (serialize c m) = Some m"

text \<open>What the message handler does with the bytes of its buffer.\<close>

function decode :: "'m codec \<Rightarrow> byte list \<Rightarrow> 'm codec_event list \<times> byte list" where
  "decode c bs =
     (if length bs < kMinMessageLen c + kHeaderLen then ([], bs)
      else let len = sint (word_of_nat (nat_of_be (take 4 bs)) :: 32 word)
           in if len > kMaxMessageLen \<or> len < int (kMinMessageLen c) then ([CodecError kInvalidLength], bs)
              else if length bs < kHeaderLen + nat len then ([], bs)
              else let frame = take (kHeaderLen + nat len) bs; rest = drop (kHeaderLen + nat len) bs
                   in if raw_stops c frame then apfst ((@) (raw_events c frame)) (decode c rest)
                      else (case parse c (drop kHeaderLen frame) of
                              (errorCode, Some m) \<Rightarrow> apfst ((@) (raw_events c frame @ [CodecMessage m])) (decode c rest)
                            | (errorCode, None) \<Rightarrow> (raw_events c frame @ [CodecError errorCode], bs)))"
  by pat_completeness auto
termination
  by (relation "measure (\<lambda>(c, bs). length bs)") (auto simp: kHeaderLen_def kMinMessageLen_def kChecksumLen_def)

declare decode.simps [simp del]

lemmas codec_lens = kHeaderLen_def kChecksumLen_def kMinMessageLen_def

section \<open>The handler on the bytes\<close>

lemma peekInt32_content:
  assumes "buffer_wf b" "4 \<le> length (content b)"
  shows "peekInt32 h b = Some (word_of_nat (nat_of_be (take 4 (content b))))"
proof -
  have "htobe h (obj_of_bytes h (take 4 (content b)) :: 32 word) = word_of_nat (nat_of_be (take 4 (content b)))"
    by (rule betoh_obj_of_bytes[of 4]) (use assms(2) in simp_all)
  then show ?thesis using peek_bytes_ok[OF assms] by (simp add: peekInt32_def networkToHost32_def Let_def)
qed

definition handles :: "'m codec \<Rightarrow> buffer \<Rightarrow> bool" where
  "handles c b \<longleftrightarrow> (\<exists>b'. onMessage c b = Some (Some (fst (decode c (content b)), b')) \<and> buffer_wf b' \<and>
     content b' = snd (decode c (content b)) \<and> buffer_used b' \<le> buffer_used b)"

lemma handles_more:
  assumes "onMessage c b = do { r \<leftarrow> onMessage c b'; Some (map_option (apfst ((@) es)) r) }"
    and "decode c (content b) = apfst ((@) es) (decode c (content b'))" and "handles c b'" and "buffer_used b' \<le> buffer_used b"
  shows "handles c b"
  using assms by (auto simp: handles_def)

definition frame_len :: "byte list \<Rightarrow> int" where
  "frame_len bs = sint (word_of_nat (nat_of_be (take 4 bs)) :: 32 word)"

text \<open>The handler returns at once when there is no complete frame with a legal length.\<close>

lemma onMessage_stop:
  assumes wf: "buffer_wf b"
    and stop: "length (content b) < kMinMessageLen c + kHeaderLen \<or> frame_len (content b) > kMaxMessageLen \<or>
      frame_len (content b) < int (kMinMessageLen c) \<or> length (content b) < kHeaderLen + nat (frame_len (content b))"
  shows "handles c b"
proof (cases "length (content b) < kMinMessageLen c + kHeaderLen")
  case True
  then show ?thesis using wf readableBytes_content[OF wf]
    by (simp add: handles_def onMessage.simps[of c b] decode.simps[of c "content b"])
next
  case False
  then have "peekInt32 (host c) b = Some (word_of_nat (nat_of_be (take 4 (content b))))"
    using peekInt32_content[OF wf] by (simp add: codec_lens)
  then show ?thesis using wf stop False readableBytes_content[OF wf]
    by (auto simp: handles_def onMessage.simps[of c b] decode.simps[of c "content b"] Let_def frame_len_def)
qed

lemma onMessage_frame:
  assumes wf: "buffer_wf b" and long: "\<not> length (content b) < kMinMessageLen c + kHeaderLen"
    and legal: "\<not> (frame_len (content b) > kMaxMessageLen \<or> frame_len (content b) < int (kMinMessageLen c))"
    and whole: "kHeaderLen + nat (frame_len (content b)) \<le> length (content b)"
  defines "n \<equiv> kHeaderLen + nat (frame_len (content b))"
  defines "frame \<equiv> take n (content b)"
  shows "\<exists>b'. buffer_wf b' \<and> content b' = drop n (content b) \<and> buffer_used b' \<le> buffer_used b \<and>
    onMessage c b = (if raw_stops c frame then do { r \<leftarrow> onMessage c b'; Some (map_option (apfst ((@) (raw_events c frame))) r) }
      else (case parse c (drop kHeaderLen frame) of (errorCode, message) \<Rightarrow>
        (case message of Some m \<Rightarrow> do { r \<leftarrow> onMessage c b'; Some (map_option (apfst ((@) (raw_events c frame @ [CodecMessage m]))) r) }
         | None \<Rightarrow> Some (Some (raw_events c frame @ [CodecError errorCode], b))))) \<and>
    decode c (content b) = (if raw_stops c frame then apfst ((@) (raw_events c frame)) (decode c (content b'))
      else (case parse c (drop kHeaderLen frame) of
          (errorCode, Some m) \<Rightarrow> apfst ((@) (raw_events c frame @ [CodecMessage m])) (decode c (content b'))
        | (errorCode, None) \<Rightarrow> (raw_events c frame @ [CodecError errorCode], content b)))"
proof -
  have pk: "peekInt32 (host c) b = Some (word_of_nat (nat_of_be (take 4 (content b))))"
    using peekInt32_content[OF wf] long by (simp add: codec_lens)
  have n: "n \<le> length (content b)" using whole by (simp add: n_def)
  have fr: "vec_range (buf b) (peek b) (peek b + n) = frame"
    using content_take[of n b] n length_content[OF wf] by (simp add: frame_def)
  obtain b' where b': "retrieve b n = Some b'" "buffer_wf b'" "content b' = drop n (content b)" using retrieve_ok[OF wf n] by blast
  have used: "buffer_used b' \<le> buffer_used b" using retrieve_writerIndex[OF b'(1)] by (simp add: buffer_used_def)
  have cond: "kMinMessageLen c + kHeaderLen \<le> readableBytes b" "n \<le> readableBytes b"
    using long n readableBytes_content[OF wf] by simp_all
  show ?thesis
    using b'(2,3) used cond legal pk b'(1) fr long n
    by (intro exI[of _ b']) (simp add: onMessage.simps[of c b] decode.simps[of c "content b"] Let_def frame_len_def[symmetric]
        n_def[symmetric] frame_def[symmetric])
qed

lemma onMessage_decode: "buffer_wf b \<Longrightarrow> handles c b"
proof (induction "length (content b)" arbitrary: b rule: less_induct)
  case less
  show ?case
  proof (cases "length (content b) < kMinMessageLen c + kHeaderLen \<or> frame_len (content b) > kMaxMessageLen \<or>
      frame_len (content b) < int (kMinMessageLen c) \<or> length (content b) < kHeaderLen + nat (frame_len (content b))")
    case True
    then show ?thesis by (rule onMessage_stop[OF less.prems])
  next
    case False
    let ?n = "kHeaderLen + nat (frame_len (content b))"
    let ?frame = "take ?n (content b)"
    have conds: "\<not> length (content b) < kMinMessageLen c + kHeaderLen"
      "\<not> (frame_len (content b) > kMaxMessageLen \<or> frame_len (content b) < int (kMinMessageLen c))" "?n \<le> length (content b)"
      using False by simp_all
    obtain b' where b': "buffer_wf b'" "content b' = drop ?n (content b)" "buffer_used b' \<le> buffer_used b"
      and on: "onMessage c b = (if raw_stops c ?frame then do { r \<leftarrow> onMessage c b'; Some (map_option (apfst ((@) (raw_events c ?frame))) r) }
        else (case parse c (drop kHeaderLen ?frame) of (errorCode, message) \<Rightarrow>
          (case message of Some m \<Rightarrow> do { r \<leftarrow> onMessage c b'; Some (map_option (apfst ((@) (raw_events c ?frame @ [CodecMessage m]))) r) }
           | None \<Rightarrow> Some (Some (raw_events c ?frame @ [CodecError errorCode], b)))))"
      and de: "decode c (content b) = (if raw_stops c ?frame then apfst ((@) (raw_events c ?frame)) (decode c (content b'))
        else (case parse c (drop kHeaderLen ?frame) of
            (errorCode, Some m) \<Rightarrow> apfst ((@) (raw_events c ?frame @ [CodecMessage m])) (decode c (content b'))
          | (errorCode, None) \<Rightarrow> (raw_events c ?frame @ [CodecError errorCode], content b)))"
      using onMessage_frame[OF less.prems conds] by blast
    have "0 < ?n" by (simp add: kHeaderLen_def)
    then have "length (content b') < length (content b)" unfolding b'(2) length_drop using conds(3) by linarith
    then have IH: "handles c b'" using less.hyps b'(1) by blast
    obtain err message where p: "parse c (drop kHeaderLen ?frame) = (err, message)" by fastforce
    consider "raw_stops c ?frame" | m where "\<not> raw_stops c ?frame" "message = Some m" | "\<not> raw_stops c ?frame" "message = None" by fastforce
    then show ?thesis
    proof cases
      case 1
      show ?thesis by (rule handles_more[OF _ _ IH b'(3), of "raw_events c ?frame"]) (use 1 on de in simp_all)
    next
      case (2 m)
      show ?thesis by (rule handles_more[OF _ _ IH b'(3), of "raw_events c ?frame @ [CodecMessage m]"]) (use 2 p on de in simp_all)
    next
      case 3
      then show ?thesis using on de p less.prems by (simp add: handles_def)
    qed
  qed
qed

section \<open>Encoding\<close>

lemma asInt32_bytes: "asInt32 h (bytes_be 4 (unat x) @ rest) = x"
  using betoh_obj_of_bytes[of 4 "bytes_be 4 (unat x)", where 'a = 32] bytes_be_unat[of 4, where 'a = 32]
  by (simp add: asInt32_def networkToHost32_def)

lemma ensureWritableBytes_readerIndex:
  "ensureWritableBytes b n = Some b' \<Longrightarrow> readerIndex b = kCheapPrepend \<Longrightarrow> readerIndex b' = kCheapPrepend"
  by (auto simp: ensureWritableBytes_def makeSpace_def Let_def bind_eq_Some_conv split: if_splits)

lemma append_readerIndex: "append b d n = Some b' \<Longrightarrow> readerIndex b = kCheapPrepend \<Longrightarrow> readerIndex b' = kCheapPrepend"
  using ensureWritableBytes_readerIndex by (auto simp: append_def hasWritten_def bind_eq_Some_conv)

lemma serializeToBuffer_readerIndex:
  "serializeToBuffer c m b = Some (k, b') \<Longrightarrow> readerIndex b = kCheapPrepend \<Longrightarrow> readerIndex b' = kCheapPrepend"
  using ensureWritableBytes_readerIndex by (auto simp: serializeToBuffer_def hasWritten_def Let_def bind_eq_Some_conv)

lemma serializeToBuffer_ok:
  assumes wf: "buffer_wf b" and fits: "writerIndex b + (length (serialize c m) + kChecksumLen) \<le> vec_max"
  shows "\<exists>b'. serializeToBuffer c m b = Some (length (serialize c m), b') \<and> buffer_wf b' \<and>
    content b' = content b @ serialize c m \<and> writerIndex b' \<le> writerIndex b + length (serialize c m)"
proof -
  obtain b1 where b1: "ensureWritableBytes b (length (serialize c m) + kChecksumLen) = Some b1" "buffer_wf b1" "content b1 = content b"
    "length (serialize c m) + kChecksumLen \<le> writableBytes b1" using ensureWritableBytes_ok[OF wf fits] by blast
  have le: "writerIndex b1 \<le> writerIndex b"
    using b1(1) makeSpace_writerIndex[OF wf] by (auto simp: ensureWritableBytes_def bind_eq_Some_conv split: if_splits)
  have room: "length (serialize c m) \<le> writableBytes b1" using b1(4) by simp
  obtain v where v: "vec_write (buf b1) (writerIndex b1) (serialize c m) = Some v"
    "uadd (writerIndex b1) (length (serialize c m)) = writerIndex b1 + length (serialize c m)" "length v = length (buf b1)"
    "buffer_wf (b1\<lparr>buf := v, writerIndex := writerIndex b1 + length (serialize c m)\<rparr>)"
    "content (b1\<lparr>buf := v, writerIndex := writerIndex b1 + length (serialize c m)\<rparr>) = content b1 @ serialize c m"
    using hasWritten_write[OF b1(2) room] by blast
  have "writableBytes (b1\<lparr>buf := v\<rparr>) = writableBytes b1" using v(3) by (simp add: writableBytes_def)
  then show ?thesis using b1 v le room
    by (auto simp: serializeToBuffer_def Let_def beginWrite_def hasWritten_def)
qed

lemma fillEmptyBuffer_ok:
  assumes wf: "buffer_wf b" "content b = []" "readerIndex b = kCheapPrepend" and fits: "int (kMinMessageLen c + length (serialize c m)) \<le> kMaxMessageLen"
  shows "\<exists>b'. fillEmptyBuffer c m b = Some b' \<and> buffer_wf b' \<and> content b' = encode c m"
proof -
  let ?n = "kMinMessageLen c + length (serialize c m)"
  have w: "writerIndex b = kCheapPrepend" using wf length_content[OF wf(1)] by (simp add: buffer_wf_def)
  have n: "?n = length (tag c) + length (serialize c m) + 4" "kCheapPrepend + ?n + 8 \<le> vec_max"
    using fits by (simp_all add: codec_lens kMaxMessageLen_def kCheapPrepend_def vec_max_def)
  obtain b1 where b1: "append b (tag c) (length (tag c)) = Some b1" "buffer_wf b1" "content b1 = tag c"
    using append_ok[OF wf(1), of "tag c"] wf(2) w n by auto
  have w1: "writerIndex b1 \<le> kCheapPrepend + length (tag c)" using append_writerIndex[OF wf(1) b1(1)] w by simp
  obtain b2 where b2: "serializeToBuffer c m b1 = Some (length (serialize c m), b2)" "buffer_wf b2" "content b2 = tag c @ serialize c m"
    "writerIndex b2 \<le> writerIndex b1 + length (serialize c m)"
    using serializeToBuffer_ok[OF b1(2), of c m] b1(3) w1 n by (auto simp: kChecksumLen_def)
  have pk: "peek_bytes b2 (readableBytes b2) = Some (tag c @ serialize c m)"
    using peek_bytes_ok[OF b2(2), of "readableBytes b2"] b2(3) by (simp add: readableBytes_content[OF b2(2)])
  obtain b3 where b3: "appendInt32 (host c) b2 (checksum c (tag c @ serialize c m)) = Some b3" "buffer_wf b3"
    "content b3 = tag c @ serialize c m @ bytes_be 4 (unat (adler32 c (tag c @ serialize c m)))"
    using appendInt_ok(2)[OF b2(2), of "host c"] b2(3,4) w1 n by (auto simp: checksum_def)
  have rb: "readableBytes b3 = ?n" using b3(3) n(1) by (simp add: readableBytes_content[OF b3(2)])
  have "readerIndex b3 = kCheapPrepend"
    using append_readerIndex[OF _ serializeToBuffer_readerIndex[OF b2(1) append_readerIndex[OF b1(1) wf(3)]]] b3(1)
    by (auto simp: appendInt32_def Let_def)
  then obtain b4 where b4: "prepend b3 (obj_bytes (host c) (htobe (host c) (word_of_nat ?n :: 32 word))) 4 = Some b4" "buffer_wf b4"
    "content b4 = bytes_be 4 (unat (word_of_nat ?n :: 32 word)) @ content b3"
    using prepend_int_ok[OF b3(2), of 4, where 'a = 32] by (auto simp: prependableBytes_def kCheapPrepend_def)
  have "unat (word_of_nat k :: 32 word) = k" if "k < 2 ^ 32" for k :: nat
    using that by (simp add: unsigned_of_nat take_bit_nat_eq_self_iff)
  moreover have "?n < 2 ^ 32" using fits by (simp add: kMaxMessageLen_def)
  ultimately have "unat (word_of_nat ?n :: 32 word) = ?n" by blast
  then have "content b4 = encode c m" using b4(3) b3(3) n(1) by (simp add: encode_def Let_def)
  moreover have "fillEmptyBuffer c m b = Some b4"
    using b1(1) b2(1) pk b3(1) rb b4(1) wf(2) n(1)
    by (simp add: fillEmptyBuffer_def readableBytes_content[OF wf(1)] kChecksumLen_def hostToNetwork32_def Let_def)
  ultimately show ?thesis using b4(2) by blast
qed

lemma codec_send_ok: "int (kMinMessageLen c + length (serialize c m)) \<le> kMaxMessageLen \<Longrightarrow> codec_send c m = Some (encode c m)"
  using new_Buffer_ok[of kInitialSize] fillEmptyBuffer_ok[of _ c m]
  by (fastforce simp: codec_send_def kCheapPrepend_def kInitialSize_def vec_max_def)

section \<open>Decoding\<close>

lemma encode_parts:
  assumes "int (kMinMessageLen c + length (serialize c m)) \<le> kMaxMessageLen"
  defines "k \<equiv> kMinMessageLen c + length (serialize c m)"
  shows "frame_len (encode c m @ rest) = int k" "length (encode c m) = kHeaderLen + k"
    "drop kHeaderLen (encode c m) = tag c @ serialize c m @ bytes_be 4 (unat (adler32 c (tag c @ serialize c m)))"
proof -
  have k: "k = length (tag c) + length (serialize c m) + 4" "k < 2 ^ 31"
    using assms(1) by (simp_all add: k_def codec_lens kMaxMessageLen_def)
  have "take 4 (encode c m @ rest) = bytes_be 4 k" by (simp add: encode_def Let_def k(1))
  then show "frame_len (encode c m @ rest) = int k"
    using k(2) by (simp add: frame_len_def nat_of_be_bytes_be signed_of_nat signed_take_bit_int_eq_self)
  show "length (encode c m) = kHeaderLen + k" by (simp add: encode_def Let_def k(1) kHeaderLen_def)
  show "drop kHeaderLen (encode c m) = tag c @ serialize c m @ bytes_be 4 (unat (adler32 c (tag c @ serialize c m)))"
    by (simp add: encode_def Let_def kHeaderLen_def)
qed

lemma parse_encode:
  assumes "parseFromArray c (serialize c m) = Some m"
  shows "parse c (tag c @ serialize c m @ bytes_be 4 (unat (adler32 c (tag c @ serialize c m)))) = (kNoError, Some m)"
proof -
  let ?bs = "tag c @ serialize c m @ bytes_be 4 (unat (adler32 c (tag c @ serialize c m)))"
  have "validateChecksum c ?bs"
    using asInt32_bytes[of "host c" "adler32 c (tag c @ serialize c m)" "[]"]
    by (simp add: validateChecksum_def Let_def kChecksumLen_def checksum_def)
  then show ?thesis using assms by (simp add: parse_def kChecksumLen_def Let_def)
qed

definition is_error :: "'m codec_event \<Rightarrow> bool" where
  "is_error e \<longleftrightarrow> (\<exists>x. e = CodecError x)"

lemma is_error_simps [simp]: "is_error (CodecError x)" "\<not> is_error (CodecMessage m)" "\<not> is_error (CodecRaw f)"
  by (simp_all add: is_error_def)

lemma raw_events_no_error [simp]: "list_ex is_error (raw_events c f) = False"
  by (simp add: raw_events_def split: option.split)

lemma apfst_append [simp]: "apfst ((@) []) p = p" "apfst ((@) xs) (apfst ((@) ys) p) = apfst ((@) (xs @ ys)) p"
  by (cases p, simp)+

definition legal_len :: "'m codec \<Rightarrow> int \<Rightarrow> bool" where
  "legal_len c n \<longleftrightarrow> int (kMinMessageLen c) \<le> n \<and> n \<le> kMaxMessageLen"

lemma decode_short: "length bs < kMinMessageLen c + kHeaderLen \<Longrightarrow> decode c bs = ([], bs)"
  by (simp add: decode.simps[of c bs])

lemma decode_illegal:
  "\<not> length bs < kMinMessageLen c + kHeaderLen \<Longrightarrow> \<not> legal_len c (frame_len bs) \<Longrightarrow> decode c bs = ([CodecError kInvalidLength], bs)"
  by (auto simp: decode.simps[of c bs] legal_len_def frame_len_def Let_def)

lemma decode_partial:
  "\<not> length bs < kMinMessageLen c + kHeaderLen \<Longrightarrow> legal_len c (frame_len bs) \<Longrightarrow> length bs < kHeaderLen + nat (frame_len bs) \<Longrightarrow>
   decode c bs = ([], bs)"
  by (auto simp: decode.simps[of c bs] legal_len_def frame_len_def Let_def)

lemma decode_whole:
  assumes "\<not> length (frame @ rest) < kMinMessageLen c + kHeaderLen" "legal_len c (frame_len (frame @ rest))"
    "length frame = kHeaderLen + nat (frame_len (frame @ rest))"
  shows "decode c (frame @ rest) = (if raw_stops c frame then apfst ((@) (raw_events c frame)) (decode c rest)
    else (case parse c (drop kHeaderLen frame) of
        (err, Some m) \<Rightarrow> apfst ((@) (raw_events c frame @ [CodecMessage m])) (decode c rest)
      | (err, None) \<Rightarrow> (raw_events c frame @ [CodecError err], frame @ rest)))"
proof -
  have "take (kHeaderLen + nat (frame_len (frame @ rest))) (frame @ rest) = frame"
    "drop (kHeaderLen + nat (frame_len (frame @ rest))) (frame @ rest) = rest"
    "\<not> length (frame @ rest) < kHeaderLen + nat (frame_len (frame @ rest))" using assms(3) by simp_all
  moreover have "\<not> (frame_len (frame @ rest) > kMaxMessageLen \<or> frame_len (frame @ rest) < int (kMinMessageLen c))"
    using assms(2) by (simp add: legal_len_def)
  ultimately show ?thesis
    by (subst decode.simps) (use assms(1) in \<open>simp only: frame_len_def[symmetric] Let_def if_False\<close>)
qed

lemma decode_encode:
  assumes "carries c m" "\<not> raw_stops c (encode c m)"
  shows "decode c (encode c m @ rest) = apfst ((@) (raw_events c (encode c m) @ [CodecMessage m])) (decode c rest)"
proof -
  let ?k = "kMinMessageLen c + length (serialize c m)"
  have fit: "int ?k \<le> kMaxMessageLen" and p: "parseFromArray c (serialize c m) = Some m" using assms(1) by (simp_all add: carries_def)
  note e = encode_parts(1)[OF fit, of rest] encode_parts(2,3)[OF fit]
  have "nat (int ?k) = ?k" by simp
  then show ?thesis
    using decode_whole[of "encode c m" rest c] fit e parse_encode[OF p] assms(2) by (simp add: legal_len_def)
qed

lemma frame_len_append: "4 \<le> length a \<Longrightarrow> frame_len (a @ b) = frame_len a"
  by (simp add: frame_len_def)

lemma decode_append:
  "decode c (a @ b) = (let (es, r) = decode c a in
     if list_ex is_error es then (es, r @ b) else apfst ((@) es) (decode c (r @ b)))"
proof (induction "length a" arbitrary: a rule: less_induct)
  case less
  consider "length a < kMinMessageLen c + kHeaderLen"
    | "\<not> length a < kMinMessageLen c + kHeaderLen" "\<not> legal_len c (frame_len a)"
    | "\<not> length a < kMinMessageLen c + kHeaderLen" "legal_len c (frame_len a)" "length a < kHeaderLen + nat (frame_len a)"
    | "\<not> length a < kMinMessageLen c + kHeaderLen" "legal_len c (frame_len a)" "kHeaderLen + nat (frame_len a) \<le> length a"
    by fastforce
  then show ?case
  proof cases
    case 1
    then show ?thesis by (simp add: decode_short)
  next
    case 2
    then have "frame_len (a @ b) = frame_len a" by (intro frame_len_append) (simp add: codec_lens)
    then show ?thesis using 2 decode_illegal[of "a @ b" c] decode_illegal[OF 2] by simp
  next
    case 3
    then show ?thesis by (simp add: decode_partial)
  next
    case 4
    let ?n = "kHeaderLen + nat (frame_len a)"
    define f g where "f = take ?n a" and "g = drop ?n a"
    have a: "a = f @ g" "length f = ?n" using 4(3) by (simp_all add: f_def g_def)
    have fl: "frame_len (f @ g @ b) = frame_len a" using 4(1) frame_len_append[of a b] by (simp add: a(1) codec_lens)
    have ea: "decode c (f @ g) = (if raw_stops c f then apfst ((@) (raw_events c f)) (decode c g)
        else (case parse c (drop kHeaderLen f) of (err, Some m) \<Rightarrow> apfst ((@) (raw_events c f @ [CodecMessage m])) (decode c g)
          | (err, None) \<Rightarrow> (raw_events c f @ [CodecError err], f @ g)))"
      by (rule decode_whole) (use 4 a in auto)
    have eab: "decode c (f @ g @ b) = (if raw_stops c f then apfst ((@) (raw_events c f)) (decode c (g @ b))
        else (case parse c (drop kHeaderLen f) of (err, Some m) \<Rightarrow> apfst ((@) (raw_events c f @ [CodecMessage m])) (decode c (g @ b))
          | (err, None) \<Rightarrow> (raw_events c f @ [CodecError err], f @ g @ b)))"
      by (rule decode_whole) (use 4 a fl in auto)
    obtain err message where p: "parse c (drop kHeaderLen f) = (err, message)" by fastforce
    obtain es r where d: "decode c g = (es, r)" by fastforce
    have "length g < length a" using a by (simp add: kHeaderLen_def)
    then have IH: "decode c (g @ b) = (if list_ex is_error es then (es, r @ b) else apfst ((@) es) (decode c (r @ b)))"
      using less[of g] d by simp
    obtain es' r' where d': "decode c (r @ b) = (es', r')" by fastforce
    show ?thesis unfolding a(1) append_assoc eab ea IH p d by (cases message) (auto simp: d')
  qed
qed

lemma decode_stable:
  assumes "\<not> list_ex is_error (fst (decode c a))"
  shows "decode c (snd (decode c a)) = ([], snd (decode c a))"
proof -
  obtain es r where d: "decode c a = (es, r)" by fastforce
  then have "(es, r) = apfst ((@) es) (decode c r)" using decode_append[of c a "[]", unfolded append_Nil2 d] assms by simp
  then show ?thesis using d by (cases "decode c r") simp
qed

lemma decode_messages:
  assumes "\<forall>m \<in> set ms. carries c m \<and> \<not> raw_stops c (encode c m)"
  shows "decode c (concat (map (encode c) ms)) = (concat (map (\<lambda>m. raw_events c (encode c m) @ [CodecMessage m]) ms), [])"
  using assms by (induction ms) (simp_all add: decode_encode decode_short kHeaderLen_def)

section \<open>A stream of messages\<close>

lemma asInt32_inj:
  assumes "length bs = 4" "asInt32 h bs = w"
  shows "bs = bytes_be 4 (unat w)"
proof -
  have "w = word_of_nat (nat_of_be bs)"
    using assms betoh_obj_of_bytes[of 4 bs h, where 'a = 32] by (simp add: asInt32_def networkToHost32_def)
  then show ?thesis using unat_of_be_bytes[of 4 bs, where 'a = 32] bytes_be_nat_of_be[OF assms(1)] assms(1) by simp
qed

text \<open>A frame from which a message was parsed has the form that the encoder gives it.\<close>

definition well_formed :: "'m codec \<Rightarrow> byte list \<Rightarrow> 'm \<Rightarrow> bool" where
  "well_formed c bs m \<longleftrightarrow> (\<exists>payload. parseFromArray c payload = Some m \<and>
     bs = tag c @ payload @ bytes_be 4 (unat (adler32 c (tag c @ payload))))"

lemma parse_sound:
  assumes p: "parse c bs = (err, Some m)" and len: "kMinMessageLen c \<le> length bs"
  shows "well_formed c bs m"
proof -
  let ?n = "length bs - 4" and ?t = "length (tag c)"
  have v: "adler32 c (take ?n bs) = asInt32 (host c) (drop ?n bs)" and t: "take ?t bs = tag c"
    and m: "parseFromArray c (take (?n - ?t) (drop ?t bs)) = Some m"
    using p by (auto simp: parse_def validateChecksum_def checksum_def kChecksumLen_def Let_def split: if_splits option.splits)
  have l: "?t + 4 \<le> length bs" using len by (simp add: codec_lens)
  have "drop ?n bs = bytes_be 4 (unat (adler32 c (take ?n bs)))" by (rule asInt32_inj[of _ "host c"]) (use l v in simp_all)
  moreover have b: "take ?n bs = tag c @ take (?n - ?t) (drop ?t bs)"
    using l t by (metis add_diff_cancel_left' append_take_drop_id take_add le_add_diff_inverse diff_le_mono add_le_imp_le_diff)
  ultimately have "bs = (tag c @ take (?n - ?t) (drop ?t bs)) @ bytes_be 4 (unat (adler32 c (tag c @ take (?n - ?t) (drop ?t bs))))"
    by (metis append_take_drop_id)
  then show ?thesis using m unfolding well_formed_def by auto
qed

text \<open>The bytes of a connection arrive in pieces; each is appended to the buffer, and the handler is called.\<close>

fun feed :: "'m codec \<Rightarrow> byte list list \<Rightarrow> buffer \<Rightarrow> ('m codec_event list \<times> buffer) option option" where
  "feed c [] b = Some (Some ([], b))"
| "feed c (d # ds) b =
     (case append b d (length d) of
        None \<Rightarrow> Some None
      | Some b1 \<Rightarrow>
          (case onMessage c b1 of
             None \<Rightarrow> None
           | Some None \<Rightarrow> Some None
           | Some (Some (es, b2)) \<Rightarrow> do { r \<leftarrow> feed c ds b2; Some (map_option (apfst ((@) es)) r) }))"

lemma feed_decode:
  assumes "buffer_wf b" "buffer_used b + length (concat ds) \<le> vec_max" "decode c (content b) = ([], content b)"
    "\<not> list_ex is_error (fst (decode c (content b @ concat ds)))"
  shows "\<exists>b'. feed c ds b = Some (Some (fst (decode c (content b @ concat ds)), b')) \<and> buffer_wf b' \<and>
    content b' = snd (decode c (content b @ concat ds))"
  using assms
proof (induction ds arbitrary: b)
  case Nil
  then show ?case by simp
next
  case (Cons d ds)
  have "writerIndex b + length d \<le> vec_max" using Cons.prems(2) by (simp add: buffer_used_def)
  then obtain b1 where b1: "append b d (length d) = Some b1" "buffer_wf b1" "content b1 = content b @ d"
    using append_ok[OF Cons.prems(1)] by blast
  have u1: "buffer_used b1 \<le> buffer_used b + length d"
    using append_writerIndex[OF Cons.prems(1) b1(1)] by (auto simp: buffer_used_def max_def)
  obtain es r where d: "decode c (content b @ d) = (es, r)" by fastforce
  obtain b2 where b2: "onMessage c b1 = Some (Some (es, b2))" "buffer_wf b2" "content b2 = r" "buffer_used b2 \<le> buffer_used b1"
    using onMessage_decode[OF b1(2), of c] b1(3) d by (auto simp: handles_def)
  have app: "decode c (content b @ concat (d # ds)) = (if list_ex is_error es then (es, r @ concat ds) else apfst ((@) es) (decode c (r @ concat ds)))"
    using decode_append[of c "content b @ d" "concat ds"] d by simp
  have ne: "\<not> list_ex is_error es" using Cons.prems(4) app by (cases "list_ex is_error es") simp_all
  obtain es' r' where d': "decode c (r @ concat ds) = (es', r')" by fastforce
  have "decode c r = ([], r)" using decode_stable[of c "content b @ d"] d ne by simp
  moreover have "buffer_used b2 + length (concat ds) \<le> vec_max" using u1 b2(4) Cons.prems(2) by simp
  moreover have "\<not> list_ex is_error es'" using Cons.prems(4) app ne d' by simp
  ultimately obtain b' where "feed c ds b2 = Some (Some (es', b'))" "buffer_wf b'" "content b' = r'"
    using Cons.IH[OF b2(2)] b2(3) d' by auto
  then show ?case using b1(1) b2(1) app ne d' by simp
qed

text \<open>
  C20. Messages survive the wire: \<open>send\<close> produces the frame of the wire format, and however the frames of
  a sequence of messages are cut into pieces when they arrive, the handler delivers exactly these messages,
  in order, each once, reports no error, fails no assertion and leaves nothing in the buffer.
\<close>

theorem codec_stream:
  assumes "\<forall>m \<in> set ms. carries c m \<and> \<not> raw_stops c (encode c m)"
    and "concat ds = concat (map (encode c) ms)"
    and "buffer_wf b" "content b = []" "buffer_used b + length (concat ds) \<le> vec_max"
  shows "map (codec_send c) ms = map (Some \<circ> encode c) ms \<and>
    (\<exists>b'. feed c ds b = Some (Some (concat (map (\<lambda>m. raw_events c (encode c m) @ [CodecMessage m]) ms), b')) \<and> content b' = [])"
proof -
  have "\<not> list_ex is_error (concat (map (\<lambda>m. raw_events c (encode c m) @ [CodecMessage m]) ms))"
    by (induction ms) simp_all
  moreover have "decode c [] = ([], [])" by (rule decode_short) (simp add: kHeaderLen_def)
  moreover have "map (codec_send c) ms = map (Some \<circ> encode c) ms" using assms(1) by (simp add: carries_def codec_send_ok)
  ultimately show ?thesis using feed_decode[OF assms(3,5), of c] assms(2,4) decode_messages[OF assms(1)] by auto
qed

text \<open>Messages that are strings of bytes, a tag of four bytes, and the sum of the bytes as checksum.\<close>

definition sample_codec :: "byte list codec" where
  "sample_codec = \<lparr>tag = [82, 80, 67, 48], serialize = (\<lambda>m. m), parseFromArray = Some, adler32 = (\<lambda>bs. sum_list (map ucast bs)),
     rawCb = None, host = Little_Endian\<rparr>"

theorem codec_stream_witness:
  "\<exists>b'. feed sample_codec [[0, 0, 0], [10, 82, 80, 67, 48, 1], [2, 0, 0, 1, 24]] empty_sample = Some (Some ([CodecMessage [1, 2]], b')) \<and> content b' = []"
proof -
  have e: "encode sample_codec [1, 2] = [0, 0, 0, 10, 82, 80, 67, 48, 1, 2, 0, 0, 1, 24]"
    by (simp add: encode_def sample_codec_def bytes_be_numeral)
  have "carries sample_codec [1, 2] \<and> \<not> raw_stops sample_codec (encode sample_codec [1, 2])"
    by (simp add: carries_def sample_codec_def codec_lens kMaxMessageLen_def raw_stops_def)
  then show ?thesis
    using codec_stream[of "[[1, 2]]" sample_codec "[[0, 0, 0], [10, 82, 80, 67, 48, 1], [2, 0, 0, 1, 24]]" empty_sample] e empty_sample_facts
    by (simp add: raw_events_def sample_codec_def buffer_used_def kCheapPrepend_def vec_max_def)
qed

text \<open>Every message handed out comes from a well-formed frame, and only whole frames are taken off the bytes.\<close>

lemma decode_sound:
  "suffix (snd (decode c bs)) bs \<and> (\<forall>m. CodecMessage m \<in> set (fst (decode c bs)) \<longrightarrow> (\<exists>f. well_formed c f m \<and> sublist f bs))"
proof (induction "length bs" arbitrary: bs rule: less_induct)
  case less
  show ?case
  proof (cases "\<not> length bs < kMinMessageLen c + kHeaderLen \<and> legal_len c (frame_len bs) \<and> kHeaderLen + nat (frame_len bs) \<le> length bs")
    case False
    then show ?thesis using decode_short[of bs c] decode_illegal[of bs c] decode_partial[of bs c]
      by (cases "length bs < kMinMessageLen c + kHeaderLen"; cases "legal_len c (frame_len bs)") auto
  next
    case True
    define f g where "f = take (kHeaderLen + nat (frame_len bs)) bs" and "g = drop (kHeaderLen + nat (frame_len bs)) bs"
    have bs: "bs = f @ g" "length f = kHeaderLen + nat (frame_len bs)" using True by (simp_all add: f_def g_def)
    have "length g < length bs" using bs by (simp add: kHeaderLen_def)
    then have IH: "suffix (snd (decode c g)) g" "\<And>m. CodecMessage m \<in> set (fst (decode c g)) \<Longrightarrow> \<exists>h. well_formed c h m \<and> sublist h g"
      using less by blast+
    have eq: "decode c (f @ g) = (if raw_stops c f then apfst ((@) (raw_events c f)) (decode c g)
        else (case parse c (drop kHeaderLen f) of (err, Some m) \<Rightarrow> apfst ((@) (raw_events c f @ [CodecMessage m])) (decode c g)
          | (err, None) \<Rightarrow> (raw_events c f @ [CodecError err], f @ g)))"
      by (rule decode_whole) (use True bs in auto)
    have raw: "CodecMessage m \<notin> set (raw_events c f)" for m by (simp add: raw_events_def split: option.split)
    have sub: "sublist h g \<Longrightarrow> sublist h (f @ g)" for h using sublist_order.order.trans[OF _ sublist_append_leftI] by blast
    obtain err message where p: "parse c (drop kHeaderLen f) = (err, message)" by fastforce
    have wf: "message = Some m \<Longrightarrow> well_formed c (drop kHeaderLen f) m" for m
      using parse_sound p True bs(2) by (fastforce simp: legal_len_def)
    have df: "sublist (drop kHeaderLen f) (f @ g)"
      using sublist_order.order.trans[OF suffix_imp_sublist[OF suffix_drop] sublist_append_rightI] by blast
    have later: "\<exists>h. well_formed c h m \<and> sublist h (f @ g)" if "CodecMessage m \<in> set (fst (decode c g))" for m
      using IH(2)[OF that] sub by blast
    show ?thesis
      unfolding bs(1) eq p using IH(1) raw later wf df by (cases message) (auto simp: suffix_appendI)
  qed
qed



end
