(* ===== verification/Memcache_Store.thy ===== *)
theory Memcache_Store
  imports Net_Buffer Log_Stream
begin

text \<open>
  The store of the memcached server (\<open>examples/memcached/server/Item.h\<close>, \<open>Item.cc\<close>, \<open>MemcacheServer.h\<close>,
  \<open>MemcacheServer.cc\<close>): items, and the hash table of 4096 shards.  \<open>it_data\<close> holds the bytes received so
  far, \<open>it_capacity\<close> the size of the memory allocated for them (allocation succeeds).  Items are not
  changed once they are in the table, so they are values.  The hash function is boost's and an argument.
\<close>

record mitem =
  it_keylen :: nat
  it_flags :: "32 word"
  it_rel_exptime :: int
  it_valuelen :: int
  it_receivedBytes :: nat
  it_cas :: "64 word"
  it_hash :: "64 word"
  it_data :: "byte list"
  it_capacity :: nat

datatype UpdatePolicy = kInvalidPolicy | kSet | kAdd | kReplace | kAppend | kPrepend | kCas

section \<open>Item\<close>

definition totalLen :: "mitem \<Rightarrow> int" where
  "totalLen i = int (it_keylen i) + it_valuelen i"

definition neededBytes :: "mitem \<Rightarrow> nat" where
  "neededBytes i = of_int32 (totalLen i - int (it_receivedBytes i))"

definition item_key :: "mitem \<Rightarrow> byte list" where
  "item_key i = take (it_keylen i) (it_data i)"

definition valueLength :: "mitem \<Rightarrow> nat" where
  "valueLength i = of_int32 (it_valuelen i)"

text \<open>The bytes at \<open>value()\<close>, of which the callers use \<open>valueLength()\<close> or two less.\<close>

definition item_value :: "mitem \<Rightarrow> byte list" where
  "item_value i = drop (it_keylen i) (it_data i)"

definition setCas :: "64 word \<Rightarrow> mitem \<Rightarrow> mitem" where
  "setCas c i = i\<lparr>it_cas := c\<rparr>"

definition item_append :: "byte list \<Rightarrow> mitem \<Rightarrow> mitem option" where
  "item_append bytes i = do {
     assert_that (length bytes \<le> neededBytes i);
     assert_that (it_receivedBytes i + length bytes \<le> it_capacity i);
     let i' = i\<lparr>it_data := take (it_receivedBytes i) (it_data i) @ bytes,
                it_receivedBytes := it_receivedBytes i + length bytes\<rparr>;
     assert_that (int (it_receivedBytes i') \<le> totalLen i');
     Some i'
   }"

text \<open>The sum of the lengths is computed in \<open>int\<close>; its overflow is undefined.\<close>

definition makeItem ::
    "(byte list \<Rightarrow> 64 word) \<Rightarrow> byte list \<Rightarrow> 32 word \<Rightarrow> int \<Rightarrow> int \<Rightarrow> 64 word \<Rightarrow> mitem option" where
  "makeItem hash_range keyArg flagsArg exptimeArg valuelen casArg = do {
     assert_that (int (length keyArg) + valuelen < 2 ^ 31);
     let i = \<lparr>it_keylen = length keyArg, it_flags = flagsArg, it_rel_exptime = exptimeArg, it_valuelen = valuelen,
              it_receivedBytes = 0, it_cas = casArg, it_hash = hash_range keyArg, it_data = [],
              it_capacity = nat (int (length keyArg) + valuelen)\<rparr>;
     assert_that (it_valuelen i \<ge> 2);
     assert_that (int (it_receivedBytes i) < totalLen i);
     item_append keyArg i
   }"

definition endsWithCRLF :: "mitem \<Rightarrow> bool" where
  "endsWithCRLF i \<longleftrightarrow> int (it_receivedBytes i) = totalLen i \<and>
     it_data i ! nat (totalLen i - 2) = 13 \<and> it_data i ! nat (totalLen i - 1) = 10"

definition resetKey :: "(byte list \<Rightarrow> 64 word) \<Rightarrow> byte list \<Rightarrow> mitem \<Rightarrow> mitem option" where
  "resetKey hash_range k i = do {
     assert_that (length k \<le> 250);
     i' \<leftarrow> item_append k (i\<lparr>it_keylen := length k, it_receivedBytes := 0\<rparr>);
     Some (i'\<lparr>it_hash := hash_range k\<rparr>)
   }"

definition item_output :: "bool \<Rightarrow> mitem \<Rightarrow> buffer \<Rightarrow> buffer option" where
  "item_output needCas i out = do {
     out1 \<leftarrow> append out (bytes_of ''VALUE '') 6;
     out2 \<leftarrow> append out1 (it_data i) (it_keylen i);
     buf \<leftarrow> puts (new_FixedBuffer kSmallBuffer)
       ([Chr CHR '' '', Num (uint (it_flags i)), Chr CHR '' '', Num (it_valuelen i - 2)] @
        (if needCas then [Chr CHR '' '', Num (uint (it_cas i))] else []) @ [CStr (Some [CHR 0x0D, CHR 0x0A])]);
     out3 \<leftarrow> append out2 (bytes_of (toString buf)) (length (toString buf));
     append out3 (item_value i) (valueLength i)
   }"

section \<open>MemcacheServer\<close>

definition kShards :: nat where "kShards = 4096"

record store =
  shards :: "nat \<Rightarrow> byte list \<rightharpoonup> mitem"
  g_cas :: "64 word"
  startTime :: int
  stop_timers :: nat

definition new_store :: "int \<Rightarrow> store" where
  "new_store now = \<lparr>shards = (\<lambda>i. Map.empty), g_cas = 0, startTime = now - 1, stop_timers = 0\<rparr>"

definition server_stop :: "store \<Rightarrow> store" where
  "server_stop s = s\<lparr>stop_timers := stop_timers s + 1\<rparr>"

definition shard_of :: "mitem \<Rightarrow> nat" where
  "shard_of i = unat (it_hash i) mod kShards"

text \<open>\<open>items.erase(it)\<close> followed by \<open>items.insert(item)\<close>, and \<open>insert\<close> alone when the key is absent.\<close>

definition put_item :: "nat \<Rightarrow> mitem \<Rightarrow> store \<Rightarrow> store" where
  "put_item n i s = s\<lparr>shards := (shards s)(n := (shards s n)(item_key i \<mapsto> i))\<rparr>"

definition incrementAndGet :: "store \<Rightarrow> 64 word \<times> store" where
  "incrementAndGet s = (g_cas s + 1, s\<lparr>g_cas := g_cas s + 1\<rparr>)"

definition put_with_new_cas :: "nat \<Rightarrow> mitem \<Rightarrow> store \<Rightarrow> store" where
  "put_with_new_cas n i s = (case incrementAndGet s of (c, s') \<Rightarrow> put_item n (setCas c i) s')"

text \<open>The item that \<open>append\<close> and \<open>prepend\<close> make of the old one and the new.\<close>

definition joinItem :: "(byte list \<Rightarrow> 64 word) \<Rightarrow> UpdatePolicy \<Rightarrow> mitem \<Rightarrow> mitem \<Rightarrow> 64 word \<Rightarrow> mitem option" where
  "joinItem hash_range policy item oldItem c = do {
     let newLen = to_int32 (valueLength item + valueLength oldItem - 2);
     newItem \<leftarrow> makeItem hash_range (item_key item) (it_flags oldItem) (it_rel_exptime oldItem) newLen c;
     newItem2 \<leftarrow> (if policy = kAppend then do {
                    n \<leftarrow> item_append (take (valueLength oldItem - 2) (item_value oldItem)) newItem;
                    item_append (take (valueLength item) (item_value item)) n
                  } else do {
                    n \<leftarrow> item_append (take (valueLength item - 2) (item_value item)) newItem;
                    item_append (take (valueLength oldItem) (item_value oldItem)) n
                  });
     assert_that (neededBytes newItem2 = 0);
     assert_that (endsWithCRLF newItem2);
     Some newItem2
   }"

definition storeItem ::
    "(byte list \<Rightarrow> 64 word) \<Rightarrow> mitem \<Rightarrow> UpdatePolicy \<Rightarrow> store \<Rightarrow> (bool \<times> bool \<times> store) option" where
  "storeItem hash_range item policy s = do {
     assert_that (neededBytes item = 0);
     let n = shard_of item;
     let it = shards s n (item_key item);
     let exists = (it \<noteq> None);
     (case policy of
        kSet \<Rightarrow> Some (True, exists, put_with_new_cas n item s)
      | kAdd \<Rightarrow> if exists then Some (False, exists, s) else Some (True, exists, put_with_new_cas n item s)
      | kReplace \<Rightarrow> if exists then Some (True, exists, put_with_new_cas n item s) else Some (False, exists, s)
      | kAppend \<Rightarrow> (case it of
            Some oldItem \<Rightarrow> do {
              newItem \<leftarrow> joinItem hash_range policy item oldItem (fst (incrementAndGet s));
              Some (True, exists, put_item n newItem (snd (incrementAndGet s)))
            }
          | None \<Rightarrow> Some (False, exists, s))
      | kPrepend \<Rightarrow> (case it of
            Some oldItem \<Rightarrow> do {
              newItem \<leftarrow> joinItem hash_range policy item oldItem (fst (incrementAndGet s));
              Some (True, exists, put_item n newItem (snd (incrementAndGet s)))
            }
          | None \<Rightarrow> Some (False, exists, s))
      | kCas \<Rightarrow> (case it of
            Some oldItem \<Rightarrow>
              if it_cas oldItem = it_cas item then Some (True, exists, put_with_new_cas n item s)
              else Some (False, exists, s)
          | None \<Rightarrow> Some (False, exists, s))
      | kInvalidPolicy \<Rightarrow> None)
   }"

definition getItem :: "mitem \<Rightarrow> store \<Rightarrow> mitem option" where
  "getItem key s = shards s (shard_of key) (item_key key)"

definition deleteItem :: "mitem \<Rightarrow> store \<Rightarrow> bool \<times> store" where
  "deleteItem key s =
     (let n = shard_of key; items = shards s n
      in (items (item_key key) \<noteq> None, s\<lparr>shards := (shards s)(n := items(item_key key := None))\<rparr>))"

section \<open>Items\<close>

definition item_wf :: "(byte list \<Rightarrow> 64 word) \<Rightarrow> mitem \<Rightarrow> bool" where
  "item_wf h i \<longleftrightarrow> 2 \<le> it_valuelen i \<and> totalLen i < 2 ^ 31 \<and> length (it_data i) = it_receivedBytes i \<and>
     int (it_receivedBytes i) \<le> totalLen i \<and> totalLen i \<le> int (it_capacity i) \<and>
     it_keylen i \<le> it_receivedBytes i \<and> it_hash i = h (item_key i)"

definition complete :: "mitem \<Rightarrow> bool" where
  "complete i \<longleftrightarrow> int (it_receivedBytes i) = totalLen i"

text \<open>The value without the line end that follows it on the wire.\<close>

definition payload :: "mitem \<Rightarrow> byte list" where
  "payload i = take (nat (it_valuelen i - 2)) (item_value i)"

lemma of_int32_nat: "0 \<le> x \<Longrightarrow> x < 2 ^ 31 \<Longrightarrow> of_int32 x = nat x"
  using of_int32_exact[of "nat x"] by (simp add: size_limit_def)

lemma neededBytes_wf: "item_wf h i \<Longrightarrow> neededBytes i = nat (totalLen i) - it_receivedBytes i"
  unfolding neededBytes_def by (subst of_int32_nat) (auto simp: item_wf_def)

lemma neededBytes_complete: "item_wf h i \<Longrightarrow> neededBytes i = 0 \<longleftrightarrow> complete i"
  by (auto simp: neededBytes_wf complete_def item_wf_def)

lemma valueLength_wf: "item_wf h i \<Longrightarrow> valueLength i = nat (it_valuelen i)"
  unfolding valueLength_def by (subst of_int32_nat) (auto simp: item_wf_def totalLen_def)

lemma item_append_ok:
  assumes wf: "item_wf h i" and fits: "int (it_receivedBytes i + length bs) \<le> totalLen i"
  shows "\<exists>i'. item_append bs i = Some i' \<and> item_wf h i' \<and> it_data i' = it_data i @ bs \<and>
    it_receivedBytes i' = it_receivedBytes i + length bs \<and> totalLen i' = totalLen i \<and> item_key i' = item_key i \<and>
    it_keylen i' = it_keylen i \<and> it_valuelen i' = it_valuelen i \<and> it_flags i' = it_flags i \<and>
    it_rel_exptime i' = it_rel_exptime i \<and> it_cas i' = it_cas i"
proof -
  let ?i = "i\<lparr>it_data := it_data i @ bs, it_receivedBytes := it_receivedBytes i + length bs\<rparr>"
  have "item_append bs i = Some ?i"
    using assms neededBytes_wf[OF wf] by (auto simp: item_append_def item_wf_def totalLen_def)
  moreover have "item_key ?i = item_key i" using wf by (simp add: item_key_def item_wf_def)
  moreover have "item_wf h ?i" using assms calculation(2) by (auto simp: item_wf_def totalLen_def)
  ultimately show ?thesis by (simp add: totalLen_def)
qed

lemma makeItem_ok:
  assumes "2 \<le> n" and "int (length k) + n < 2 ^ 31"
  shows "\<exists>i. makeItem h k f x n c = Some i \<and> item_wf h i \<and> it_data i = k \<and> it_receivedBytes i = length k \<and>
    item_key i = k \<and> it_keylen i = length k \<and> it_valuelen i = n \<and> it_flags i = f \<and> it_rel_exptime i = x \<and> it_cas i = c"
proof -
  have n: "of_int32 (int (length k) + n) = nat (int (length k) + n)" using assms by (simp add: of_int32_nat)
  then show ?thesis
    using assms by (auto simp: makeItem_def item_append_def neededBytes_def totalLen_def item_wf_def item_key_def)
qed

lemma makeItem_fails: "n < 2 \<Longrightarrow> makeItem h k f x n c = None"
  by (simp add: makeItem_def assert_that_def)

lemma resetKey_ok:
  assumes "length k \<le> 250" and "it_valuelen i = 2" and "252 \<le> it_capacity i"
  shows "\<exists>i'. resetKey h k i = Some i' \<and> item_key i' = k \<and> it_hash i' = h k \<and> it_valuelen i' = 2 \<and>
    252 \<le> it_capacity i'"
proof -
  have "of_int32 (int (length k) + 2) = length k + 2" using assms(1) by (subst of_int32_nat) simp_all
  then show ?thesis
    using assms by (auto simp: resetKey_def item_append_def neededBytes_def totalLen_def item_key_def)
qed

lemma resetKey_fails: "250 < length k \<Longrightarrow> resetKey h k i = None"
  by (simp add: resetKey_def)

text \<open>A complete item that ends with a line end is its key, its payload and the line end.\<close>

lemma item_data_split: "item_wf h i \<Longrightarrow> it_data i = item_key i @ item_value i"
  by (simp add: item_key_def item_value_def)

lemma length_item_value: "item_wf h i \<Longrightarrow> complete i \<Longrightarrow> length (item_value i) = nat (it_valuelen i)"
  by (auto simp: item_value_def item_wf_def complete_def totalLen_def)

lemma last_two: "2 \<le> length xs \<Longrightarrow> drop (length xs - 2) xs = [xs ! (length xs - 2), xs ! (length xs - 1)]"
  by (intro nth_equalityI) (auto simp: less_Suc_eq nth_append numeral_2_eq_2)

lemma item_value_payload:
  assumes wf: "item_wf h i" and full: "complete i" and "endsWithCRLF i"
  shows "item_value i = payload i @ [13, 10]"
proof -
  let ?v = "item_value i" let ?d = "it_data i"
  have len: "length ?v = nat (it_valuelen i)" "2 \<le> length ?v" "length ?d = nat (totalLen i)"
    using length_item_value[OF wf full] wf full by (auto simp: item_wf_def complete_def)
  have k: "length ?d = it_keylen i + length ?v" using len wf by (simp add: item_wf_def totalLen_def nat_add_distrib)
  have "drop (length ?v - 2) ?v = drop (length ?d - 2) ?d"
    using k len by (simp add: item_value_def add.commute)
  also have "\<dots> = [13, 10]"
    using assms(3) len k by (subst last_two) (auto simp: endsWithCRLF_def nat_diff_distrib)
  finally have "?v = take (length ?v - 2) ?v @ [13, 10]" by (metis append_take_drop_id)
  then show ?thesis using len by (simp add: payload_def nat_diff_distrib)
qed

lemma endsWithCRLF_value:
  assumes wf: "item_wf h i" and full: "complete i"
  shows "endsWithCRLF i \<longleftrightarrow> (\<exists>v. item_value i = v @ [13, 10])"
proof
  assume "endsWithCRLF i"
  then show "\<exists>v. item_value i = v @ [13, 10]" using item_value_payload[OF assms] by blast
next
  assume "\<exists>v. item_value i = v @ [13, 10]"
  then obtain v where v: "it_data i = (item_key i @ v) @ [13, 10]" using item_data_split[OF wf] by auto
  have "length (it_data i) = nat (totalLen i)" using wf full by (auto simp: item_wf_def complete_def)
  then have "nat (totalLen i) = length (item_key i @ v) + 2" using v by simp
  then have "nat (totalLen i - 2) = length (item_key i @ v)" "nat (totalLen i - 1) = Suc (length (item_key i @ v))"
    by auto
  then show "endsWithCRLF i" using full unfolding endsWithCRLF_def v complete_def
    by (simp add: nth_append del: append_assoc)
qed

section \<open>The abstract table\<close>

text \<open>What the server promises: one map from keys to entries, and a counter of changes.\<close>

record entry =
  e_value :: "byte list"
  e_flags :: "32 word"
  e_exptime :: int
  e_cas :: "64 word"

type_synonym table = "(byte list \<rightharpoonup> entry) \<times> 64 word"

definition spec_put :: "byte list \<Rightarrow> entry \<Rightarrow> table \<Rightarrow> table" where
  "spec_put k e t = ((fst t)(k \<mapsto> e\<lparr>e_cas := snd t + 1\<rparr>), snd t + 1)"

fun spec_store :: "UpdatePolicy \<Rightarrow> byte list \<Rightarrow> entry \<Rightarrow> table \<Rightarrow> bool \<times> table" where
  "spec_store kSet k e t = (True, spec_put k e t)"
| "spec_store kAdd k e t = (if fst t k = None then (True, spec_put k e t) else (False, t))"
| "spec_store kReplace k e t = (if fst t k \<noteq> None then (True, spec_put k e t) else (False, t))"
| "spec_store kAppend k e t = (case fst t k of None \<Rightarrow> (False, t)
     | Some old \<Rightarrow> (True, spec_put k (old\<lparr>e_value := e_value old @ e_value e\<rparr>) t))"
| "spec_store kPrepend k e t = (case fst t k of None \<Rightarrow> (False, t)
     | Some old \<Rightarrow> (True, spec_put k (old\<lparr>e_value := e_value e @ e_value old\<rparr>) t))"
| "spec_store kCas k e t = (case fst t k of None \<Rightarrow> (False, t)
     | Some old \<Rightarrow> if e_cas old = e_cas e then (True, spec_put k e t) else (False, t))"
| "spec_store kInvalidPolicy k e t = (False, t)"

definition entry_of :: "mitem \<Rightarrow> entry" where
  "entry_of i = \<lparr>e_value = payload i, e_flags = it_flags i, e_exptime = it_rel_exptime i, e_cas = it_cas i\<rparr>"

definition table_of :: "(byte list \<Rightarrow> 64 word) \<Rightarrow> store \<Rightarrow> table" where
  "table_of h s = ((\<lambda>k. map_option entry_of (shards s (unat (h k) mod kShards) k)), g_cas s)"

text \<open>What can be stored: a complete item that ends with a line end.\<close>

definition storable :: "(byte list \<Rightarrow> 64 word) \<Rightarrow> mitem \<Rightarrow> bool" where
  "storable h i \<longleftrightarrow> item_wf h i \<and> complete i \<and> endsWithCRLF i"

definition store_wf :: "(byte list \<Rightarrow> 64 word) \<Rightarrow> store \<Rightarrow> bool" where
  "store_wf h s \<longleftrightarrow> (\<forall>n k i. shards s n k = Some i \<longrightarrow>
     item_key i = k \<and> n = unat (h k) mod kShards \<and> storable h i)"

lemma store_wf_new: "store_wf h (new_store now)"
  by (simp add: store_wf_def new_store_def)

lemma shard_of_wf: "item_wf h i \<Longrightarrow> shard_of i = unat (h (item_key i)) mod kShards"
  by (simp add: shard_of_def item_wf_def)

lemma item_view:
  "item_key (setCas c i) = item_key i" "storable h (setCas c i) \<longleftrightarrow> storable h i"
  "entry_of (setCas c i) = (entry_of i)\<lparr>e_cas := c\<rparr>" "shard_of (setCas c i) = shard_of i"
  by (simp_all add: setCas_def item_key_def storable_def item_wf_def complete_def endsWithCRLF_def totalLen_def
      entry_of_def payload_def item_value_def shard_of_def)

lemma put_item_wf:
  assumes "store_wf h s" and "storable h i" and "n = unat (h (item_key i)) mod kShards"
  shows "store_wf h (put_item n i s)" and "g_cas (put_item n i s) = g_cas s"
    and "fst (table_of h (put_item n i s)) = (fst (table_of h s))(item_key i \<mapsto> entry_of i)"
  using assms by (auto simp: store_wf_def put_item_def table_of_def)

lemma counter_wf:
  "store_wf h (s\<lparr>g_cas := c\<rparr>) = store_wf h s" "fst (table_of h (s\<lparr>g_cas := c\<rparr>)) = fst (table_of h s)"
  by (simp_all add: store_wf_def table_of_def)

lemma put_with_new_cas_wf:
  assumes "store_wf h s" and "storable h i"
  shows "store_wf h (put_with_new_cas (shard_of i) i s)"
    and "table_of h (put_with_new_cas (shard_of i) i s) = spec_put (item_key i) (entry_of i) (table_of h s)"
proof -
  let ?c = "g_cas s + 1"
  have n: "shard_of i = unat (h (item_key (setCas ?c i))) mod kShards"
    using assms(2) by (simp add: storable_def shard_of_wf item_view)
  have wf: "store_wf h (s\<lparr>g_cas := ?c\<rparr>)" and st: "storable h (setCas ?c i)"
    using assms by (simp_all add: counter_wf item_view)
  note P = put_item_wf[OF wf st n]
  show "store_wf h (put_with_new_cas (shard_of i) i s)"
    using P(1) by (simp add: put_with_new_cas_def incrementAndGet_def)
  have "table_of h t = (fst (table_of h t), g_cas t)" for t by (simp add: table_of_def)
  then show "table_of h (put_with_new_cas (shard_of i) i s) = spec_put (item_key i) (entry_of i) (table_of h s)"
    using P(2,3) by (simp add: put_with_new_cas_def incrementAndGet_def spec_put_def item_view counter_wf prod_eq_iff)
qed

text \<open>Appending and prepending.\<close>

lemma storable_pieces:
  assumes "storable h i"
  shows "item_value i = payload i @ [13, 10]" "take (valueLength i - 2) (item_value i) = payload i"
    "take (valueLength i) (item_value i) = payload i @ [13, 10]" "valueLength i = length (payload i) + 2"
    "it_valuelen i = int (length (payload i)) + 2"
proof -
  have wf: "item_wf h i" and full: "complete i" and crlf: "endsWithCRLF i" using assms by (simp_all add: storable_def)
  show v: "item_value i = payload i @ [13, 10]" using item_value_payload[OF wf full crlf] .
  have "nat (it_valuelen i) = length (payload i) + 2" using length_item_value[OF wf full] v by simp
  then show l: "valueLength i = length (payload i) + 2" and "it_valuelen i = int (length (payload i)) + 2"
    by (simp_all add: valueLength_wf[OF wf])
  show "take (valueLength i - 2) (item_value i) = payload i" "take (valueLength i) (item_value i) = payload i @ [13, 10]"
    using v l by simp_all
qed

lemma join_two:
  assumes n: "n = int (length a + length b) + 2" and fits: "int (length k) + n < 2 ^ 31"
  shows "\<exists>i0 i1 j. makeItem h k f x n c = Some i0 \<and> item_append a i0 = Some i1 \<and> item_append (b @ [13, 10]) i1 = Some j \<and>
    storable h j \<and> neededBytes j = 0 \<and> item_key j = k \<and>
    entry_of j = \<lparr>e_value = a @ b, e_flags = f, e_exptime = x, e_cas = c\<rparr>"
proof -
  obtain i0 where i0: "makeItem h k f x n c = Some i0" "item_wf h i0" "it_data i0 = k" "it_receivedBytes i0 = length k"
      "item_key i0 = k" "it_keylen i0 = length k" "it_valuelen i0 = n" "it_flags i0 = f" "it_rel_exptime i0 = x" "it_cas i0 = c"
    using makeItem_ok[of n k h f x c] n fits by auto
  have t0: "totalLen i0 = int (length k) + n" using i0 by (simp add: totalLen_def)
  obtain i1 where i1: "item_append a i0 = Some i1" "item_wf h i1" "it_data i1 = k @ a" "it_receivedBytes i1 = length k + length a"
      "totalLen i1 = int (length k) + n" "item_key i1 = k" "it_keylen i1 = length k" "it_valuelen i1 = n" "it_flags i1 = f"
      "it_rel_exptime i1 = x" "it_cas i1 = c"
    using item_append_ok[OF i0(2), of a] i0 t0 n by auto
  obtain j where j: "item_append (b @ [13, 10]) i1 = Some j" "item_wf h j" "it_data j = k @ a @ b @ [13, 10]"
      "it_receivedBytes j = length k + length a + length b + 2" "totalLen j = int (length k) + n" "item_key j = k"
      "it_keylen j = length k" "it_valuelen j = n" "it_flags j = f" "it_rel_exptime j = x" "it_cas j = c"
    using item_append_ok[OF i1(2), of "b @ [13, 10]"] i1 n by auto
  have full: "complete j" using j n by (simp add: complete_def)
  have v: "item_value j = (a @ b) @ [13, 10]" using j by (simp add: item_value_def)
  then have "endsWithCRLF j" using endsWithCRLF_value[OF j(2) full] by blast
  then have st: "storable h j" using j full by (simp add: storable_def)
  have "payload j = a @ b" using storable_pieces(1)[OF st] v by simp
  then have "entry_of j = \<lparr>e_value = a @ b, e_flags = f, e_exptime = x, e_cas = c\<rparr>" using j by (simp add: entry_of_def)
  moreover have "neededBytes j = 0" using neededBytes_complete[OF j(2)] full by simp
  ultimately show ?thesis using i0(1) i1(1) j(1,6) st by blast
qed

definition joined_value :: "UpdatePolicy \<Rightarrow> byte list \<Rightarrow> byte list \<Rightarrow> byte list" where
  "joined_value p old new = (if p = kAppend then old @ new else new @ old)"

lemma joinItem_ok:
  assumes i: "storable h i" and old: "storable h old"
    and fits: "int (length (item_key i)) + it_valuelen i + it_valuelen old - 2 < 2 ^ 31"
  shows "\<exists>j. joinItem h p i old c = Some j \<and> storable h j \<and> item_key j = item_key i \<and>
    entry_of j = \<lparr>e_value = joined_value p (payload old) (payload i), e_flags = it_flags old,
                  e_exptime = it_rel_exptime old, e_cas = c\<rparr>"
proof -
  note I = storable_pieces[OF i] and O = storable_pieces[OF old]
  have n: "to_int32 (valueLength i + valueLength old - 2) = int (length (payload i) + length (payload old)) + 2"
    using fits I(4,5) O(4,5) by (subst to_int32_exact) auto
  let ?n = "int (length (payload i) + length (payload old)) + 2"
  have n': "?n = int (length (payload old) + length (payload i)) + 2" by simp
  have lim: "int (length (item_key i)) + ?n < 2 ^ 31"
    using fits unfolding I(5) O(5) of_nat_add by linarith
  show ?thesis
  proof (cases "p = kAppend")
    case True
    obtain i0 i1 j where "makeItem h (item_key i) (it_flags old) (it_rel_exptime old) ?n c = Some i0"
      "item_append (payload old) i0 = Some i1" "item_append (payload i @ [13, 10]) i1 = Some j" "storable h j"
      "neededBytes j = 0" "item_key j = item_key i"
      "entry_of j = \<lparr>e_value = payload old @ payload i, e_flags = it_flags old, e_exptime = it_rel_exptime old, e_cas = c\<rparr>"
      using join_two[OF n' lim, of h "it_flags old" "it_rel_exptime old" c] by blast
    then show ?thesis
      using True n I(2,3) O(2,3) by (simp add: joinItem_def joined_value_def storable_def)
  next
    case False
    obtain i0 i1 j where "makeItem h (item_key i) (it_flags old) (it_rel_exptime old) ?n c = Some i0"
      "item_append (payload i) i0 = Some i1" "item_append (payload old @ [13, 10]) i1 = Some j" "storable h j"
      "neededBytes j = 0" "item_key j = item_key i"
      "entry_of j = \<lparr>e_value = payload i @ payload old, e_flags = it_flags old, e_exptime = it_rel_exptime old, e_cas = c\<rparr>"
      using join_two[OF refl lim, of h "it_flags old" "it_rel_exptime old" c] by blast
    then show ?thesis
      using False n I(2,3) O(2,3) by (simp add: joinItem_def joined_value_def storable_def)
  qed
qed

section \<open>The server implements the abstract table\<close>

text \<open>The new value of an append has to fit into an \<open>int\<close>.\<close>

definition fits_after :: "(byte list \<Rightarrow> 64 word) \<Rightarrow> mitem \<Rightarrow> UpdatePolicy \<Rightarrow> store \<Rightarrow> bool" where
  "fits_after h i p s \<longleftrightarrow> (p = kAppend \<or> p = kPrepend \<longrightarrow>
     (\<forall>old. fst (table_of h s) (item_key i) = Some old \<longrightarrow>
        length (item_key i) + length (payload i) + length (e_value old) + 2 < 2 ^ 31))"

lemma lookup_wf:
  assumes "store_wf h s" and "item_wf h i"
  shows "fst (table_of h s) (item_key i) = map_option entry_of (shards s (shard_of i) (item_key i))"
    and "shards s (shard_of i) (item_key i) = Some old \<Longrightarrow> storable h old \<and> item_key old = item_key i"
  using assms by (auto simp: table_of_def shard_of_wf store_wf_def)

lemma join_step:
  assumes wf: "store_wf h s" and i: "storable h i" and old: "shards s (shard_of i) (item_key i) = Some old"
    and fits: "length (item_key i) + length (payload i) + length (payload old) + 2 < 2 ^ 31"
  shows "\<exists>j. joinItem h p i old (g_cas s + 1) = Some j \<and> store_wf h (put_item (shard_of i) j (s\<lparr>g_cas := g_cas s + 1\<rparr>)) \<and>
    table_of h (put_item (shard_of i) j (s\<lparr>g_cas := g_cas s + 1\<rparr>)) =
      spec_put (item_key i) ((entry_of old)\<lparr>e_value := joined_value p (payload old) (payload i)\<rparr>) (table_of h s)"
proof -
  have i': "item_wf h i" using i by (simp add: storable_def)
  have o: "storable h old" "item_key old = item_key i" using lookup_wf(2)[OF wf i' old] by auto
  obtain j where j: "joinItem h p i old (g_cas s + 1) = Some j" "storable h j" "item_key j = item_key i"
    "entry_of j = \<lparr>e_value = joined_value p (payload old) (payload i), e_flags = it_flags old,
                  e_exptime = it_rel_exptime old, e_cas = g_cas s + 1\<rparr>"
    using joinItem_ok[OF i o(1), of p "g_cas s + 1"] fits storable_pieces(5)[OF i] storable_pieces(5)[OF o(1)] by auto
  have wf': "store_wf h (s\<lparr>g_cas := g_cas s + 1\<rparr>)" using wf by (simp add: counter_wf)
  have n: "shard_of i = unat (h (item_key j)) mod kShards" using j(3) shard_of_wf[OF i'] by simp
  note P = put_item_wf[OF wf' j(2) n]
  have "table_of h t = (fst (table_of h t), g_cas t)" for t by (simp add: table_of_def)
  then have "table_of h (put_item (shard_of i) j (s\<lparr>g_cas := g_cas s + 1\<rparr>)) =
      spec_put (item_key i) ((entry_of old)\<lparr>e_value := joined_value p (payload old) (payload i)\<rparr>) (table_of h s)"
    using P(2,3) j(3,4) by (simp add: prod_eq_iff spec_put_def counter_wf entry_of_def[of old])
  then show ?thesis using j(1) P(1) by blast
qed

lemma storeItem_refines:
  assumes wf: "store_wf h s" and i: "storable h i" and p: "p \<noteq> kInvalidPolicy" and fits: "fits_after h i p s"
  shows "\<exists>s'. storeItem h i p s = Some (fst (spec_store p (item_key i) (entry_of i) (table_of h s)),
      fst (table_of h s) (item_key i) \<noteq> None, s') \<and> store_wf h s' \<and>
    table_of h s' = snd (spec_store p (item_key i) (entry_of i) (table_of h s))"
proof -
  have i': "item_wf h i" and need: "neededBytes i = 0" using i by (auto simp: storable_def neededBytes_complete)
  note put = put_with_new_cas_wf[OF wf i] and look = lookup_wf[OF wf i']
  show ?thesis
  proof (cases "p = kAppend \<or> p = kPrepend")
    case True
    show ?thesis
    proof (cases "shards s (shard_of i) (item_key i)")
      case None
      then show ?thesis using True wf need look(1) by (auto simp: storeItem_def)
    next
      case (Some old)
      have "length (item_key i) + length (payload i) + length (payload old) + 2 < 2 ^ 31"
        using fits True look(1) Some by (auto simp: fits_after_def entry_of_def)
      from join_step[OF wf i Some this, of p] True Some need look(1) show ?thesis
        by (auto simp: storeItem_def incrementAndGet_def joined_value_def entry_of_def)
    qed
  next
    case False
    then show ?thesis
      using p need put wf look(1) by (cases p; cases "shards s (shard_of i) (item_key i)")
        (auto simp: storeItem_def entry_of_def)
  qed
qed

lemma getItem_refines:
  assumes "it_hash key = h (item_key key)"
  shows "map_option entry_of (getItem key s) = fst (table_of h s) (item_key key)"
  using assms by (simp add: getItem_def table_of_def shard_of_def)

lemma deleteItem_refines:
  assumes "store_wf h s" and "it_hash key = h (item_key key)"
  shows "fst (deleteItem key s) \<longleftrightarrow> fst (table_of h s) (item_key key) \<noteq> None"
    and "store_wf h (snd (deleteItem key s))"
    and "table_of h (snd (deleteItem key s)) = ((fst (table_of h s))(item_key key := None), g_cas s)"
  using assms by (auto simp: deleteItem_def table_of_def shard_of_def Let_def store_wf_def)

section \<open>Versions\<close>

text \<open>
  A table whose entries carry the reading of a clock at which they were made: an operation may remove an
  entry or make a new one with the next reading.  As long as the clock does not wrap around, an entry that
  has its old version again was there all the time.
\<close>

fun trace_ops :: "('op \<Rightarrow> 's \<Rightarrow> 's option) \<Rightarrow> 'op list \<Rightarrow> 's \<Rightarrow> 's list option" where
  "trace_ops exec [] s = Some [s]"
| "trace_ops exec (op # ops) s = do { s' \<leftarrow> exec op s; ss \<leftarrow> trace_ops exec ops s'; Some (s # ss) }"

fun all_allowed :: "('op \<Rightarrow> 's \<Rightarrow> 's option) \<Rightarrow> ('op \<Rightarrow> 's \<Rightarrow> bool) \<Rightarrow> 'op list \<Rightarrow> 's \<Rightarrow> bool" where
  "all_allowed exec allowed [] s \<longleftrightarrow> True"
| "all_allowed exec allowed (op # ops) s \<longleftrightarrow>
     allowed op s \<and> (case exec op s of None \<Rightarrow> True | Some s' \<Rightarrow> all_allowed exec allowed ops s')"

locale versioned_table =
  fixes ok :: "'s \<Rightarrow> bool"
    and view :: "'s \<Rightarrow> 'k \<Rightarrow> 'e option"
    and ver :: "'e \<Rightarrow> nat"
    and clk :: "'s \<Rightarrow> nat"
    and exec :: "'op \<Rightarrow> 's \<Rightarrow> 's option"
    and allowed :: "'op \<Rightarrow> 's \<Rightarrow> bool"
    and limit :: nat
  assumes ver_le: "ok s \<Longrightarrow> view s k = Some e \<Longrightarrow> ver e \<le> clk s"
    and exec_ok: "ok s \<Longrightarrow> allowed op s \<Longrightarrow> clk s + 1 < limit \<Longrightarrow>
      \<exists>s'. exec op s = Some s' \<and> ok s' \<and> clk s \<le> clk s' \<and> clk s' \<le> clk s + 1 \<and>
        (\<forall>k. view s' k = view s k \<or> view s' k = None \<or> (\<exists>e. view s' k = Some e \<and> ver e = clk s + 1))"
begin

definition outdated :: "nat \<Rightarrow> 'k \<Rightarrow> 's \<Rightarrow> bool" where
  "outdated v k s \<longleftrightarrow> (case view s k of None \<Rightarrow> True | Some e \<Rightarrow> v < ver e)"

lemma trace_outdated:
  assumes "ok s" "all_allowed exec allowed ops s" "clk s + length ops < limit" "v \<le> clk s" "outdated v k s"
  shows "\<exists>ss. trace_ops exec ops s = Some ss \<and> ss \<noteq> [] \<and> ok (last ss) \<and> outdated v k (last ss) \<and> clk (last ss) \<le> clk s + length ops"
  using assms
proof (induction ops arbitrary: s)
  case (Cons op ops)
  obtain s' where s': "exec op s = Some s'" "ok s'" "clk s \<le> clk s'" "clk s' \<le> clk s + 1"
    and c: "view s' k = view s k \<or> view s' k = None \<or> (\<exists>e. view s' k = Some e \<and> ver e = clk s + 1)"
    using exec_ok[of s op] Cons.prems by (auto dest: spec[of _ k])
  have "outdated v k s'" using c Cons.prems(4,5) by (auto simp: outdated_def)
  then obtain ss where "trace_ops exec ops s' = Some ss" "ss \<noteq> []" "ok (last ss)" "outdated v k (last ss)"
    "clk (last ss) \<le> clk s' + length ops"
    using Cons.IH[of s'] Cons.prems s' by auto
  then show ?case using s' by auto
qed simp

lemma trace_version:
  assumes "ok s" "all_allowed exec allowed ops s" "clk s + length ops < limit" "view s k = Some e"
  shows "\<exists>ss. trace_ops exec ops s = Some ss \<and> ss \<noteq> [] \<and> ok (last ss) \<and> clk (last ss) \<le> clk s + length ops \<and>
    ((\<forall>t \<in> set ss. view t k = Some e) \<or> outdated (ver e) k (last ss))"
  using assms
proof (induction ops arbitrary: s)
  case (Cons op ops)
  obtain s' where s': "exec op s = Some s'" "ok s'" "clk s \<le> clk s'" "clk s' \<le> clk s + 1"
    and c: "view s' k = view s k \<or> view s' k = None \<or> (\<exists>e. view s' k = Some e \<and> ver e = clk s + 1)"
    using exec_ok[of s op] Cons.prems by (auto dest: spec[of _ k])
  have v: "ver e \<le> clk s" using ver_le Cons.prems by blast
  show ?case
  proof (cases "view s' k = Some e")
    case True
    then obtain ss where "trace_ops exec ops s' = Some ss" "ss \<noteq> []" "ok (last ss)" "clk (last ss) \<le> clk s' + length ops"
      "(\<forall>t \<in> set ss. view t k = Some e) \<or> outdated (ver e) k (last ss)"
      using Cons.IH[of s'] Cons.prems s' by auto
    then show ?thesis using s' Cons.prems(4) by auto
  next
    case False
    then have "outdated (ver e) k s'" using c v Cons.prems(4) by (auto simp: outdated_def)
    then obtain ss where "trace_ops exec ops s' = Some ss" "ss \<noteq> []" "ok (last ss)" "clk (last ss) \<le> clk s' + length ops"
      "outdated (ver e) k (last ss)"
      using trace_outdated[of s' ops "ver e" k] Cons.prems s' v by auto
    then show ?thesis using s' by auto
  qed
qed simp

text \<open>The same version means that the entry never changed.\<close>

lemma same_version:
  assumes "ok s" "all_allowed exec allowed ops s" "clk s + length ops < limit" "view s k = Some e"
  shows "\<exists>ss. trace_ops exec ops s = Some ss \<and> ss \<noteq> [] \<and> ok (last ss) \<and> clk (last ss) \<le> clk s + length ops \<and>
    ((\<exists>e'. view (last ss) k = Some e' \<and> ver e' = ver e) \<longleftrightarrow> (\<forall>t \<in> set ss. view t k = Some e))"
proof -
  obtain ss where ss: "trace_ops exec ops s = Some ss" "ss \<noteq> []" "ok (last ss)" "clk (last ss) \<le> clk s + length ops"
    "(\<forall>t \<in> set ss. view t k = Some e) \<or> outdated (ver e) k (last ss)"
    using trace_version[OF assms] by blast
  then have "(\<exists>e'. view (last ss) k = Some e' \<and> ver e' = ver e) \<longleftrightarrow> (\<forall>t \<in> set ss. view t k = Some e)"
    by (auto simp: outdated_def)
  with ss show ?thesis by blast
qed

end

section \<open>The server's operations\<close>

datatype store_op = Store mitem UpdatePolicy | Delete mitem

fun exec_op :: "(byte list \<Rightarrow> 64 word) \<Rightarrow> store_op \<Rightarrow> store \<Rightarrow> store option" where
  "exec_op h (Store i p) s = map_option (\<lambda>(r, exists, s'). s') (storeItem h i p s)"
| "exec_op h (Delete key) s = Some (snd (deleteItem key s))"

fun op_allowed :: "(byte list \<Rightarrow> 64 word) \<Rightarrow> store_op \<Rightarrow> store \<Rightarrow> bool" where
  "op_allowed h (Store i p) s \<longleftrightarrow> storable h i \<and> p \<noteq> kInvalidPolicy \<and> fits_after h i p s"
| "op_allowed h (Delete key) s \<longleftrightarrow> it_hash key = h (item_key key)"

definition store_ok :: "(byte list \<Rightarrow> 64 word) \<Rightarrow> store \<Rightarrow> bool" where
  "store_ok h s \<longleftrightarrow> store_wf h s \<and> (\<forall>k e. fst (table_of h s) k = Some e \<longrightarrow> unat (e_cas e) \<le> unat (g_cas s))"

lemma table_of_new: "table_of h (new_store now) = (Map.empty, 0)"
  by (simp add: table_of_def new_store_def)

lemma store_ok_new: "store_ok h (new_store now)"
  by (simp add: store_ok_def store_wf_new table_of_new)

lemma unat_Suc: "unat (c :: 64 word) + 1 < 2 ^ 64 \<Longrightarrow> unat (c + 1) = unat c + 1"
  by (simp add: unat_word_ariths(1))

lemma spec_store_cases: "snd (spec_store p k e t) = t \<or> (\<exists>e'. snd (spec_store p k e t) = spec_put k e' t)"
  by (cases p) (auto split: option.split)

lemma spec_put_change:
  assumes "\<forall>k e. fst t k = Some e \<longrightarrow> unat (e_cas e) \<le> unat (snd t)" and "unat (snd t) + 1 < 2 ^ 64"
    and t': "t' = spec_put k0 e0 t"
  shows "\<forall>k e. fst t' k = Some e \<longrightarrow> unat (e_cas e) \<le> unat (snd t')" "unat (snd t') = unat (snd t) + 1"
    "fst t' k = fst t k \<or> (\<exists>e. fst t' k = Some e \<and> unat (e_cas e) = unat (snd t) + 1)"
  using assms(1) unat_Suc[OF assms(2)] unfolding t' by (auto simp: spec_put_def le_SucI)

lemma store_ok_table:
  "store_ok h s \<longleftrightarrow> store_wf h s \<and> (\<forall>k e. fst (table_of h s) k = Some e \<longrightarrow> unat (e_cas e) \<le> unat (snd (table_of h s)))"
  by (simp add: store_ok_def table_of_def)

lemma snd_table_of [simp]: "snd (table_of h s) = g_cas s"
  by (simp add: table_of_def)

lemma exec_op_step:
  assumes ok: "store_ok h s" and "op_allowed h op s" and lim: "unat (g_cas s) + 1 < 2 ^ 64"
  shows "\<exists>s'. exec_op h op s = Some s' \<and> store_ok h s' \<and> unat (g_cas s) \<le> unat (g_cas s') \<and>
    unat (g_cas s') \<le> unat (g_cas s) + 1 \<and>
    (\<forall>k. fst (table_of h s') k = fst (table_of h s) k \<or> fst (table_of h s') k = None \<or>
      (\<exists>e. fst (table_of h s') k = Some e \<and> unat (e_cas e) = unat (g_cas s) + 1))"
proof (cases op)
  case (Delete key)
  then have key: "it_hash key = h (item_key key)" using assms(2) by simp
  have wf: "store_wf h s" using ok by (simp add: store_ok_def)
  have "g_cas (snd (deleteItem key s)) = g_cas s" by (simp add: deleteItem_def Let_def)
  then show ?thesis
    using deleteItem_refines[OF wf key] ok Delete by (auto simp: store_ok_def)
next
  case (Store i p)
  let ?t = "table_of h s"
  have wf: "store_wf h s" and old: "\<forall>k e. fst ?t k = Some e \<longrightarrow> unat (e_cas e) \<le> unat (snd ?t)"
    using ok by (simp_all add: store_ok_table)
  obtain s' where s': "exec_op h op s = Some s'" "store_wf h s'"
    "table_of h s' = snd (spec_store p (item_key i) (entry_of i) ?t)"
    using storeItem_refines[OF wf, of i p] assms(2) Store by auto
  consider "table_of h s' = ?t" | e where "table_of h s' = spec_put (item_key i) e ?t"
    using spec_store_cases[of p "item_key i" "entry_of i" ?t] s'(3) by auto
  then show ?thesis
  proof cases
    case 1
    then have "g_cas s' = g_cas s" by (metis snd_table_of)
    then show ?thesis using 1 s' old by (auto simp: store_ok_table)
  next
    case 2
    have lim': "unat (snd ?t) + 1 < 2 ^ 64" using lim by simp
    note C = spec_put_change[OF old lim' 2]
    show ?thesis using s'(1,2) C(1,2) C(3) unfolding store_ok_table snd_table_of by (intro exI[of _ s']) auto
  qed
qed

interpretation vt: versioned_table "store_ok h" "\<lambda>s. fst (table_of h s)" "\<lambda>e. unat (e_cas e)" "\<lambda>s. unat (g_cas s)"
  "exec_op h" "op_allowed h" "2 ^ 64" for h
  by unfold_locales (use exec_op_step in \<open>auto simp: store_ok_def\<close>)

section \<open>Properties\<close>

text \<open>
  C13.  The sharded hash table implements one map from keys to entries: \<open>storeItem\<close> does what the policy says
  (set always, add only if absent, replace, append and prepend only if present, cas only if the
  version is the one given), returns whether it did and whether the key was there, and leaves every other key
  alone, whatever the hash function; \<open>getItem\<close> and \<open>deleteItem\<close> look up and remove.  No assertion fails.
\<close>

theorem memcache_table:
  assumes "store_wf h s" and "storable h i" and "p \<noteq> kInvalidPolicy" and "fits_after h i p s"
    and "it_hash key = h (item_key key)"
  shows "(\<exists>s'. storeItem h i p s = Some (fst (spec_store p (item_key i) (entry_of i) (table_of h s)),
        fst (table_of h s) (item_key i) \<noteq> None, s') \<and> store_wf h s' \<and>
      table_of h s' = snd (spec_store p (item_key i) (entry_of i) (table_of h s))) \<and>
    map_option entry_of (getItem key s) = fst (table_of h s) (item_key key) \<and>
    fst (deleteItem key s) = (fst (table_of h s) (item_key key) \<noteq> None) \<and>
    store_wf h (snd (deleteItem key s)) \<and>
    table_of h (snd (deleteItem key s)) = ((fst (table_of h s))(item_key key := None), snd (table_of h s))"
  using storeItem_refines[OF assms(1-4)] getItem_refines[of key h s] deleteItem_refines[of h s key] assms by simp

definition sample_item :: "64 word \<Rightarrow> mitem" where
  "sample_item c = \<lparr>it_keylen = 1, it_flags = 7, it_rel_exptime = 0, it_valuelen = 4, it_receivedBytes = 5,
     it_cas = c, it_hash = 3, it_data = [107, 1, 2, 13, 10], it_capacity = 5\<rparr>"

lemma sample_item_facts:
  "storable (\<lambda>k. 3) (sample_item c)" "item_key (sample_item c) = [107]" "it_cas (sample_item c) = c"
  "it_hash (sample_item c) = 3" "payload (sample_item c) = [1, 2]"
  by (simp_all add: sample_item_def storable_def item_wf_def complete_def endsWithCRLF_def totalLen_def item_key_def
      payload_def item_value_def)

theorem memcache_table_witness:
  "\<exists>s'. storeItem (\<lambda>k. 3) (sample_item 0) kSet (new_store 0) = Some (True, False, s') \<and>
     fst (table_of (\<lambda>k. 3) s') [107] = Some \<lparr>e_value = [1, 2], e_flags = 7, e_exptime = 0, e_cas = 1\<rparr>"
proof -
  have "fits_after (\<lambda>k. 3) (sample_item 0) kSet (new_store 0)" by (simp add: fits_after_def)
  from memcache_table[OF store_wf_new sample_item_facts(1) _ this, of "sample_item 0"] obtain s' where
    s': "storeItem (\<lambda>k. 3) (sample_item 0) kSet (new_store 0) =
        Some (True, fst (table_of (\<lambda>k. 3) (new_store 0)) [107] \<noteq> None, s')"
      "table_of (\<lambda>k. 3) s' = spec_put [107] (entry_of (sample_item 0)) (table_of (\<lambda>k. 3) (new_store 0))"
    by (auto simp: sample_item_facts)
  then show ?thesis
    by (simp add: table_of_new spec_put_def entry_of_def sample_item_facts) (simp add: sample_item_def)
qed

text \<open>
  C15.  A compare-and-swap detects every change: if \<open>gets\<close> returned the entry \<open>e\<close> of a key, and after any sequence
  of stores and deletions a \<open>cas\<close> with its version arrives, the \<open>cas\<close> stores its item if and only if the
  entry was \<open>e\<close> all the time in between (provided that the 64-bit counter does not wrap around).
\<close>

theorem memcache_cas:
  assumes "store_ok h s" and "fst (table_of h s) (item_key i) = Some e" and "all_allowed (exec_op h) (op_allowed h) ops s"
    and "unat (g_cas s) + length ops < 2 ^ 64" and "storable h i" and "it_cas i = e_cas e"
  shows "\<exists>ss s'. trace_ops (exec_op h) ops s = Some ss \<and>
    storeItem h i kCas (last ss) = Some (\<forall>t \<in> set ss. fst (table_of h t) (item_key i) = Some e,
      fst (table_of h (last ss)) (item_key i) \<noteq> None, s')"
proof -
  obtain ss where ss: "trace_ops (exec_op h) ops s = Some ss" "store_ok h (last ss)"
    "(\<exists>e'. fst (table_of h (last ss)) (item_key i) = Some e' \<and> unat (e_cas e') = unat (e_cas e)) \<longleftrightarrow>
     (\<forall>t \<in> set ss. fst (table_of h t) (item_key i) = Some e)"
    using vt.same_version[OF assms(1,3,4,2)] by blast
  have wf: "store_wf h (last ss)" using ss(2) by (simp add: store_ok_def)
  have "fits_after h i kCas (last ss)" by (simp add: fits_after_def)
  from storeItem_refines[OF wf assms(5) _ this] obtain s' where
    "storeItem h i kCas (last ss) = Some (fst (spec_store kCas (item_key i) (entry_of i) (table_of h (last ss))),
      fst (table_of h (last ss)) (item_key i) \<noteq> None, s')" by auto
  moreover have "fst (spec_store kCas (item_key i) (entry_of i) (table_of h (last ss))) \<longleftrightarrow>
      (\<forall>t \<in> set ss. fst (table_of h t) (item_key i) = Some e)"
    using ss(3) assms(6) unfolding word_unat_eq_iff[symmetric] by (auto simp: entry_of_def split: option.splits)
  ultimately show ?thesis using ss(1) by auto
qed

theorem memcache_cas_witness:
  "\<exists>s ss s'. store_ok (\<lambda>k. 3) s \<and> trace_ops (exec_op (\<lambda>k. 3)) [Store (sample_item 0) kSet] s = Some ss \<and>
     storeItem (\<lambda>k. 3) (sample_item 1) kCas (last ss) = Some (False, True, s')"
proof -
  let ?h = "\<lambda>k :: byte list. 3 :: 64 word" let ?i = "sample_item 0" let ?n = "shard_of ?i"
  define s1 where "s1 = put_with_new_cas ?n ?i (new_store 0)"
  define s2 where "s2 = put_with_new_cas ?n ?i s1"
  have al: "op_allowed ?h (Store ?i kSet) t" for t by (simp add: sample_item_facts fits_after_def)
  have ex: "exec_op ?h (Store ?i kSet) t = Some (put_with_new_cas ?n ?i t)" for t
    using neededBytes_complete[of ?h ?i] sample_item_facts(1)[of 0] by (simp add: storeItem_def storable_def Let_def)
  have g: "unat (g_cas (new_store 0)) + 1 < 2 ^ 64" by (simp add: new_store_def)
  have ok: "store_ok ?h s1"
    using exec_op_step[OF store_ok_new al g] by (simp add: ex s1_def del: exec_op.simps)
  have t1: "table_of ?h s1 = spec_put [107] (entry_of ?i) (Map.empty, 0)"
    using put_with_new_cas_wf(2)[OF store_wf_new sample_item_facts(1), of 0] by (simp add: s1_def sample_item_facts table_of_new)
  have t2: "table_of ?h s2 = spec_put [107] (entry_of ?i) (table_of ?h s1)"
    using put_with_new_cas_wf(2)[OF _ sample_item_facts(1), of s1] ok by (simp add: s2_def sample_item_facts store_ok_def)
  have g1: "g_cas s1 = 1" using arg_cong[OF t1, of snd] by (simp add: spec_put_def)
  have e1: "fst (table_of ?h s1) (item_key (sample_item 1)) = Some ((entry_of ?i)\<lparr>e_cas := 1\<rparr>)"
    by (simp add: t1 spec_put_def sample_item_facts)
  have tr: "trace_ops (exec_op ?h) [Store ?i kSet] s1 = Some [s1, s2]"
    by (simp add: ex s2_def del: exec_op.simps)
  have aa: "all_allowed (exec_op ?h) (op_allowed ?h) [Store ?i kSet] s1"
    using al by (simp add: ex del: exec_op.simps op_allowed.simps)
  have lim: "unat (g_cas s1) + length [Store ?i kSet] < 2 ^ 64" by (simp add: g1)
  have cas: "it_cas (sample_item 1) = e_cas ((entry_of ?i)\<lparr>e_cas := 1\<rparr>)" by (simp add: sample_item_facts)
  have "fst (table_of ?h s2) [107] = Some ((entry_of ?i)\<lparr>e_cas := 2\<rparr>)"
    by (simp add: t2 t1 spec_put_def)
  moreover have "(entry_of ?i)\<lparr>e_cas := 2\<rparr> \<noteq> (entry_of ?i)\<lparr>e_cas := 1\<rparr>" by (simp add: entry_of_def)
  ultimately have "\<exists>s'. storeItem ?h (sample_item 1) kCas s2 = Some (False, True, s')"
    using memcache_cas[OF ok e1 aa lim sample_item_facts(1) cas] tr by (simp add: sample_item_facts del: exec_op.simps)
  then show ?thesis using ok tr by (metis last.simps list.distinct(1))
qed

end
