(* ===== verification/Memcache_Session.thy ===== *)
theory Memcache_Session
  imports Memcache_Store
begin

text \<open>
  A session of the memcached server (\<open>examples/memcached/server/Session.h\<close>, \<open>Session.cc\<close>): the text
  protocol on the input buffer of a connection, over the store of \<open>Memcache_Store\<close>.  What the session asks of its
  connection is recorded in \<open>conn_calls\<close>; how much room the connection's output buffer has, and whether the
  connection is still in the state \<open>kConnected\<close>, are arguments, functions of these calls.  \<open>None\<close> is a failed assertion or undefined behaviour, and a
  message handler that does not return is the outer \<open>None\<close>.
\<close>

section \<open>Words of a line\<close>

text \<open>\<open>boost::tokenizer\<close> with \<open>SpaceSeparator\<close>: the parts between spaces, without the empty ones.\<close>

function tokens :: "byte list \<Rightarrow> byte list list" where
  "tokens s =
     (let next = dropWhile (\<lambda>c. c = 32) s
      in if next = [] then [] else takeWhile (\<lambda>c. c \<noteq> 32) next # tokens (dropWhile (\<lambda>c. c \<noteq> 32) next))"
  by pat_completeness auto
termination
proof (relation "measure length")
  fix s :: "byte list" and x
  assume x: "x = dropWhile (\<lambda>c. c = 32) s" "x \<noteq> []"
  then have "hd x \<noteq> 32" using hd_dropWhile by blast
  with x(2) have "length (dropWhile (\<lambda>c. c \<noteq> 32) x) < length x"
    by (cases x) (simp_all add: length_dropWhile_le less_Suc_eq_le)
  moreover have "length x \<le> length s" using x(1) by (simp add: length_dropWhile_le)
  ultimately show "(dropWhile (\<lambda>c. c \<noteq> 32) x, s) \<in> measure length" by simp
qed simp

declare tokens.simps [simp del]

text \<open>
  \<open>strtoull\<close> on a word: leading white space, a sign, digits; the result saturates and a minus sign negates it
  modulo \<open>2 ^ 64\<close>.  \<open>None\<close>: it does not stop at the end of the word.  The byte after a word is a space or
  a carriage return, so \<open>strtoull\<close> never reads digits beyond it.
\<close>

definition is_white :: "byte \<Rightarrow> bool" where
  "is_white c \<longleftrightarrow> c = 32 \<or> 9 \<le> c \<and> c \<le> 13"

definition is_digit :: "byte \<Rightarrow> bool" where
  "is_digit c \<longleftrightarrow> 48 \<le> c \<and> c \<le> 57"

definition dec_value :: "byte list \<Rightarrow> nat" where
  "dec_value ds = foldl (\<lambda>a c. a * 10 + (unat c - 48)) 0 ds"

definition strtoull :: "byte list \<Rightarrow> 64 word option" where
  "strtoull s =
     (let s1 = dropWhile is_white s;
          neg = (s1 \<noteq> [] \<and> hd s1 = 45);
          s2 = (if s1 \<noteq> [] \<and> (hd s1 = 45 \<or> hd s1 = 43) then tl s1 else s1)
      in if s2 = [] \<or> \<not> list_all is_digit s2 then None
         else if dec_value s2 \<ge> 2 ^ 64 then Some (- 1)
         else Some (if neg then - word_of_nat (dec_value s2) else word_of_nat (dec_value s2)))"

text \<open>\<open>Reader::read\<close>: the number in the first word, and the words after it.\<close>

fun reader_read :: "byte list list \<Rightarrow> (64 word \<times> byte list list) option" where
  "reader_read [] = None"
| "reader_read (w # ws) = map_option (\<lambda>x. (x, ws)) (strtoull w)"

section \<open>The session\<close>

datatype sess_state = kNewCommand | kReceiveValue | kDiscardValue
datatype protocol = kAscii | kBinary | kAuto

datatype conn_call = ConnSend "byte list" | ConnShutdown | ConnShrinkOutput nat

record session =
  state :: sess_state
  protocol :: protocol
  command :: "byte list"
  noreply :: bool
  policy :: UpdatePolicy
  currItem :: "mitem option"
  bytesToDiscard :: nat
  needle :: mitem
  outputBuf :: buffer
  bytesRead :: nat
  requestsProcessed :: nat
  conn_calls :: "conn_call list"

record sess_env =
  hash_range :: "byte list \<Rightarrow> 64 word"
  out_writable :: "conn_call list \<Rightarrow> nat"
  is_connected :: "conn_call list \<Rightarrow> bool"

definition kLongestKeySize :: nat where "kLongestKeySize = 250"

definition kLongestKey :: "byte list" where "kLongestKey = replicate kLongestKeySize 120"

definition isBinaryProtocol :: "byte \<Rightarrow> bool" where
  "isBinaryProtocol firstByte \<longleftrightarrow> firstByte = 0x80"

definition new_Session :: "sess_env \<Rightarrow> session option" where
  "new_Session e = do {
     needle \<leftarrow> makeItem (hash_range e) kLongestKey 0 0 2 0;
     outbuf \<leftarrow> new_Buffer kInitialSize;
     Some \<lparr>state = kNewCommand, protocol = kAscii, command = [], noreply = False, policy = kInvalidPolicy,
           currItem = None, bytesToDiscard = 0, needle = needle, outputBuf = outbuf, bytesRead = 0,
           requestsProcessed = 0, conn_calls = []\<rparr>
   }"

definition conn_call :: "conn_call \<Rightarrow> session \<Rightarrow> session" where
  "conn_call c s = s\<lparr>conn_calls := conn_calls s @ [c]\<rparr>"

definition reply :: "string \<Rightarrow> session \<Rightarrow> session" where
  "reply msg s = (if \<not> noreply s then conn_call (ConnSend (bytes_of msg)) s else s)"

definition resetRequest :: "session \<Rightarrow> session" where
  "resetRequest s = s\<lparr>command := [], noreply := False, policy := kInvalidPolicy, currItem := None, bytesToDiscard := 0\<rparr>"

text \<open>A line end in a reply.\<close>

definition line_end :: string where "line_end = [CHR 0x0D, CHR 0x0A]"

section \<open>Updates\<close>

definition policy_of :: "byte list \<Rightarrow> UpdatePolicy" where
  "policy_of c =
     (if c = bytes_of ''set'' then kSet
      else if c = bytes_of ''add'' then kAdd
      else if c = bytes_of ''replace'' then kReplace
      else if c = bytes_of ''append'' then kAppend
      else if c = bytes_of ''prepend'' then kPrepend
      else if c = bytes_of ''cas'' then kCas
      else kInvalidPolicy)"

definition to_int :: "64 word \<Rightarrow> int" where
  "to_int x = sint (ucast x :: 32 word)"

text \<open>The numbers of an update command; \<open>None\<close> when the line is not \<open>good\<close>.\<close>

definition read_update ::
    "UpdatePolicy \<Rightarrow> byte list \<Rightarrow> byte list list \<Rightarrow> (32 word \<times> int \<times> int \<times> 64 word) option" where
  "read_update p key ws = do {
     assert_that (length key \<le> kLongestKeySize);
     (flags, ws1) \<leftarrow> reader_read ws;
     (exptime, ws2) \<leftarrow> reader_read ws1;
     (bytes, ws3) \<leftarrow> reader_read ws2;
     cas \<leftarrow> (if p = kCas then map_option fst (reader_read ws3) else Some 0);
     Some (ucast flags, sint exptime, to_int bytes, cas)
   }"

definition rel_exptime :: "int \<Rightarrow> int \<Rightarrow> int" where
  "rel_exptime start exptime =
     (if exptime > 60 * 60 * 24 * 30
      then (let r = to_int (word_of_int (exptime - start)) in if r < 1 then 1 else r)
      else to_int (word_of_int exptime))"

definition doUpdate :: "sess_env \<Rightarrow> byte list list \<Rightarrow> session \<Rightarrow> store \<Rightarrow> (bool \<times> session \<times> store) option" where
  "doUpdate e ws s st = do {
     let p = policy_of (command s);
     assert_that (p \<noteq> kInvalidPolicy);
     let s1 = s\<lparr>policy := p\<rparr>;
     assert_that (ws \<noteq> []);
     let key = hd ws;
     (case read_update p key (tl ws) of
        None \<Rightarrow> Some (True, reply (''CLIENT_ERROR bad command line format'' @ line_end) s1, st)
      | Some (flags, exptime, bytes, cas) \<Rightarrow>
          if bytes > 1024 * 1024 then do {
            let s2 = reply (''SERVER_ERROR object too large for cache'' @ line_end) s1;
            needle' \<leftarrow> resetKey (hash_range e) key (needle s2);
            let st' = snd (deleteItem needle' st);
            assert_that (bytes + 2 < 2 ^ 31);
            Some (False, s2\<lparr>needle := needle', bytesToDiscard := of_int32 (bytes + 2), state := kDiscardValue\<rparr>, st')
          } else do {
            i \<leftarrow> makeItem (hash_range e) key flags (rel_exptime (startTime st) exptime) (bytes + 2) cas;
            Some (False, s1\<lparr>currItem := Some i, state := kReceiveValue\<rparr>, st)
          })
   }"

definition doDelete :: "sess_env \<Rightarrow> byte list list \<Rightarrow> session \<Rightarrow> store \<Rightarrow> (session \<times> store) option" where
  "doDelete e ws s st = do {
     assert_that (command s = bytes_of ''delete'');
     assert_that (ws \<noteq> []);
     let key = hd ws;
     let rest = tl ws;
     if \<not> length key \<le> kLongestKeySize then
       Some (reply (''CLIENT_ERROR bad command line format'' @ line_end) s, st)
     else if rest \<noteq> [] \<and> hd rest \<noteq> bytes_of ''0'' then
       Some (reply (''CLIENT_ERROR bad command line format.  Usage: delete <key> [noreply]'' @ line_end) s, st)
     else do {
       needle' \<leftarrow> resetKey (hash_range e) key (needle s);
       let r = deleteItem needle' st;
       let s1 = s\<lparr>needle := needle'\<rparr>;
       Some (if fst r then reply (''DELETED'' @ line_end) s1 else reply (''NOT_FOUND'' @ line_end) s1, snd r)
     }
   }"

section \<open>Requests\<close>

text \<open>The loop of \<open>get\<close> and \<open>gets\<close>; the result tells whether all keys were good.\<close>

fun get_keys :: "sess_env \<Rightarrow> bool \<Rightarrow> byte list list \<Rightarrow> session \<Rightarrow> store \<Rightarrow> (bool \<times> session) option" where
  "get_keys e cas [] s st = Some (True, s)"
| "get_keys e cas (key # ws) s st =
     (if \<not> length key \<le> kLongestKeySize then
        Some (False, reply (''CLIENT_ERROR bad command line format'' @ line_end) s)
      else do {
        needle' \<leftarrow> resetKey (hash_range e) key (needle s);
        let s1 = s\<lparr>needle := needle'\<rparr>;
        (case getItem needle' st of
           None \<Rightarrow> get_keys e cas ws s1 st
         | Some item \<Rightarrow> do {
             out \<leftarrow> item_output cas item (outputBuf s1);
             get_keys e cas ws (s1\<lparr>outputBuf := out\<rparr>) st
           })
      })"

text \<open>
  After the loop: the end mark, the shrinking of the connection's buffer, and sending.  \<open>TcpConnection::send\<close>
  empties the buffer only when it is connected.
\<close>

definition get_finish :: "sess_env \<Rightarrow> session \<Rightarrow> session option" where
  "get_finish e s = do {
     out \<leftarrow> append (outputBuf s) (bytes_of (''END'' @ line_end)) 5;
     let n = readableBytes out;
     let s1 = (if out_writable e (conn_calls s) > 65536 + n then conn_call (ConnShrinkOutput (65536 + n)) s else s);
     Some (conn_call (ConnSend (content out)) (s1\<lparr>outputBuf := if is_connected e (conn_calls s1) then retrieveAll out else out\<rparr>))
   }"

definition has_noreply :: "byte list \<Rightarrow> bool" where
  "has_noreply request \<longleftrightarrow> length request \<ge> 8 \<and> drop (length request - 8) request = bytes_of '' noreply''"

definition is_update :: "byte list \<Rightarrow> bool" where
  "is_update c \<longleftrightarrow> c = bytes_of ''set'' \<or> c = bytes_of ''add'' \<or> c = bytes_of ''replace'' \<or>
     c = bytes_of ''append'' \<or> c = bytes_of ''prepend'' \<or> c = bytes_of ''cas''"

definition processRequest :: "sess_env \<Rightarrow> byte list \<Rightarrow> session \<Rightarrow> store \<Rightarrow> (bool \<times> session \<times> store) option" where
  "processRequest e request0 s0 st = do {
     assert_that (command s0 = []);
     assert_that (\<not> noreply s0);
     assert_that (policy s0 = kInvalidPolicy);
     assert_that (currItem s0 = None);
     assert_that (bytesToDiscard s0 = 0);
     let s1 = s0\<lparr>requestsProcessed := requestsProcessed s0 + 1, noreply := has_noreply request0\<rparr>;
     let request = (if has_noreply request0 then take (length request0 - 8) request0 else request0);
     (case tokens request of
        [] \<Rightarrow> Some (True, reply (''ERROR'' @ line_end) s1, st)
      | c # ws \<Rightarrow>
          (let s = s1\<lparr>command := c\<rparr>
           in if is_update c then doUpdate e ws s st
              else if c = bytes_of ''get'' \<or> c = bytes_of ''gets'' then do {
                (good, s2) \<leftarrow> get_keys e (c = bytes_of ''gets'') ws s st;
                if good then do { s3 \<leftarrow> get_finish e s2; Some (True, s3, st) }
                else Some (True, s2, st)
              }
              else if c = bytes_of ''delete'' then do { (s2, st') \<leftarrow> doDelete e ws s st; Some (True, s2, st') }
              else if c = bytes_of ''version'' then Some (True, reply (''VERSION 0.01 muduo'' @ line_end) s, st)
              else if c = bytes_of ''quit'' then Some (True, conn_call ConnShutdown s, st)
              else if c = bytes_of ''shutdown'' then Some (True, conn_call ConnShutdown s, server_stop st)
              else Some (True, reply (''ERROR'' @ line_end) s, st)))
   }"

section \<open>Values\<close>

definition stored_reply :: "bool \<Rightarrow> bool \<Rightarrow> UpdatePolicy \<Rightarrow> string" where
  "stored_reply stored exists p =
     (if stored then ''STORED'' @ line_end
      else if p = kCas then (if exists then ''EXISTS'' @ line_end else ''NOT_FOUND'' @ line_end)
      else ''NOT_STORED'' @ line_end)"

definition receiveValue :: "sess_env \<Rightarrow> session \<Rightarrow> store \<Rightarrow> buffer \<Rightarrow> (session \<times> store \<times> buffer) option" where
  "receiveValue e s st b = do {
     i \<leftarrow> currItem s;
     assert_that (state s = kReceiveValue);
     let avail = min (readableBytes b) (neededBytes i);
     i' \<leftarrow> item_append (vec_range (buf b) (peek b) (peek b + avail)) i;
     b' \<leftarrow> retrieve b avail;
     let s1 = s\<lparr>currItem := Some i'\<rparr>;
     if neededBytes i' = 0 then do {
       (s2, st') \<leftarrow> (if endsWithCRLF i' then do {
                       (stored, exists, st') \<leftarrow> storeItem (hash_range e) i' (policy s1) st;
                       Some (reply (stored_reply stored exists (policy s1)) s1, st')
                     } else Some (reply (''CLIENT_ERROR bad data chunk'' @ line_end) s1, st));
       Some ((resetRequest s2)\<lparr>state := kNewCommand\<rparr>, st', b')
     } else Some (s1, st, b')
   }"

definition discardValue :: "session \<Rightarrow> buffer \<Rightarrow> (session \<times> buffer) option" where
  "discardValue s b = do {
     assert_that (currItem s = None);
     assert_that (state s = kDiscardValue);
     if readableBytes b < bytesToDiscard s then
       Some (s\<lparr>bytesToDiscard := bytesToDiscard s - readableBytes b\<rparr>, retrieveAll b)
     else do {
       b' \<leftarrow> retrieve b (bytesToDiscard s);
       Some ((resetRequest (s\<lparr>bytesToDiscard := 0\<rparr>))\<lparr>state := kNewCommand\<rparr>, b')
     }
   }"

section \<open>The message handler\<close>

text \<open>One command line, and whether there was one; if not, the loop ends.\<close>

definition commandLine ::
    "sess_env \<Rightarrow> session \<Rightarrow> store \<Rightarrow> buffer \<Rightarrow> (bool \<times> session \<times> store \<times> buffer) option" where
  "commandLine e s st b =
     (case findCRLF b of
        Some crlf \<Rightarrow> do {
          let len = to_int32 (crlf - peek b);
          assert_that (0 \<le> len);
          (finished, s1, st') \<leftarrow> processRequest e (vec_range (buf b) (peek b) (peek b + nat len)) s st;
          let s2 = (if finished then resetRequest s1 else s1);
          b' \<leftarrow> retrieveUntil b (crlf + 2);
          Some (True, s2, st', b')
        }
      | None \<Rightarrow> Some (False, if readableBytes b > 1024 then conn_call ConnShutdown s else s, st, b))"

text \<open>The body of the loop, which tells whether the loop goes on.  The binary protocol does nothing.\<close>

definition loop_body ::
    "sess_env \<Rightarrow> session \<Rightarrow> store \<Rightarrow> buffer \<Rightarrow> (bool \<times> session \<times> store \<times> buffer) option" where
  "loop_body e s st b =
     (case state s of
        kNewCommand \<Rightarrow> do {
          assert_that (protocol s = kAuto \<longrightarrow> bytesRead s = 0);
          let s1 = (if protocol s = kAuto
                    then s\<lparr>protocol := (if isBinaryProtocol (buf b ! peek b) then kBinary else kAscii)\<rparr> else s);
          if protocol s1 = kBinary then Some (True, s1, st, b) else commandLine e s1 st b
        }
      | kReceiveValue \<Rightarrow> do { (s', st', b') \<leftarrow> receiveValue e s st b; Some (True, s', st', b') }
      | kDiscardValue \<Rightarrow> do { (s', b') \<leftarrow> discardValue s b; Some (True, s', st, b') })"

partial_function (option) message_loop ::
    "sess_env \<Rightarrow> session \<Rightarrow> store \<Rightarrow> buffer \<Rightarrow> (session \<times> store \<times> buffer) option option" where
  "message_loop e s st b =
     (if readableBytes b > 0 then
        (case loop_body e s st b of
           None \<Rightarrow> Some None
         | Some (continues, s', st', b') \<Rightarrow>
             if continues then message_loop e s' st' b' else Some (Some (s', st', b')))
      else Some (Some (s, st, b)))"

definition onMessage :: "sess_env \<Rightarrow> session \<Rightarrow> store \<Rightarrow> buffer \<Rightarrow> (session \<times> store \<times> buffer) option option" where
  "onMessage e s st b = do {
     r \<leftarrow> message_loop e s st b;
     Some (map_option (\<lambda>(s', st', b').
       (s'\<lparr>bytesRead := uadd (bytesRead s') (usub (readableBytes b) (readableBytes b'))\<rparr>, st', b')) r)
   }"

section \<open>The sessions of the server\<close>

definition server_onConnection ::
    "sess_env \<Rightarrow> bool \<Rightarrow> string \<Rightarrow> (string \<rightharpoonup> session) \<Rightarrow> (string \<rightharpoonup> session) option" where
  "server_onConnection e conn_connected name sessions =
     (if conn_connected then do {
        session \<leftarrow> new_Session e;
        assert_that (sessions name = None);
        Some (sessions(name \<mapsto> session))
      } else do {
        assert_that (sessions name \<noteq> None);
        Some (sessions(name := None))
      })"

end
