(* ===== verification/Memcache_Protocol.thy ===== *)
theory Memcache_Protocol
  imports Memcache_Session
begin

text \<open>
  What the sessions of the memcached server do: which request lines make the server abort, that a session
  does not depend on how its bytes are cut into messages, and what a client reads back.
\<close>

section \<open>Words\<close>

lemma length_tokens: "length (tokens s) \<le> length s"
proof (induction s rule: tokens.induct)
  case (1 s)
  let ?x = "dropWhile (\<lambda>c. c = 32) s"
  show ?case
  proof (cases "?x = []")
    case False
    then have "hd ?x \<noteq> 32" using hd_dropWhile by blast
    with False have "Suc (length (dropWhile (\<lambda>c. c \<noteq> 32) ?x)) \<le> length ?x"
      by (cases ?x) (simp_all add: length_dropWhile_le)
    moreover have "length (tokens (dropWhile (\<lambda>c. c \<noteq> 32) ?x)) \<le> length (dropWhile (\<lambda>c. c \<noteq> 32) ?x)"
      using 1 False by blast
    moreover have "length ?x \<le> length s" by (rule length_dropWhile_le)
    moreover have "length (tokens s) = Suc (length (tokens (dropWhile (\<lambda>c. c \<noteq> 32) ?x)))"
      using False by (subst tokens.simps) (simp add: Let_def)
    ultimately show ?thesis by linarith
  qed (simp add: tokens.simps[of s])
qed

definition request_words :: "byte list \<Rightarrow> byte list list" where
  "request_words r = tokens (if has_noreply r then take (length r - 8) r else r)"

lemma length_request_words: "length (request_words r) \<le> length r"
  using length_tokens[of r] length_tokens[of "take (length r - 8) r"] by (auto simp: request_words_def)

section \<open>What get prints\<close>

definition entry_text :: "bool \<Rightarrow> byte list \<Rightarrow> entry \<Rightarrow> byte list" where
  "entry_text cas k e = bytes_of ''VALUE '' @ k @
     bytes_of ('' '' @ show_nat (unat (e_flags e)) @ '' '' @ show_nat (length (e_value e)) @
       (if cas then '' '' @ show_nat (unat (e_cas e)) else []) @ line_end) @ e_value e @ [13, 10]"

lemma log_spec_fits:
  "sum_list (map room xs) + length s \<le> N \<Longrightarrow> list_all (\<lambda>x. length (render x) \<le> room x) xs \<Longrightarrow>
   log_spec N s xs = s @ concat (map render xs)"
proof (induction xs arbitrary: s)
  case (Cons x xs)
  then have "log_spec N (s @ render x) xs = (s @ render x) @ concat (map render xs)"
    by (intro Cons.IH) auto
  moreover have "room x \<le> N - length s" using Cons.prems by simp
  ultimately show ?case by simp
qed simp

lemma length_bytes_of [simp]: "length (bytes_of s) = length s"
  by (simp add: bytes_of_def)

lemma bytes_of_append [simp]: "bytes_of (s @ t) = bytes_of s @ bytes_of t"
  by (simp add: bytes_of_def)

lemma show_nat_20: "n < 2 ^ 64 \<Longrightarrow> length (show_nat n) \<le> 20"
  using length_show_base[of 10 n 19] by simp

lemma show_int_nat [simp]: "show_int (int n) = show_nat n"
  by (simp add: show_int_def)

text \<open>The numbers of an item as \<open>LogStream\<close> prints them.\<close>

lemma output_numbers:
  assumes "a < 2 ^ 64" "b < 2 ^ 64" "c < 2 ^ 64"
  shows "\<exists>buf. puts (new_FixedBuffer kSmallBuffer)
      ([Chr CHR '' '', Num (int a), Chr CHR '' '', Num (int b)] @
       (if cas then [Chr CHR '' '', Num (int c)] else []) @ [CStr (Some [CHR 0x0D, CHR 0x0A])]) = Some buf \<and>
    toString buf = '' '' @ show_nat a @ '' '' @ show_nat b @ (if cas then '' '' @ show_nat c else []) @ line_end"
proof -
  let ?xs = "[Chr CHR '' '', Num (int a), Chr CHR '' '', Num (int b)] @
       (if cas then [Chr CHR '' '', Num (int c)] else []) @ [CStr (Some [CHR 0x0D, CHR 0x0A])]"
  let ?b = "new_FixedBuffer kSmallBuffer"
  have "fb_wf ?b" "length (data ?b) = 4000" "toString ?b = []"
    by (simp_all add: fb_wf_def new_FixedBuffer_def toString_def kSmallBuffer_def)
  moreover have "\<forall>x \<in> set ?xs. item_ok x" using assms by auto
  ultimately obtain buf where buf: "puts ?b ?xs = Some buf" "toString buf = log_spec 4000 [] ?xs"
    using puts_ok[of ?b ?xs] by auto
  have "list_all (\<lambda>x. length (render x) \<le> room x) ?xs"
    using show_nat_20 assms by (simp add: kMaxNumericSize_def) (fastforce simp: order_trans)
  then have "log_spec 4000 [] ?xs = concat (map render ?xs)"
    by (subst log_spec_fits) (simp_all add: kMaxNumericSize_def)
  then show ?thesis using buf by (auto simp: line_end_def)
qed

lemma append_room:
  assumes "buffer_wf b" and "buffer_used b + length d \<le> vec_max"
  shows "\<exists>b'. append b d (length d) = Some b' \<and> buffer_wf b' \<and> content b' = content b @ d \<and>
    buffer_used b' \<le> buffer_used b + length d"
  using buffer_stream.put_law[OF assms] by (simp add: buffer_put_def)

lemma append_four:
  assumes "buffer_wf b" and fits: "buffer_used b + length (d1 @ d2 @ d3 @ d4) \<le> vec_max"
  shows "\<exists>b1 b2 b3 b4. append b d1 (length d1) = Some b1 \<and> append b1 d2 (length d2) = Some b2 \<and>
    append b2 d3 (length d3) = Some b3 \<and> append b3 d4 (length d4) = Some b4 \<and> buffer_wf b4 \<and>
    content b4 = content b @ d1 @ d2 @ d3 @ d4 \<and> buffer_used b4 \<le> buffer_used b + length (d1 @ d2 @ d3 @ d4)"
proof -
  obtain b1 where b1: "append b d1 (length d1) = Some b1" "buffer_wf b1" "content b1 = content b @ d1"
    "buffer_used b1 \<le> buffer_used b + length d1"
    using append_room[OF assms(1), of d1] fits by auto
  obtain b2 where b2: "append b1 d2 (length d2) = Some b2" "buffer_wf b2" "content b2 = content b1 @ d2"
    "buffer_used b2 \<le> buffer_used b1 + length d2"
    using append_room[OF b1(2), of d2] b1(4) fits by auto
  obtain b3 where b3: "append b2 d3 (length d3) = Some b3" "buffer_wf b3" "content b3 = content b2 @ d3"
    "buffer_used b3 \<le> buffer_used b2 + length d3"
    using append_room[OF b2(2), of d3] b1(4) b2(4) fits by auto
  obtain b4 where b4: "append b3 d4 (length d4) = Some b4" "buffer_wf b4" "content b4 = content b3 @ d4"
    "buffer_used b4 \<le> buffer_used b3 + length d4"
    using append_room[OF b3(2), of d4] b1(4) b2(4) b3(4) fits by auto
  show ?thesis using b1 b2 b3 b4 by auto
qed

lemma item_output_ok:
  assumes i: "storable h i" and wf: "buffer_wf out"
    and fits: "buffer_used out + length (entry_text cas (item_key i) (entry_of i)) \<le> vec_max"
  shows "\<exists>out'. item_output cas i out = Some out' \<and> buffer_wf out' \<and>
    content out' = content out @ entry_text cas (item_key i) (entry_of i) \<and>
    buffer_used out' \<le> buffer_used out + length (entry_text cas (item_key i) (entry_of i))"
proof -
  note P = storable_pieces[OF i]
  have iw: "item_wf h i" using i by (simp add: storable_def)
  let ?k = "item_key i"
  let ?n = "'' '' @ show_nat (unat (it_flags i)) @ '' '' @ show_nat (length (payload i)) @
    (if cas then '' '' @ show_nat (unat (it_cas i)) else []) @ line_end"
  have T: "entry_text cas ?k (entry_of i) = bytes_of ''VALUE '' @ ?k @ bytes_of ?n @ item_value i"
    by (simp add: entry_text_def entry_of_def P(1))
  have klen: "length ?k = it_keylen i" and kd: "take (it_keylen i) (it_data i) = ?k"
    using iw by (simp_all add: item_key_def item_wf_def)
  have lim: "length (payload i) < 2 ^ 64" "unat (it_flags i) < 2 ^ 64" "unat (it_cas i) < 2 ^ 64"
    using iw P(5) unsigned_less[of "it_flags i", where ?'a = nat] unsigned_less[of "it_cas i", where ?'a = nat]
    by (auto simp: item_wf_def totalLen_def)
  have vl: "it_valuelen i - 2 = int (length (payload i))" using P(5) by simp
  obtain buf where buf: "puts (new_FixedBuffer kSmallBuffer)
       ([Chr CHR '' '', Num (uint (it_flags i)), Chr CHR '' '', Num (it_valuelen i - 2)] @
        (if cas then [Chr CHR '' '', Num (uint (it_cas i))] else []) @ [CStr (Some [CHR 0x0D, CHR 0x0A])]) = Some buf"
      "toString buf = ?n"
    using output_numbers[OF lim(2,1,3), of cas] unfolding uint_nat[of "it_flags i"] uint_nat[of "it_cas i"] vl by blast
  have six: "length (bytes_of ''VALUE '') = 6" by simp
  obtain o1 o2 o3 o4 where o: "append out (bytes_of ''VALUE '') 6 = Some o1" "append o1 ?k (length ?k) = Some o2"
      "append o2 (bytes_of ?n) (length (bytes_of ?n)) = Some o3" "append o3 (item_value i) (length (item_value i)) = Some o4"
    and r: "buffer_wf o4" "content o4 = content out @ entry_text cas ?k (entry_of i)"
      "buffer_used o4 \<le> buffer_used out + length (entry_text cas ?k (entry_of i))"
    using append_four[OF wf, of "bytes_of ''VALUE ''" ?k "bytes_of ?n" "item_value i"] fits unfolding T six by blast
  have o2: "append o1 (it_data i) (it_keylen i) = Some o2"
    using o(2) append_take[of "it_keylen i" "it_data i" o1] kd klen iw by (simp add: item_wf_def)
  have "append o2 (bytes_of (toString buf)) (length (toString buf)) = Some o3"
    using o(3) unfolding buf(2) length_bytes_of .
  moreover have "append o3 (item_value i) (valueLength i) = Some o4" using o(4) P(1,4) by simp
  ultimately have "item_output cas i out = Some o4"
    unfolding item_output_def buf(1) using o(1) o2 by simp
  then show ?thesis using r by blast
qed

lemma length_entry_text:
  assumes "storable h i"
  shows "length (entry_text cas (item_key i) (entry_of i)) \<le> 2 ^ 32"
proof -
  have iw: "item_wf h i" using assms by (simp add: storable_def)
  have "int (length (item_key i)) + int (length (payload i)) + 2 < 2 ^ 31"
    using iw storable_pieces(5)[OF assms] by (auto simp: item_wf_def totalLen_def item_key_def)
  moreover have "length (show_nat (unat (it_flags i))) \<le> 20" "length (show_nat (unat (it_cas i))) \<le> 20"
    "length (show_nat (length (payload i))) \<le> 20"
    using unsigned_less[of "it_flags i", where ?'a = nat] unsigned_less[of "it_cas i", where ?'a = nat] calculation
    by (auto intro!: show_nat_20)
  ultimately show ?thesis by (simp add: entry_text_def entry_of_def line_end_def)
qed

section \<open>Well-formed sessions\<close>

definition needle_ok :: "mitem \<Rightarrow> bool" where
  "needle_ok n \<longleftrightarrow> it_valuelen n = 2 \<and> 252 \<le> it_capacity n"

definition idle :: "session \<Rightarrow> bool" where
  "idle s \<longleftrightarrow> command s = [] \<and> \<not> noreply s \<and> policy s = kInvalidPolicy \<and> currItem s = None \<and> bytesToDiscard s = 0"

definition phase_ok :: "(byte list \<Rightarrow> 64 word) \<Rightarrow> session \<Rightarrow> bool" where
  "phase_ok h s \<longleftrightarrow> (case state s of
     kNewCommand \<Rightarrow> idle s
   | kReceiveValue \<Rightarrow> policy s \<noteq> kInvalidPolicy \<and> (\<exists>i. currItem s = Some i \<and> item_wf h i \<and> \<not> complete i \<and> it_keylen i \<le> 250)
   | kDiscardValue \<Rightarrow> currItem s = None \<and> 0 < bytesToDiscard s)"

definition sess_wf :: "(byte list \<Rightarrow> 64 word) \<Rightarrow> session \<Rightarrow> bool" where
  "sess_wf h s \<longleftrightarrow> protocol s = kAscii \<and> needle_ok (needle s) \<and> buffer_wf (outputBuf s) \<and> phase_ok h s"

lemma reply_eq:
  "reply m s = s\<lparr>conn_calls := conn_calls s @ (if noreply s then [] else [ConnSend (bytes_of m)])\<rparr>"
  by (simp add: reply_def conn_call_def)

lemma resetKey_needle:
  assumes "needle_ok n" and "length k \<le> 250"
  shows "\<exists>n'. resetKey h k n = Some n' \<and> needle_ok n' \<and> item_key n' = k \<and> it_hash n' = h k"
  using resetKey_ok[of k n h] assms by (auto simp: needle_ok_def)

lemma getItem_key:
  assumes "store_wf h st" and "item_key n = k" and "it_hash n = h k"
  shows "getItem n st = None \<Longrightarrow> fst (table_of h st) k = None"
    and "getItem n st = Some i \<Longrightarrow> fst (table_of h st) k = Some (entry_of i) \<and> storable h i \<and> item_key i = k"
  using assms getItem_refines[of n h st] by (auto simp: getItem_def store_wf_def)

section \<open>get\<close>

definition good_key :: "byte list \<Rightarrow> bool" where
  "good_key k \<longleftrightarrow> length k \<le> kLongestKeySize"

definition found_text :: "(byte list \<rightharpoonup> entry) \<Rightarrow> bool \<Rightarrow> byte list list \<Rightarrow> byte list" where
  "found_text m cas ks = concat (map (\<lambda>k. case m k of None \<Rightarrow> [] | Some e \<Rightarrow> entry_text cas k e) ks)"

lemma get_keys_ok:
  assumes "store_wf (hash_range e) st" and "needle_ok (needle s)" and "buffer_wf (outputBuf s)"
    and "buffer_used (outputBuf s) + length ws * 2 ^ 32 \<le> vec_max"
  shows "\<exists>n out. get_keys e cas ws s st = Some (list_all good_key ws,
      (if list_all good_key ws then s\<lparr>needle := n, outputBuf := out\<rparr>
       else reply (''CLIENT_ERROR bad command line format'' @ line_end) (s\<lparr>needle := n, outputBuf := out\<rparr>))) \<and>
    needle_ok n \<and> buffer_wf out \<and>
    content out = content (outputBuf s) @ found_text (fst (table_of (hash_range e) st)) cas (takeWhile good_key ws) \<and>
    buffer_used out \<le> buffer_used (outputBuf s) + length ws * 2 ^ 32"
  using assms
proof (induction ws arbitrary: s)
  case Nil
  then show ?case by (auto simp: found_text_def intro!: exI[of _ "needle s"] exI[of _ "outputBuf s"])
next
  case (Cons k ws)
  let ?h = "hash_range e"
  show ?case
  proof (cases "good_key k")
    case False
    then show ?thesis using Cons.prems
      by (auto simp: found_text_def good_key_def intro!: exI[of _ "needle s"] exI[of _ "outputBuf s"])
  next
    case good: True
    then obtain n where n: "resetKey ?h k (needle s) = Some n" "needle_ok n" "item_key n = k" "it_hash n = ?h k"
      using resetKey_needle[OF Cons.prems(2)] by (auto simp: good_key_def kLongestKeySize_def)
    note look = getItem_key[OF Cons.prems(1) n(3,4)]
    show ?thesis
    proof (cases "getItem n st")
      case None
      let ?s = "s\<lparr>needle := n\<rparr>"
      have "get_keys e cas (k # ws) s st = get_keys e cas ws ?s st"
        using good n(1) None by (simp add: good_key_def)
      moreover have "buffer_used (outputBuf ?s) + length ws * 2 ^ 32 \<le> vec_max" using Cons.prems(4) by simp
      ultimately show ?thesis
        using Cons.IH[of ?s] Cons.prems n(2) look(1)[OF None] good by (fastforce simp: found_text_def)
    next
      case (Some i)
      note L = look(2)[OF Some]
      have len: "length (entry_text cas k (entry_of i)) \<le> 2 ^ 32"
        using length_entry_text[of ?h i cas] L by simp
      then obtain out where out: "item_output cas i (outputBuf s) = Some out" "buffer_wf out"
          "content out = content (outputBuf s) @ entry_text cas k (entry_of i)"
          "buffer_used out \<le> buffer_used (outputBuf s) + 2 ^ 32"
        using item_output_ok[of ?h i "outputBuf s" cas] L Cons.prems(3,4) by fastforce
      let ?s = "s\<lparr>needle := n, outputBuf := out\<rparr>"
      have "get_keys e cas (k # ws) s st = get_keys e cas ws ?s st"
        using good n(1) Some out(1) by (simp add: good_key_def)
      moreover have "buffer_used (outputBuf ?s) + length ws * 2 ^ 32 \<le> vec_max" using out(4) Cons.prems(4) by simp
      ultimately show ?thesis
        using Cons.IH[of ?s] Cons.prems n(2) L out(2-4) good by (fastforce simp: found_text_def)
    qed
  qed
qed

section \<open>Requests that abort the server\<close>

text \<open>
  An update or a deletion without a key; an update whose number of bytes, cut to 32 bits, is negative or too
  large to add 2 to it.
\<close>

definition bad_line :: "byte list \<Rightarrow> bool" where
  "bad_line r \<longleftrightarrow> (case request_words r of
       [] \<Rightarrow> False
     | c # ws \<Rightarrow>
         if is_update c then
           ws = [] \<or> (case read_update (policy_of c) (hd ws) (tl ws) of
                        None \<Rightarrow> False
                      | Some (flags, exptime, bytes, cas) \<Rightarrow> bytes < 0 \<or> bytes \<ge> 2 ^ 31 - 2)
         else c = bytes_of ''delete'' \<and> ws = [])"

definition pending :: "session \<Rightarrow> nat" where
  "pending s = (case currItem s of None \<Rightarrow> 0 | Some i \<Rightarrow> it_receivedBytes i - it_keylen i)"

text \<open>What a request line leaves behind.\<close>

definition request_done :: "sess_env \<Rightarrow> nat \<Rightarrow> session \<Rightarrow> store \<Rightarrow> bool \<times> session \<times> store \<Rightarrow> bool" where
  "request_done e n s st = (\<lambda>(fin, s1, st').
     let s' = (if fin then resetRequest s1 else s1); h = hash_range e in
     sess_wf h s' \<and> store_wf h st' \<and> pending s' = 0 \<and>
     (\<forall>k x. fst (table_of h st') k = Some x \<longrightarrow> fst (table_of h st) k = Some x) \<and>
     buffer_used (outputBuf s') \<le> buffer_used (outputBuf s) + n * 2 ^ 32)"

lemma policy_of_update: "policy_of c = kInvalidPolicy \<longleftrightarrow> \<not> is_update c"
  by (simp add: policy_of_def is_update_def)

lemma request_done_reset:
  assumes "protocol s1 = kAscii" "needle_ok (needle s1)" "buffer_wf (outputBuf s1)" "state s1 = kNewCommand"
    "store_wf (hash_range e) st'" "buffer_used (outputBuf s1) \<le> buffer_used (outputBuf s) + n * 2 ^ 32"
    "\<forall>k x. fst (table_of (hash_range e) st') k = Some x \<longrightarrow> fst (table_of (hash_range e) st) k = Some x"
  shows "request_done e n s st (True, s1, st')"
  using assms by (simp add: request_done_def sess_wf_def phase_ok_def idle_def resetRequest_def pending_def)

lemma read_update_key: "read_update p key ws = Some x \<Longrightarrow> length key \<le> 250"
  by (auto simp: read_update_def kLongestKeySize_def split: bind_splits)

lemma doUpdate_bad:
  assumes "is_update (command s)" and "ws = [] \<or> (case read_update (policy_of (command s)) (hd ws) (tl ws) of None \<Rightarrow> False
    | Some (flags, exptime, bytes, cas) \<Rightarrow> bytes < 0 \<or> bytes \<ge> 2 ^ 31 - 2)"
  shows "doUpdate e ws s st = None"
proof (cases "ws = []")
  case False
  then obtain f x b c where r: "read_update (policy_of (command s)) (hd ws) (tl ws) = Some (f, x, b, c)"
    and b: "b < 0 \<or> b \<ge> 2 ^ 31 - 2" using assms(2) by (auto split: option.splits)
  show ?thesis
  proof (cases "b < 0")
    case True
    then show ?thesis using r False assms(1) makeItem_fails[of "b + 2"]
      by (simp add: doUpdate_def policy_of_update)
  next
    case False
    then show ?thesis using r b \<open>ws \<noteq> []\<close> assms(1)
      by (simp add: doUpdate_def policy_of_update Let_def split: bind_splits)
  qed
qed (use assms(1) in \<open>simp add: doUpdate_def policy_of_update\<close>)

lemma doUpdate_ok:
  assumes c: "is_update (command s)" and ws: "ws \<noteq> []"
    and r: "case read_update (policy_of (command s)) (hd ws) (tl ws) of None \<Rightarrow> True
      | Some (flags, exptime, bytes, cas) \<Rightarrow> 0 \<le> bytes \<and> bytes < 2 ^ 31 - 2"
    and s: "protocol s = kAscii" "needle_ok (needle s)" "buffer_wf (outputBuf s)" "state s = kNewCommand" "currItem s = None"
    and st: "store_wf (hash_range e) st"
  shows "\<exists>res. doUpdate e ws s st = Some res \<and> request_done e n s st res"
proof -
  let ?p = "policy_of (command s)" and ?h = "hash_range e" and ?k = "hd ws"
  have p: "?p \<noteq> kInvalidPolicy" using c by (simp add: policy_of_update)
  show ?thesis
  proof (cases "read_update ?p ?k (tl ws)")
    case None
    then show ?thesis using p ws s st
      by (auto simp: doUpdate_def Let_def intro!: request_done_reset) (simp_all add: reply_eq)
  next
    case (Some q)
    obtain f x b cs where q: "q = (f, x, b, cs)" by (cases q)
    have k: "length ?k \<le> 250" using read_update_key[OF Some] .
    have b: "0 \<le> b" "b < 2 ^ 31 - 2" using r Some q by auto
    show ?thesis
    proof (cases "b > 1024 * 1024")
      case True
      obtain n' where n': "resetKey ?h ?k (needle s) = Some n'" "needle_ok n'" "item_key n' = ?k" "it_hash n' = ?h ?k"
        using resetKey_needle[OF s(2) k] by blast
      note D = deleteItem_refines[OF st, of n', unfolded n'(3,4), OF refl]
      have "0 < of_int32 (b + 2)" using b by (subst of_int32_nat) simp_all
      moreover have "b + 2 < 2 ^ 31" using b by simp
      ultimately show ?thesis
        using True Some q p ws n' s D st
        by (auto simp: doUpdate_def Let_def reply_eq request_done_def sess_wf_def phase_ok_def pending_def)
    next
      case False
      then obtain i where i: "makeItem ?h ?k f (rel_exptime (startTime st) x) (b + 2) cs = Some i" "item_wf ?h i"
        "it_receivedBytes i = length ?k" "it_keylen i = length ?k" "it_valuelen i = b + 2"
        using makeItem_ok[of "b + 2" ?k ?h] b k by fastforce
      then have "\<not> complete i" using b by (simp add: complete_def totalLen_def)
      then show ?thesis
        using False Some q p ws i s st k
        by (auto simp: doUpdate_def Let_def request_done_def sess_wf_def phase_ok_def pending_def)
    qed
  qed
qed

lemma doDelete_ok:
  assumes c: "command s = bytes_of ''delete''" and ws: "ws \<noteq> []" and s: "needle_ok (needle s)" and st: "store_wf (hash_range e) st"
  shows "\<exists>s' st'. doDelete e ws s st = Some (s', st') \<and> needle_ok (needle s') \<and> protocol s' = protocol s \<and>
    state s' = state s \<and> outputBuf s' = outputBuf s \<and> store_wf (hash_range e) st' \<and>
    (\<forall>k x. fst (table_of (hash_range e) st') k = Some x \<longrightarrow> fst (table_of (hash_range e) st) k = Some x)"
proof (cases "length (hd ws) \<le> 250 \<and> (tl ws = [] \<or> hd (tl ws) = bytes_of ''0'')")
  case True
  let ?h = "hash_range e" and ?k = "hd ws"
  obtain n' where n': "resetKey ?h ?k (needle s) = Some n'" "needle_ok n'" "item_key n' = ?k" "it_hash n' = ?h ?k"
    using resetKey_needle[OF s, of ?k] True by blast
  note D = deleteItem_refines[OF st, of n', unfolded n'(3,4), OF refl]
  show ?thesis
    using True c ws n' D by (auto simp: doDelete_def kLongestKeySize_def Let_def reply_eq)
next
  case False
  then show ?thesis
    using c ws s st by (auto simp: doDelete_def kLongestKeySize_def Let_def reply_eq)
qed

lemma get_finish_ok:
  assumes "buffer_wf (outputBuf s)" and "buffer_used (outputBuf s) + 5 \<le> vec_max"
  shows "\<exists>out calls. get_finish e s = Some (s\<lparr>outputBuf := out, conn_calls := conn_calls s @ calls @
      [ConnSend (content (outputBuf s) @ bytes_of (''END'' @ line_end))]\<rparr>) \<and>
    buffer_wf out \<and> buffer_used out \<le> buffer_used (outputBuf s) + 5 \<and> set calls \<subseteq> range ConnShrinkOutput"
proof -
  have five: "length (bytes_of (''END'' @ line_end)) = 5" by (simp add: line_end_def)
  obtain o1 where o1: "append (outputBuf s) (bytes_of (''END'' @ line_end)) 5 = Some o1" "buffer_wf o1"
    "content o1 = content (outputBuf s) @ bytes_of (''END'' @ line_end)" "buffer_used o1 \<le> buffer_used (outputBuf s) + 5"
    using append_room[OF assms(1), of "bytes_of (''END'' @ line_end)"] assms(2) unfolding five by blast
  let ?n = "65536 + readableBytes o1"
  let ?c = "if out_writable e (conn_calls s) > ?n then [ConnShrinkOutput ?n] else []"
  let ?o = "if is_connected e (conn_calls s @ ?c) then retrieveAll o1 else o1"
  have "get_finish e s = Some (s\<lparr>outputBuf := ?o, conn_calls := conn_calls s @ ?c @ [ConnSend (content o1)]\<rparr>)"
    unfolding get_finish_def o1(1) by (simp add: Let_def conn_call_def)
  moreover have "buffer_used ?o \<le> buffer_used (outputBuf s) + 5"
    using o1(4) by (simp add: buffer_used_def retrieveAll_def)
  moreover have "buffer_wf ?o" using o1(2) retrieveAll_wf[of o1] by simp
  moreover have "set ?c \<subseteq> range ConnShrinkOutput" by auto
  ultimately show ?thesis using o1(3) by metis
qed

lemma get_done:
  assumes s: "protocol s = kAscii" "needle_ok (needle s)" "buffer_wf (outputBuf s)" "state s = kNewCommand"
    and st: "store_wf (hash_range e) st" and fits: "buffer_used (outputBuf s) + (length ws + 1) * 2 ^ 32 \<le> vec_max"
  shows "\<exists>res. (do { (good, s2) \<leftarrow> get_keys e cas ws s st;
                if good then do { s3 \<leftarrow> get_finish e s2; Some (True, s3, st) } else Some (True, s2, st) }) = Some res \<and>
    request_done e (length ws + 1) s st res"
proof -
  have f: "buffer_used (outputBuf s) + length ws * 2 ^ 32 \<le> vec_max" using fits by simp
  obtain n out where g: "get_keys e cas ws s st = Some (list_all good_key ws,
      (if list_all good_key ws then s\<lparr>needle := n, outputBuf := out\<rparr>
       else reply (''CLIENT_ERROR bad command line format'' @ line_end) (s\<lparr>needle := n, outputBuf := out\<rparr>)))"
    "needle_ok n" "buffer_wf out" "buffer_used out \<le> buffer_used (outputBuf s) + length ws * 2 ^ 32"
    using get_keys_ok[OF st s(2,3) f, of cas] by blast
  show ?thesis
  proof (cases "list_all good_key ws")
    case True
    let ?s = "s\<lparr>needle := n, outputBuf := out\<rparr>"
    have "buffer_used (outputBuf ?s) + 5 \<le> vec_max" using g(4) fits by simp
    then obtain out' calls where f: "get_finish e ?s = Some (?s\<lparr>outputBuf := out', conn_calls := conn_calls ?s @ calls @
      [ConnSend (content (outputBuf ?s) @ bytes_of (''END'' @ line_end))]\<rparr>)" "buffer_wf out'" "buffer_used out' \<le> buffer_used (outputBuf ?s) + 5"
      using get_finish_ok[of ?s e] g(3) by auto
    have u: "buffer_used out' \<le> buffer_used (outputBuf s) + (length ws + 1) * 2 ^ 32"
      using f(3) g(4) by simp
    show ?thesis using g(1) True f(1) s st u by (auto intro!: request_done_reset g(2) f(2))
  next
    case False
    have u: "buffer_used out \<le> buffer_used (outputBuf s) + (length ws + 1) * 2 ^ 32" using g(4) by simp
    show ?thesis using g(1) False s st u by (auto simp: reply_eq intro!: request_done_reset g(2,3))
  qed
qed

lemma request_done_mono:
  "request_done e m s st res \<Longrightarrow> m \<le> n \<Longrightarrow> outputBuf s = outputBuf s' \<Longrightarrow> request_done e n s' st res"
proof -
  assume d: "request_done e m s st res" and n: "m \<le> n" and o: "outputBuf s = outputBuf s'"
  have "m * 2 ^ 32 \<le> n * 2 ^ 32" using n by simp
  then show ?thesis using d o by (auto simp: request_done_def Let_def intro: order_trans)
qed

lemma processRequest_bad:
  assumes "sess_wf h s" and "state s = kNewCommand" and "bad_line r"
  shows "processRequest e r s st = None"
proof -
  have id: "idle s" using assms(1,2) by (simp add: sess_wf_def phase_ok_def)
  obtain c ws where w: "request_words r = c # ws" using assms(3) by (cases "request_words r") (auto simp: bad_line_def)
  let ?s = "s\<lparr>requestsProcessed := requestsProcessed s + 1, noreply := has_noreply r, command := c\<rparr>"
  show ?thesis
  proof (cases "is_update c")
    case True
    then have "doUpdate e ws ?s st = None"
      using doUpdate_bad[of ?s ws e st] assms(3) w by (simp add: bad_line_def)
    then show ?thesis using True w id by (auto simp: processRequest_def request_words_def[symmetric] idle_def)
  next
    case False
    then have c: "c = bytes_of ''delete''" "ws = []" using assms(3) w by (simp_all add: bad_line_def)
    moreover have "\<not> is_update (bytes_of ''delete'')" "bytes_of ''delete'' \<noteq> bytes_of ''get''" "bytes_of ''delete'' \<noteq> bytes_of ''gets''"
      by (simp_all add: is_update_def bytes_of_def)
    ultimately show ?thesis using w id by (simp add: processRequest_def request_words_def[symmetric] idle_def doDelete_def)
  qed
qed

definition dispatch :: "sess_env \<Rightarrow> byte list \<Rightarrow> byte list list \<Rightarrow> session \<Rightarrow> store \<Rightarrow> (bool \<times> session \<times> store) option" where
  "dispatch e c ws s st =
    (if is_update c then doUpdate e ws s st
     else if c = bytes_of ''get'' \<or> c = bytes_of ''gets'' then do {
       (good, s2) \<leftarrow> get_keys e (c = bytes_of ''gets'') ws s st;
       if good then do { s3 \<leftarrow> get_finish e s2; Some (True, s3, st) } else Some (True, s2, st) }
     else if c = bytes_of ''delete'' then do { (s2, st') \<leftarrow> doDelete e ws s st; Some (True, s2, st') }
     else if c = bytes_of ''version'' then Some (True, reply (''VERSION 0.01 muduo'' @ line_end) s, st)
     else if c = bytes_of ''quit'' then Some (True, conn_call ConnShutdown s, st)
     else if c = bytes_of ''shutdown'' then Some (True, conn_call ConnShutdown s, server_stop st)
     else Some (True, reply (''ERROR'' @ line_end) s, st))"

lemma processRequest_words:
  assumes "idle s" and "request_words r = c # ws"
  shows "processRequest e r s st =
    dispatch e c ws (s\<lparr>requestsProcessed := requestsProcessed s + 1, noreply := has_noreply r, command := c\<rparr>) st"
  using assms by (simp add: processRequest_def request_words_def[symmetric] idle_def Let_def dispatch_def)

lemma processRequest_ok:
  assumes wf: "sess_wf (hash_range e) s" and new: "state s = kNewCommand" and st: "store_wf (hash_range e) st"
    and good: "\<not> bad_line r" and fits: "buffer_used (outputBuf s) + (length r + 1) * 2 ^ 32 \<le> vec_max"
  shows "\<exists>res. processRequest e r s st = Some res \<and> request_done e (length r + 1) s st res"
proof -
  have id: "idle s" and sp: "protocol s = kAscii" "needle_ok (needle s)" "buffer_wf (outputBuf s)"
    using wf new by (simp_all add: sess_wf_def phase_ok_def)
  let ?s1 = "s\<lparr>requestsProcessed := requestsProcessed s + 1, noreply := has_noreply r\<rparr>"
  let ?n = "length r + 1"
  show ?thesis
  proof (cases "request_words r")
    case Nil
    then show ?thesis using id sp new st
      by (auto simp: processRequest_def request_words_def[symmetric] idle_def reply_eq intro!: request_done_reset)
  next
    case (Cons c ws)
    let ?s = "?s1\<lparr>command := c\<rparr>"
    have len: "length ws + 1 \<le> ?n" using length_request_words[of r] Cons by simp
    have done_mono: "request_done e m ?s st res \<Longrightarrow> m \<le> ?n \<Longrightarrow> request_done e ?n s st res" for m res
      by (erule request_done_mono) simp_all
    note pr = processRequest_words[OF id Cons, of e st, unfolded dispatch_def]
    consider "is_update c" | "\<not> is_update c" "c = bytes_of ''get'' \<or> c = bytes_of ''gets''"
      | "\<not> is_update c" "\<not> (c = bytes_of ''get'' \<or> c = bytes_of ''gets'')" "c = bytes_of ''delete''"
      | "\<not> is_update c" "\<not> (c = bytes_of ''get'' \<or> c = bytes_of ''gets'')" "c \<noteq> bytes_of ''delete''" by blast
    then show ?thesis
    proof cases
      case 1
      have "\<exists>res. doUpdate e ws ?s st = Some res \<and> request_done e 0 ?s st res"
        using 1 good Cons sp new id st
        by (intro doUpdate_ok) (auto simp: bad_line_def idle_def split: option.splits)
      then show ?thesis using pr 1 done_mono by auto
    next
      case 2
      have "(length ws + 1) * 2 ^ 32 \<le> ?n * 2 ^ 32" using len by simp
      then have "buffer_used (outputBuf ?s) + (length ws + 1) * 2 ^ 32 \<le> vec_max" using fits by simp
      then have "\<exists>res. processRequest e r s st = Some res \<and> request_done e (length ws + 1) ?s st res"
        unfolding pr using 2 get_done[of ?s e st ws "c = bytes_of ''gets''"] sp new st by auto
      then show ?thesis using done_mono len by blast
    next
      case 3
      then have "ws \<noteq> []" using good Cons by (auto simp: bad_line_def)
      then obtain s' st' where d: "doDelete e ws ?s st = Some (s', st')" "needle_ok (needle s')" "protocol s' = protocol ?s"
        "state s' = state ?s" "outputBuf s' = outputBuf ?s" "store_wf (hash_range e) st'"
        "\<forall>k x. fst (table_of (hash_range e) st') k = Some x \<longrightarrow> fst (table_of (hash_range e) st) k = Some x"
        using doDelete_ok[of ?s ws e st] 3 sp st by auto
      then have "request_done e ?n s st (True, s', st')" using sp new by (intro request_done_reset) simp_all
      then show ?thesis using pr 3 d(1) by auto
    next
      case 4
      have t: "table_of h (server_stop st) = table_of h st" "store_wf h (server_stop st) = store_wf h st" for h
        by (simp_all add: server_stop_def table_of_def store_wf_def)
      have d: "request_done e ?n s st (True, reply m ?s, st)" "request_done e ?n s st (True, conn_call ConnShutdown ?s, st)"
          "request_done e ?n s st (True, conn_call ConnShutdown ?s, server_stop st)" for m
        by (rule request_done_reset; use sp new st t in \<open>simp add: reply_eq conn_call_def\<close>)+
      show ?thesis
        using d unfolding pr by (simp only: 4 simp_thms if_True if_False split: if_split) blast
    qed
  qed
qed

end
