(* ===== verification/Memcache_Stream.thy ===== *)
theory Memcache_Stream
  imports Memcache_Protocol
begin

text \<open>
  The message handler of a memcached session on the bytes of its buffer, and the composition of the
  messages of a connection.
\<close>

section \<open>The handler on bytes\<close>

definition receive_bytes :: "sess_env \<Rightarrow> byte list \<Rightarrow> session \<Rightarrow> store \<Rightarrow> (session \<times> store) option" where
  "receive_bytes e d s st = do {
     i \<leftarrow> currItem s;
     i' \<leftarrow> item_append d i;
     let s1 = s\<lparr>currItem := Some i'\<rparr>;
     if neededBytes i' = 0 then do {
       (s2, st') \<leftarrow> (if endsWithCRLF i' then do {
                       (stored, exists, st') \<leftarrow> storeItem (hash_range e) i' (policy s1) st;
                       Some (reply (stored_reply stored exists (policy s1)) s1, st')
                     } else Some (reply (''CLIENT_ERROR bad data chunk'' @ line_end) s1, st));
       Some ((resetRequest s2)\<lparr>state := kNewCommand\<rparr>, st')
     } else Some (s1, st)
   }"

definition needed :: "session \<Rightarrow> nat" where
  "needed s = (case currItem s of None \<Rightarrow> 0 | Some i \<Rightarrow> neededBytes i)"

definition discarded :: "session \<Rightarrow> session" where
  "discarded s = (resetRequest (s\<lparr>bytesToDiscard := 0\<rparr>))\<lparr>state := kNewCommand\<rparr>"

text \<open>One iteration of the loop: whether it goes on, the new state, and the number of bytes taken.\<close>

definition step_bytes :: "sess_env \<Rightarrow> session \<Rightarrow> store \<Rightarrow> byte list \<Rightarrow> (bool \<times> session \<times> store \<times> nat) option" where
  "step_bytes e s st bs =
     (case state s of
        kNewCommand \<Rightarrow>
          (let i = std_search kCRLF bs
           in if i = length bs
              then Some (False, if length bs > 1024 then conn_call ConnShutdown s else s, st, 0)
              else do {
                (fin, s1, st') \<leftarrow> processRequest e (take i bs) s st;
                Some (True, if fin then resetRequest s1 else s1, st', i + 2)
              })
      | kReceiveValue \<Rightarrow>
          (let n = min (length bs) (needed s)
           in do { (s', st') \<leftarrow> receive_bytes e (take n bs) s st; Some (True, s', st', n) })
      | kDiscardValue \<Rightarrow>
          if length bs < bytesToDiscard s
          then Some (True, s\<lparr>bytesToDiscard := bytesToDiscard s - length bs\<rparr>, st, length bs)
          else Some (True, discarded s, st, bytesToDiscard s))"

text \<open>The loop; it stops when an iteration takes nothing, which does not happen when it is to go on.\<close>

function run_bytes :: "sess_env \<Rightarrow> session \<Rightarrow> store \<Rightarrow> byte list \<Rightarrow> (session \<times> store \<times> byte list) option" where
  "run_bytes e s st bs =
     (if bs = [] then Some (s, st, [])
      else case step_bytes e s st bs of
             None \<Rightarrow> None
           | Some (continues, s', st', n) \<Rightarrow>
               if continues \<and> 0 < n then run_bytes e s' st' (drop n bs) else Some (s', st', drop n bs))"
  by pat_completeness auto
termination
  by (relation "measure (\<lambda>(e, s, st, bs). length bs)") auto

declare run_bytes.simps [simp del]

lemma crlf_length: "std_search kCRLF bs \<noteq> length bs \<Longrightarrow> std_search kCRLF bs + 2 \<le> length bs"
  using std_search_hit_length[of kCRLF bs] std_search_le[of kCRLF bs] by (simp add: nat_less_le)

section \<open>The buffer\<close>

definition body_agrees ::
    "buffer \<Rightarrow> (bool \<times> session \<times> store \<times> nat) option \<Rightarrow> (bool \<times> session \<times> store \<times> buffer) option \<Rightarrow> bool" where
  "body_agrees b x y \<longleftrightarrow> (case x of
       None \<Rightarrow> y = None
     | Some (c, s, st, n) \<Rightarrow> \<exists>b'. y = Some (c, s, st, b') \<and> buffer_wf b' \<and> content b' = drop n (content b) \<and>
         buffer_used b' \<le> buffer_used b)"

lemma retrieve_used:
  assumes "buffer_wf b" and "n \<le> length (content b)"
  shows "\<exists>b'. retrieve b n = Some b' \<and> buffer_wf b' \<and> content b' = drop n (content b) \<and> buffer_used b' \<le> buffer_used b"
proof -
  obtain b' where b': "retrieve b n = Some b'" "buffer_wf b'" "content b' = drop n (content b)"
    using retrieve_ok[OF assms] by blast
  then show ?thesis using retrieve_writerIndex[OF b'(1)] by (auto simp: buffer_used_def)
qed

lemma commandLine_bytes:
  assumes wf: "buffer_wf b" and len: "length (content b) < 2 ^ 31" and new: "state s = kNewCommand"
  shows "body_agrees b (step_bytes e s st (content b)) (commandLine e s st b)"
proof (cases "std_search kCRLF (content b) = length (content b)")
  case True
  then show ?thesis
    using wf new by (simp add: body_agrees_def step_bytes_def commandLine_def findCRLF_content readableBytes_content)
next
  case False
  let ?i = "std_search kCRLF (content b)"
  have i: "?i + 2 \<le> length (content b)" using crlf_length[OF False] .
  have f: "findCRLF b = Some (peek b + ?i)" using False by (simp add: findCRLF_content[OF wf])
  have "to_int32 (peek b + ?i - peek b) = int ?i" using i len by (simp add: to_int32_exact)
  moreover have "vec_range (buf b) (peek b) (peek b + ?i) = take ?i (content b)"
    using content_take[of ?i b] i length_content[OF wf] by simp
  moreover obtain b' where b': "retrieve b (?i + 2) = Some b'" "buffer_wf b'" "content b' = drop (?i + 2) (content b)"
    "buffer_used b' \<le> buffer_used b"
    using retrieve_used[OF wf i] by blast
  moreover have "retrieveUntil b (peek b + ?i + 2) = retrieve b (?i + 2)"
  proof -
    have "peek b + ?i + 2 \<le> beginWrite b"
      using i length_content[OF wf] buffer_wf_bounds(1)[OF wf] unfolding peek_def beginWrite_def by linarith
    then show ?thesis by (simp add: retrieveUntil_def)
  qed
  ultimately show ?thesis
    using f False new
    by (cases "processRequest e (take ?i (content b)) s st")
      (auto simp: body_agrees_def step_bytes_def commandLine_def Let_def)
qed

lemma receiveValue_bytes:
  assumes wf: "buffer_wf b" and s: "state s = kReceiveValue"
  shows "body_agrees b (step_bytes e s st (content b))
    (do { (s', st', b') \<leftarrow> receiveValue e s st b; Some (True, s', st', b') })"
proof (cases "currItem s")
  case None
  then show ?thesis using s by (simp add: body_agrees_def step_bytes_def receive_bytes_def receiveValue_def)
next
  case (Some i)
  let ?n = "min (length (content b)) (neededBytes i)"
  obtain b' where b': "retrieve b ?n = Some b'" "buffer_wf b'" "content b' = drop ?n (content b)"
    "buffer_used b' \<le> buffer_used b" using retrieve_used[OF wf, of ?n] by auto
  have v: "vec_range (buf b) (peek b) (peek b + ?n) = take ?n (content b)"
    using content_take[of ?n b] length_content[OF wf] by simp
  show ?thesis
  proof (cases "item_append (take ?n (content b)) i")
    case None
    then show ?thesis using s Some v wf
      by (simp add: body_agrees_def step_bytes_def receive_bytes_def receiveValue_def needed_def readableBytes_content)
  next
    case app: (Some i')
    show ?thesis
      using s Some v wf app b'
      by (auto simp: body_agrees_def step_bytes_def receive_bytes_def receiveValue_def needed_def readableBytes_content
          Let_def split: option.splits bind_splits)
  qed
qed

lemma discardValue_bytes:
  assumes wf: "buffer_wf b" and s: "state s = kDiscardValue" "currItem s = None"
  shows "body_agrees b (step_bytes e s st (content b))
    (do { (s', b') \<leftarrow> discardValue s b; Some (True, s', st, b') })"
proof (cases "length (content b) < bytesToDiscard s")
  case True
  have "buffer_used (retrieveAll b) \<le> buffer_used b" by (simp add: buffer_used_def retrieveAll_def)
  then show ?thesis
    using True s wf retrieveAll_wf[of b] by (simp add: body_agrees_def step_bytes_def discardValue_def readableBytes_content)
next
  case False
  then obtain b' where "retrieve b (bytesToDiscard s) = Some b'" "buffer_wf b'" "content b' = drop (bytesToDiscard s) (content b)"
    "buffer_used b' \<le> buffer_used b" using retrieve_used[OF wf, of "bytesToDiscard s"] by auto
  then show ?thesis
    using False s wf by (simp add: body_agrees_def step_bytes_def discardValue_def readableBytes_content discarded_def)
qed

lemma loop_body_bytes:
  assumes "buffer_wf b" and "length (content b) < 2 ^ 31" and "sess_wf h s"
  shows "body_agrees b (step_bytes e s st (content b)) (loop_body e s st b)"
proof (cases "state s")
  case kNewCommand
  then show ?thesis using commandLine_bytes[OF assms(1,2) kNewCommand] assms(3) by (simp add: loop_body_def sess_wf_def)
next
  case kReceiveValue
  then show ?thesis using receiveValue_bytes[OF assms(1) kReceiveValue, of e st] by (simp add: loop_body_def)
next
  case kDiscardValue
  then show ?thesis
    using discardValue_bytes[OF assms(1) kDiscardValue, of e st] assms(3) by (simp add: loop_body_def sess_wf_def phase_ok_def)
qed

section \<open>Steps keep the session well-formed\<close>

text \<open>
  With \<open>n\<close> bytes still to come, the values of the table can grow by at most these bytes, and the output buffer
  by 4 GiB for each.
\<close>

definition budget :: "(byte list \<Rightarrow> 64 word) \<Rightarrow> nat \<Rightarrow> session \<Rightarrow> store \<Rightarrow> bool" where
  "budget h n s st \<longleftrightarrow> pending s + n + 300 \<le> 2 ^ 31 \<and>
     (\<forall>k x. fst (table_of h st) k = Some x \<longrightarrow> length (e_value x) + pending s + n + 300 \<le> 2 ^ 31) \<and>
     buffer_used (outputBuf s) + n * 2 ^ 32 \<le> vec_max"

text \<open>The session is at a command line that aborts the server.\<close>

definition at_bad_line :: "session \<Rightarrow> byte list \<Rightarrow> bool" where
  "at_bad_line s bs \<longleftrightarrow> state s = kNewCommand \<and> std_search kCRLF bs \<noteq> length bs \<and> bad_line (take (std_search kCRLF bs) bs)"

definition step_done :: "sess_env \<Rightarrow> nat \<Rightarrow> bool \<times> session \<times> store \<times> nat \<Rightarrow> bool" where
  "step_done e m = (\<lambda>(c, s', st', n). sess_wf (hash_range e) s' \<and> store_wf (hash_range e) st' \<and>
     n \<le> m \<and> budget (hash_range e) (m - n) s' st' \<and> (c \<longleftrightarrow> 0 < n))"

lemma step_new:
  assumes wf: "sess_wf (hash_range e) s" and st: "store_wf (hash_range e) st" and bud: "budget (hash_range e) (length bs) s st"
    and new: "state s = kNewCommand" and good: "\<not> at_bad_line s bs"
  shows "\<exists>res. step_bytes e s st bs = Some res \<and> step_done e (length bs) res"
proof (cases "std_search kCRLF bs = length bs")
  case True
  have "sess_wf h (conn_call c s) = sess_wf h s" "budget h n (conn_call c s) st = budget h n s st" for h c n
    by (simp_all add: conn_call_def sess_wf_def phase_ok_def idle_def budget_def pending_def split: sess_state.split)
  then show ?thesis using True assms by (simp add: step_bytes_def step_done_def)
next
  case False
  let ?i = "std_search kCRLF bs" and ?h = "hash_range e"
  have i: "?i + 2 \<le> length bs" using crlf_length[OF False] .
  have le: "(?i + 1) * 2 ^ 32 \<le> length bs * 2 ^ 32" using i by simp
  then have "buffer_used (outputBuf s) + (length (take ?i bs) + 1) * 2 ^ 32 \<le> vec_max"
    using bud i by (simp add: budget_def)
  moreover have "\<not> bad_line (take ?i bs)" using good new False by (simp add: at_bad_line_def)
  ultimately obtain fin s1 st' where p: "processRequest e (take ?i bs) s st = Some (fin, s1, st')"
    "request_done e (?i + 1) s st (fin, s1, st')"
    using processRequest_ok[OF wf new st, of "take ?i bs"] i by auto
  let ?s = "if fin then resetRequest s1 else s1"
  have r: "sess_wf ?h ?s" "store_wf ?h st'" "pending ?s = 0"
    "\<forall>k x. fst (table_of ?h st') k = Some x \<longrightarrow> fst (table_of ?h st) k = Some x"
    "buffer_used (outputBuf ?s) \<le> buffer_used (outputBuf s) + (?i + 1) * 2 ^ 32"
    using p(2) unfolding request_done_def Let_def split_conv by blast+
  have "(?i + 1) * 2 ^ 32 + (length bs - (?i + 2)) * 2 ^ 32 \<le> length bs * 2 ^ 32"
    using i by (simp flip: add_mult_distrib)
  then have "buffer_used (outputBuf ?s) + (length bs - (?i + 2)) * 2 ^ 32 \<le> vec_max"
    using r(5) bud unfolding budget_def by linarith
  moreover have "length (e_value x) + 0 + (length bs - (?i + 2)) + 300 \<le> 2 ^ 31" if "fst (table_of ?h st') k = Some x" for k x
  proof -
    have "length (e_value x) + pending s + length bs + 300 \<le> 2 ^ 31" using bud r(4) that unfolding budget_def by blast
    then show ?thesis by linarith
  qed
  moreover have "0 + (length bs - (?i + 2)) + 300 \<le> 2 ^ 31" using bud unfolding budget_def by linarith
  ultimately have "budget ?h (length bs - (?i + 2)) ?s st'" unfolding budget_def r(3) by blast
  then have "step_done e (length bs) (True, ?s, st', ?i + 2)" using r(1,2) i by (simp add: step_done_def)
  moreover have "step_bytes e s st bs = Some (True, ?s, st', ?i + 2)" using False new p(1) by (simp add: step_bytes_def Let_def)
  ultimately show ?thesis by blast
qed

lemma budget_mono:
  assumes b: "budget h n s st" and m: "m \<le> n" and o: "outputBuf s' = outputBuf s" and p: "pending s' \<le> pending s"
  shows "budget h m s' st"
proof -
  have "m * 2 ^ 32 \<le> n * 2 ^ 32" using m by simp
  then have 1: "buffer_used (outputBuf s') + m * 2 ^ 32 \<le> vec_max" using b o unfolding budget_def by simp
  have 2: "length (e_value x) + pending s' + m + 300 \<le> 2 ^ 31" if "fst (table_of h st) k = Some x" for k x
  proof -
    have "length (e_value x) + pending s + n + 300 \<le> 2 ^ 31" using b that unfolding budget_def by blast
    then show ?thesis using m p by linarith
  qed
  have "pending s' + m + 300 \<le> 2 ^ 31" using b m p unfolding budget_def by linarith
  with 1 2 show ?thesis unfolding budget_def by blast
qed

lemma budget_shift:
  assumes b: "budget h (m + n) s st" and o: "outputBuf s' = outputBuf s" and p: "pending s' \<le> pending s + m"
  shows "budget h n s' st"
proof -
  have "n * 2 ^ 32 \<le> (m + n) * 2 ^ 32" by simp
  then have 1: "buffer_used (outputBuf s') + n * 2 ^ 32 \<le> vec_max" using b unfolding budget_def o by linarith
  have 2: "length (e_value x) + pending s' + n + 300 \<le> 2 ^ 31" if "fst (table_of h st) k = Some x" for k x
  proof -
    have "length (e_value x) + pending s + (m + n) + 300 \<le> 2 ^ 31" using b that unfolding budget_def by blast
    then show ?thesis using p by linarith
  qed
  have "pending s' + n + 300 \<le> 2 ^ 31" using b p unfolding budget_def by linarith
  with 1 2 show ?thesis unfolding budget_def by blast
qed

lemma step_discard:
  assumes wf: "sess_wf (hash_range e) s" and st: "store_wf (hash_range e) st" and bud: "budget (hash_range e) (length bs) s st"
    and state: "state s = kDiscardValue" and bs: "bs \<noteq> []"
  shows "\<exists>res. step_bytes e s st bs = Some res \<and> step_done e (length bs) res"
proof -
  have ph: "currItem s = None" "0 < bytesToDiscard s" using wf state by (simp_all add: sess_wf_def phase_ok_def)
  note b = budget_mono[OF bud]
  show ?thesis
  proof (cases "length bs < bytesToDiscard s")
    case True
    then show ?thesis
      using wf st ph state bs b[of 0 "s\<lparr>bytesToDiscard := bytesToDiscard s - length bs\<rparr>"]
      by (simp add: step_bytes_def step_done_def sess_wf_def phase_ok_def pending_def)
  next
    case False
    then show ?thesis
      using wf st ph state bs b[of "length bs - bytesToDiscard s" "discarded s"]
      by (simp add: step_bytes_def step_done_def sess_wf_def phase_ok_def discarded_def resetRequest_def idle_def pending_def)
  qed
qed

lemma spec_store_values:
  assumes "fst (snd (spec_store p k e t)) k' = Some x"
  shows "fst t k' = Some x \<or> length (e_value x) \<le> length (e_value e) \<or>
    (\<exists>old. fst t k = Some old \<and> length (e_value x) = length (e_value old) + length (e_value e))"
  using assms by (cases p) (auto simp: spec_put_def split: option.splits if_splits)

lemma step_receive:
  assumes wf: "sess_wf (hash_range e) s" and st: "store_wf (hash_range e) st" and bud: "budget (hash_range e) (length bs) s st"
    and state: "state s = kReceiveValue" and bs: "bs \<noteq> []"
  shows "\<exists>res. step_bytes e s st bs = Some res \<and> step_done e (length bs) res"
proof -
  let ?h = "hash_range e"
  obtain i where i: "currItem s = Some i" "item_wf ?h i" "\<not> complete i" "it_keylen i \<le> 250" and pol: "policy s \<noteq> kInvalidPolicy"
    using wf state by (auto simp: sess_wf_def phase_ok_def)
  let ?n = "min (length bs) (neededBytes i)"
  have need: "neededBytes i = nat (totalLen i) - it_receivedBytes i" using neededBytes_wf[OF i(2)] .
  have n0: "0 < ?n" using bs i(3) neededBytes_complete[OF i(2)] by auto
  have "int (it_receivedBytes i + length (take ?n bs)) \<le> totalLen i"
    using need i(2) unfolding item_wf_def by (simp add: min_def) linarith
  then obtain i' where i': "item_append (take ?n bs) i = Some i'" "item_wf ?h i'"
    "it_receivedBytes i' = it_receivedBytes i + ?n" "it_keylen i' = it_keylen i" "item_key i' = item_key i"
    using item_append_ok[OF i(2), of "take ?n bs"] by auto
  have pend: "pending s = it_receivedBytes i - it_keylen i" "it_keylen i \<le> it_receivedBytes i"
    using i(1,2) by (simp_all add: pending_def item_wf_def)
  have B: "pending s + length bs + 300 \<le> 2 ^ 31"
    "\<And>k x. fst (table_of ?h st) k = Some x \<Longrightarrow> length (e_value x) + pending s + length bs + 300 \<le> 2 ^ 31"
    "buffer_used (outputBuf s) + length bs * 2 ^ 32 \<le> vec_max"
    using bud unfolding budget_def by blast+
  have "(length bs - ?n) * 2 ^ 32 \<le> length bs * 2 ^ 32" by simp
  then have out: "buffer_used (outputBuf s) + (length bs - ?n) * 2 ^ 32 \<le> vec_max" using B(3) by linarith
  show ?thesis
  proof (cases "neededBytes i' = 0")
    case False
    let ?s = "s\<lparr>currItem := Some i'\<rparr>"
    have "step_bytes e s st bs = Some (True, ?s, st, ?n)"
      using state i(1) i'(1) False by (simp add: step_bytes_def receive_bytes_def needed_def Let_def)
    moreover have "sess_wf ?h ?s"
      using wf state pol i'(2,4) i(4) False neededBytes_complete[OF i'(2)] by (simp add: sess_wf_def phase_ok_def)
    moreover have "pending ?s = pending s + ?n" using i'(3,4) pend by (simp add: pending_def)
    moreover have "budget ?h (length bs - ?n) ?s st"
      unfolding budget_def calculation(3) using B(1,2) out by fastforce
    ultimately show ?thesis using st n0 by (simp add: step_done_def)
  next
    case True
    let ?s1 = "s\<lparr>currItem := Some i'\<rparr>"
    have full: "complete i'" using True neededBytes_complete[OF i'(2)] by simp
    have fin: "sess_wf ?h ((resetRequest (reply m ?s1))\<lparr>state := kNewCommand\<rparr>)"
        "pending ((resetRequest (reply m ?s1))\<lparr>state := kNewCommand\<rparr>) = 0"
        "outputBuf ((resetRequest (reply m ?s1))\<lparr>state := kNewCommand\<rparr>) = outputBuf s" for m
      using wf by (simp_all add: sess_wf_def phase_ok_def idle_def resetRequest_def reply_eq pending_def)
    show ?thesis
    proof (cases "endsWithCRLF i'")
      case False
      have "budget ?h (length bs - ?n) ((resetRequest (reply m ?s1))\<lparr>state := kNewCommand\<rparr>) st" for m
        unfolding budget_def fin(2,3) using B(1,2) out by fastforce
      then show ?thesis
        using state i(1) i'(1) True False fin(1) st n0
        by (simp add: step_bytes_def receive_bytes_def needed_def Let_def step_done_def)
    next
      case crlf: True
      have stb: "storable ?h i'" using i'(2) full crlf by (simp add: storable_def)
      have pay: "length (payload i') + 2 = pending s + ?n"
        using storable_pieces(5)[OF stb] full i'(3,4) pend unfolding complete_def totalLen_def by linarith
      have key: "length (item_key i') \<le> 250" using i'(5) i(4) by (simp add: item_key_def)
      have fits: "fits_after ?h i' (policy s) st"
        unfolding fits_after_def using B(2) pay key by fastforce
      obtain stored exists st' where so: "storeItem ?h i' (policy s) st = Some (stored, exists, st')" "store_wf ?h st'"
        "table_of ?h st' = snd (spec_store (policy s) (item_key i') (entry_of i') (table_of ?h st))"
        using storeItem_refines[OF st stb pol fits] by auto
      have vals: "length (e_value x) + (length bs - ?n) + 300 \<le> 2 ^ 31" if "fst (table_of ?h st') k = Some x" for k x
      proof -
        have "length (e_value (entry_of i')) + 2 = pending s + ?n" using pay by (simp add: entry_of_def)
        then show ?thesis
          using spec_store_values[OF that[unfolded so(3)]] B(1,2) by (fastforce simp: min_def split: if_splits)
      qed
      have "budget ?h (length bs - ?n) ((resetRequest (reply m ?s1))\<lparr>state := kNewCommand\<rparr>) st'" for m
        unfolding budget_def fin(2,3) using B(1) vals out by fastforce
      then show ?thesis
        using state i(1) i'(1) True crlf fin(1) so(1,2) n0
        by (simp add: step_bytes_def receive_bytes_def needed_def Let_def step_done_def)
    qed
  qed
qed

lemma step_ok:
  assumes "sess_wf (hash_range e) s" "store_wf (hash_range e) st" "budget (hash_range e) (length bs) s st"
    "bs \<noteq> []" "\<not> at_bad_line s bs"
  shows "\<exists>res. step_bytes e s st bs = Some res \<and> step_done e (length bs) res"
  using step_new[OF assms(1-3) _ assms(5)] step_receive[OF assms(1-3) _ assms(4)] step_discard[OF assms(1-3) _ assms(4)]
  by (cases "state s") blast+

lemma step_bad:
  assumes "sess_wf (hash_range e) s" "at_bad_line s bs"
  shows "step_bytes e s st bs = None"
  using assms processRequest_bad[OF assms(1), of "take (std_search kCRLF bs) bs" e st]
  by (simp add: at_bad_line_def step_bytes_def Let_def)

text \<open>Induction over the iterations of a well-formed session.\<close>

lemma run_induct [consumes 3, case_names Nil bad stop step]:
  assumes wf: "sess_wf (hash_range e) s" and st: "store_wf (hash_range e) st" and bud: "budget (hash_range e) (length bs) s st"
    and "\<And>s st. sess_wf (hash_range e) s \<Longrightarrow> store_wf (hash_range e) st \<Longrightarrow> budget (hash_range e) 0 s st \<Longrightarrow> P s st []"
    and "\<And>s st bs. sess_wf (hash_range e) s \<Longrightarrow> store_wf (hash_range e) st \<Longrightarrow> budget (hash_range e) (length bs) s st \<Longrightarrow>
      at_bad_line s bs \<Longrightarrow> run_bytes e s st bs = None \<Longrightarrow> P s st bs"
    and "\<And>s st bs. sess_wf (hash_range e) s \<Longrightarrow> store_wf (hash_range e) st \<Longrightarrow> budget (hash_range e) (length bs) s st \<Longrightarrow> bs \<noteq> [] \<Longrightarrow>
      state s = kNewCommand \<Longrightarrow> std_search kCRLF bs = length bs \<Longrightarrow>
      run_bytes e s st bs = Some (if length bs > 1024 then conn_call ConnShutdown s else s, st, bs) \<Longrightarrow> P s st bs"
    and "\<And>s st bs s' st' n. sess_wf (hash_range e) s \<Longrightarrow> store_wf (hash_range e) st \<Longrightarrow> budget (hash_range e) (length bs) s st \<Longrightarrow>
      bs \<noteq> [] \<Longrightarrow> step_bytes e s st bs = Some (True, s', st', n) \<Longrightarrow> step_done e (length bs) (True, s', st', n) \<Longrightarrow>
      \<not> at_bad_line s bs \<Longrightarrow> run_bytes e s st bs = run_bytes e s' st' (drop n bs) \<Longrightarrow> P s' st' (drop n bs) \<Longrightarrow> P s st bs"
  shows "P s st bs"
  using wf st bud
proof (induction "length bs" arbitrary: s st bs rule: less_induct)
  case less
  show ?case
  proof (cases "bs = [] \<or> at_bad_line s bs")
    case True
    then show ?thesis
      using assms(4,5)[of s st] less.prems step_bad[of e s bs st] by (cases "bs = []") (auto simp: run_bytes.simps[of e s st bs])
  next
    case False
    then obtain c s' st' n where r: "step_bytes e s st bs = Some (c, s', st', n)" "step_done e (length bs) (c, s', st', n)"
      using step_ok[OF less.prems] by auto
    show ?thesis
    proof (cases c)
      case True
      then have n: "0 < n" "n \<le> length bs" and w: "sess_wf (hash_range e) s'" "store_wf (hash_range e) st'"
          "budget (hash_range e) (length (drop n bs)) s' st'"
        using r(2) by (simp_all add: step_done_def)
      have "P s' st' (drop n bs)" using less.hyps[OF _ w] n False by simp
      then show ?thesis
        using assms(7)[OF less.prems] r True False n by (simp add: run_bytes.simps[of e s st bs])
    next
      case c: False
      then have "state s = kNewCommand" "std_search kCRLF bs = length bs"
        using r(1) by (auto simp: step_bytes_def Let_def split: sess_state.splits if_splits bind_splits)
      then show ?thesis
        using assms(6)[OF less.prems] False r(1) c by (simp add: run_bytes.simps[of e s st bs] step_bytes_def Let_def)
    qed
  qed
qed

lemma run_result:
  assumes "sess_wf (hash_range e) s" "store_wf (hash_range e) st" "budget (hash_range e) (length bs) s st"
    and "run_bytes e s st bs = Some (s', st', rest)"
  shows "sess_wf (hash_range e) s' \<and> store_wf (hash_range e) st' \<and> budget (hash_range e) (length rest) s' st' \<and>
    length rest \<le> length bs \<and> (rest \<noteq> [] \<longrightarrow> state s' = kNewCommand \<and> std_search kCRLF rest = length rest)"
  using assms
proof (induction rule: run_induct)
  case (Nil s st)
  then show ?case by (auto simp: run_bytes.simps)
next
  case (bad s st bs)
  then show ?case by simp
next
  case (stop s st bs)
  have "sess_wf h (conn_call c s) = sess_wf h s" "budget h n (conn_call c s) st = budget h n s st"
      "state (conn_call c s) = state s" for h c n
    by (simp_all add: conn_call_def sess_wf_def phase_ok_def idle_def budget_def pending_def split: sess_state.split)
  then show ?case using stop by (auto split: if_splits)
next
  case (step s st bs s1 st1 n)
  then show ?case by (auto simp: step_done_def)
qed

section \<open>Cutting the stream\<close>

lemma item_append_eq:
  assumes "item_wf h i"
  shows "item_append d i = (if it_receivedBytes i + length d \<le> nat (totalLen i)
    then Some (i\<lparr>it_data := it_data i @ d, it_receivedBytes := it_receivedBytes i + length d\<rparr>) else None)"
proof -
  have "take (it_receivedBytes i) (it_data i) = it_data i" "0 \<le> totalLen i" "totalLen i \<le> int (it_capacity i)"
    "it_receivedBytes i \<le> nat (totalLen i)"
    using assms by (auto simp: item_wf_def totalLen_def)
  moreover have "totalLen (i\<lparr>it_data := x, it_receivedBytes := y\<rparr>) = totalLen i" for x y by (simp add: totalLen_def)
  ultimately show ?thesis using neededBytes_wf[OF assms]
    by (simp add: item_append_def Let_def assert_that_def) linarith
qed

lemma item_append_twice:
  assumes wf: "item_wf h i" and a: "item_append d1 i = Some i'"
  shows "item_append (d1 @ d2) i = item_append d2 i'"
proof -
  have i': "i' = i\<lparr>it_data := it_data i @ d1, it_receivedBytes := it_receivedBytes i + length d1\<rparr>"
    and le: "it_receivedBytes i + length d1 \<le> nat (totalLen i)"
    using a by (simp_all add: item_append_eq[OF wf] split: if_splits)
  have "int (it_receivedBytes i + length d1) \<le> totalLen i" using le wf unfolding item_wf_def by linarith
  then have w': "item_wf h i'" using item_append_ok[OF wf, of d1] a by auto
  have t: "totalLen i' = totalLen i" by (simp add: i' totalLen_def)
  show ?thesis unfolding item_append_eq[OF wf] item_append_eq[OF w'] t by (simp add: i' add.assoc)
qed

text \<open>
  A step that takes everything and stays in its phase: the next step continues it as if both pieces had come
  together.
\<close>

definition merges :: "sess_env \<Rightarrow> session \<Rightarrow> session \<Rightarrow> store \<Rightarrow> byte list \<Rightarrow> byte list \<Rightarrow> bool" where
  "merges e s s' st xs ys \<longleftrightarrow>
     step_bytes e s st (xs @ ys) = map_option (\<lambda>(c, s2, st2, n). (c, s2, st2, length xs + n)) (step_bytes e s' st ys)"

lemma step_receive_eq:
  "state s = kReceiveValue \<Longrightarrow> step_bytes e s st bs =
    map_option (\<lambda>(s', st'). (True, s', st', min (length bs) (needed s))) (receive_bytes e (take (min (length bs) (needed s)) bs) s st)"
  by (cases "receive_bytes e (take (min (length bs) (needed s)) bs) s st") (auto simp: step_bytes_def Let_def)

lemma merge_discard:
  assumes "state s = kDiscardValue" and "length xs < bytesToDiscard s"
  shows "merges e s (s\<lparr>bytesToDiscard := bytesToDiscard s - length xs\<rparr>) st xs ys"
  using assms by (auto simp: merges_def step_bytes_def discarded_def resetRequest_def)

lemma merge_receive:
  assumes "sess_wf (hash_range e) s" and state: "state s = kReceiveValue" and i: "currItem s = Some i"
    and len: "length xs < neededBytes i" and a: "item_append xs i = Some i'"
  shows "merges e s (s\<lparr>currItem := Some i'\<rparr>) st xs ys"
proof -
  let ?h = "hash_range e" and ?s = "s\<lparr>currItem := Some i'\<rparr>"
  have wf: "item_wf ?h i" using assms by (auto simp: sess_wf_def phase_ok_def)
  have "int (it_receivedBytes i + length xs) \<le> totalLen i"
    using len neededBytes_wf[OF wf] by linarith
  then have w': "item_wf ?h i'" and r': "it_receivedBytes i' = it_receivedBytes i + length xs" "totalLen i' = totalLen i"
    using item_append_ok[OF wf, of xs] a by auto
  have need: "neededBytes i = length xs + neededBytes i'"
    using neededBytes_wf[OF wf] neededBytes_wf[OF w'] r' len by simp
  have n: "min (length (xs @ ys)) (neededBytes i) = length xs + min (length ys) (neededBytes i')" using need by simp
  have "receive_bytes e (xs @ d) s st = receive_bytes e d ?s st" for d
    using item_append_twice[OF wf a, of d] i by (simp add: receive_bytes_def)
  moreover have "take (length xs + m) (xs @ ys) = xs @ take m ys" for m by simp
  ultimately have "receive_bytes e (take (length xs + m) (xs @ ys)) s st = receive_bytes e (take m ys) ?s st" for m by simp
  moreover have "needed s = neededBytes i" "needed ?s = neededBytes i'" "state ?s = kReceiveValue"
    using i state by (simp_all add: needed_def)
  ultimately show ?thesis
    unfolding merges_def step_receive_eq[OF state] using n
    by (simp only: step_receive_eq option.map_comp) (auto intro!: option.map_cong0)
qed

lemma run_merge:
  assumes m: "merges e s s' st xs ys" and ys: "ys \<noteq> []" and xs: "xs \<noteq> []"
    and ok: "\<And>res. step_bytes e s' st ys = Some res \<Longrightarrow> fst res \<and> 0 < snd (snd (snd res))"
  shows "run_bytes e s st (xs @ ys) = run_bytes e s' st ys"
proof (cases "step_bytes e s' st ys")
  case None
  then show ?thesis using m ys by (simp add: merges_def run_bytes.simps[of e s] run_bytes.simps[of e s'])
next
  case (Some res)
  obtain c s2 st2 n where res: "res = (c, s2, st2, n)" by (cases res)
  have c: "c" "0 < n" using ok[OF Some] res by simp_all
  have "step_bytes e s st (xs @ ys) = Some (True, s2, st2, length xs + n)" using m Some res c by (simp add: merges_def)
  then show ?thesis using ys c Some res by (simp add: run_bytes.simps[of e s] run_bytes.simps[of e s'])
qed

lemma at_bad_line_append: "at_bad_line s xs \<Longrightarrow> at_bad_line s (xs @ ys)"
proof -
  assume b: "at_bad_line s xs"
  then have hit: "std_search kCRLF xs < length xs" using std_search_le[of kCRLF xs] by (simp add: at_bad_line_def nat_less_le)
  from std_search_append_hit[OF hit, of ys] show ?thesis using b hit by (simp add: at_bad_line_def)
qed

text \<open>A phase that is not over: what remains to be read by it is not empty.\<close>

lemma step_in_phase:
  assumes "sess_wf (hash_range e) s" "store_wf (hash_range e) st" "budget (hash_range e) (length ys) s st"
    "ys \<noteq> []" "state s \<noteq> kNewCommand" "step_bytes e s st ys = Some res"
  shows "fst res \<and> 0 < snd (snd (snd res))"
proof -
  have "\<not> at_bad_line s ys" using assms(5) by (simp add: at_bad_line_def)
  then have d: "step_done e (length ys) res" using step_ok[OF assms(1-4)] assms(6) by auto
  have "fst res" using assms(5,6) by (cases "state s") (auto simp: step_bytes_def Let_def split: if_splits bind_splits)
  then show ?thesis using d by (auto simp: step_done_def)
qed

lemma partial_step:
  assumes wf: "sess_wf (hash_range e) s" and st: "store_wf (hash_range e) st" and xs: "xs \<noteq> []"
    and state: "state s \<noteq> kNewCommand" and step: "step_bytes e s st xs = Some (c, s', st', n)"
  shows "(\<forall>ys. step_bytes e s st (xs @ ys) = Some (c, s', st', n)) \<and> n \<le> length xs \<or>
    (n = length xs \<and> st' = st \<and> state s' = state s \<and> pending s' \<le> pending s + length xs \<and>
     outputBuf s' = outputBuf s \<and> (\<forall>ys. merges e s s' st xs ys))"
proof (cases "state s")
  case kDiscardValue
  show ?thesis
  proof (cases "length xs < bytesToDiscard s")
    case True
    then have "s' = s\<lparr>bytesToDiscard := bytesToDiscard s - length xs\<rparr>" "st' = st" "n = length xs"
      using step kDiscardValue by (auto simp: step_bytes_def)
    then show ?thesis using merge_discard[OF kDiscardValue True, of e st] by (simp add: pending_def)
  next
    case False
    then show ?thesis using step kDiscardValue by (auto simp: step_bytes_def)
  qed
next
  case kReceiveValue
  then obtain i where i: "currItem s = Some i" "item_wf (hash_range e) i" using wf by (auto simp: sess_wf_def phase_ok_def)
  show ?thesis
  proof (cases "length xs < neededBytes i")
    case True
    have "receive_bytes e xs s st = Some (s', st')" "n = length xs"
      using step True i(1) unfolding step_receive_eq[OF kReceiveValue] by (auto simp: needed_def)
    moreover obtain i' where i': "item_append xs i = Some i'" "neededBytes i' \<noteq> 0"
      "it_receivedBytes i' - it_keylen i' \<le> it_receivedBytes i - it_keylen i + length xs"
    proof -
      have le: "int (it_receivedBytes i + length xs) \<le> totalLen i" using True neededBytes_wf[OF i(2)] by linarith
      obtain i' where i': "item_append xs i = Some i'" "item_wf (hash_range e) i'"
        "it_receivedBytes i' = it_receivedBytes i + length xs" "totalLen i' = totalLen i" "it_keylen i' = it_keylen i"
        using item_append_ok[OF i(2) le] by blast
      then have "neededBytes i' \<noteq> 0" using neededBytes_wf[OF i'(2)] neededBytes_wf[OF i(2)] True by simp
      then show thesis using that[OF i'(1)] i'(3,5) by simp
    qed
    ultimately have "s' = s\<lparr>currItem := Some i'\<rparr>" "st' = st" using i(1) by (simp_all add: receive_bytes_def)
    then show ?thesis
      using merge_receive[OF wf kReceiveValue i(1) True i'(1), of st] \<open>n = length xs\<close> i(1) i'(3) by (simp add: pending_def)
  next
    case False
    have need: "needed s = neededBytes i" using i(1) by (simp add: needed_def)
    have "min (length (xs @ ys)) (needed s) = min (length xs) (needed s)"
      "take (min (length xs) (needed s)) (xs @ ys) = take (min (length xs) (needed s)) xs" for ys
      using False need by simp_all
    then have "step_bytes e s st (xs @ ys) = step_bytes e s st xs" for ys unfolding step_receive_eq[OF kReceiveValue] by simp
    moreover have "n \<le> length xs" using step unfolding step_receive_eq[OF kReceiveValue] by auto
    ultimately show ?thesis using step by simp
  qed
qed (use state in simp)

text \<open>
  A piece of the stream, then the rest: the same as both together, unless the session had to give up a line of
  more than 1024 bytes without an end.
\<close>

lemma run_append:
  assumes "sess_wf (hash_range e) s" "store_wf (hash_range e) st" "budget (hash_range e) (length (xs @ ys)) s st"
  shows "case run_bytes e s st xs of
      None \<Rightarrow> run_bytes e s st (xs @ ys) = None
    | Some (s1, st1, rest) \<Rightarrow> length rest \<le> 1024 \<longrightarrow>
        run_bytes e s st (xs @ ys) = run_bytes e s1 st1 (rest @ ys) \<and> budget (hash_range e) (length (rest @ ys)) s1 st1"
  using assms
proof (induction "length xs" arbitrary: s st xs rule: less_induct)
  case less
  let ?h = "hash_range e"
  note wf = less.prems(1) and st = less.prems(2) and bud = less.prems(3)
  have budx: "budget ?h (length xs) s st" by (rule budget_mono[OF bud]) simp_all
  consider "xs = [] \<or> ys = []" | "at_bad_line s xs" | "xs \<noteq> []" "ys \<noteq> []" "\<not> at_bad_line s xs" by blast
  then show ?case
  proof cases
    case 1
    show ?thesis
    proof (cases "xs = []")
      case True
      then show ?thesis using bud by (simp add: run_bytes.simps[of e s st "[]"])
    next
      case False
      then have ys: "ys = []" using 1 by simp
      show ?thesis
      proof (cases "run_bytes e s st xs")
        case (Some r)
        then obtain s1 st1 rest where r: "run_bytes e s st xs = Some (s1, st1, rest)" by (cases r) auto
        have "run_bytes e s1 st1 rest = Some (s1, st1, rest)" if "length rest \<le> 1024"
          using run_result[OF wf st budx r] that
          by (cases "rest = []") (simp_all add: run_bytes.simps[of e s1 st1] step_bytes_def)
        then show ?thesis using r ys run_result[OF wf st budx r] by simp
      qed (simp add: ys)
    qed
  next
    case 2
    then have "xs \<noteq> []" by (auto simp: at_bad_line_def)
    then show ?thesis
      using 2 step_bad[OF wf] at_bad_line_append[OF 2, of ys] by (simp add: run_bytes.simps[of e s])
  next
    case 3
    obtain c s' st' n where step: "step_bytes e s st xs = Some (c, s', st', n)"
      using step_ok[OF wf st budx 3(1,3)] by auto
    have same: ?thesis if eq: "step_bytes e s st (xs @ ys) = Some (c, s', st', n)" and "c" "n \<le> length xs"
    proof -
      have "\<not> at_bad_line s (xs @ ys)" using step_bad[OF wf, of "xs @ ys" st] eq by auto
      then have d: "step_done e (length (xs @ ys)) (c, s', st', n)" using step_ok[OF wf st bud] eq 3 by auto
      then have w: "sess_wf ?h s'" "store_wf ?h st'" "0 < n" "budget ?h (length (drop n xs @ ys)) s' st'"
        using \<open>c\<close> \<open>n \<le> length xs\<close> by (simp_all add: step_done_def)
      have "length (drop n xs) < length xs" using w(3) 3(1) by simp
      moreover have "run_bytes e s st xs = run_bytes e s' st' (drop n xs)"
        "run_bytes e s st (xs @ ys) = run_bytes e s' st' (drop n xs @ ys)"
        using step eq \<open>c\<close> w(3) 3(1) \<open>n \<le> length xs\<close>
        by (simp_all add: run_bytes.simps[of e s st xs] run_bytes.simps[of e s st "xs @ ys"])
      ultimately show ?thesis using less.hyps[OF _ w(1,2,4)] by (simp only:)
    qed
    show ?thesis
    proof (cases "state s = kNewCommand")
      case True
      show ?thesis
      proof (cases "std_search kCRLF xs = length xs")
        case miss: True
        then show ?thesis using True 3 bud by (simp add: run_bytes.simps[of e s st xs] step_bytes_def)
      next
        case False
        then have hit: "std_search kCRLF xs < length xs" using std_search_le[of kCRLF xs] by (simp add: nat_less_le)
        have "step_bytes e s st (xs @ ys) = step_bytes e s st xs"
          using std_search_append_hit[OF hit, of ys] True hit by (simp add: step_bytes_def Let_def)
        moreover have "c" "n \<le> length xs"
          using step True False crlf_length[OF False] by (auto simp: step_bytes_def Let_def split: bind_splits)
        ultimately show ?thesis using same step by simp
      qed
    next
      case False
      have c: "c" using step_in_phase[OF wf st budx 3(1) False step] by simp
      from partial_step[OF wf st 3(1) False step] show ?thesis
      proof
        assume "(\<forall>ys. step_bytes e s st (xs @ ys) = Some (c, s', st', n)) \<and> n \<le> length xs"
        then show ?thesis using same c by blast
      next
        assume m: "n = length xs \<and> st' = st \<and> state s' = state s \<and> pending s' \<le> pending s + length xs \<and>
          outputBuf s' = outputBuf s \<and> (\<forall>ys. merges e s s' st xs ys)"
        have d: "step_done e (length xs) (c, s', st', n)" using step_ok[OF wf st budx 3(1,3)] step by auto
        then have w: "sess_wf ?h s'" by (simp add: step_done_def)
        have bud': "budget ?h (length ys) s' st"
          using m budget_shift[of ?h "length xs" "length ys" s st s'] bud by simp
        have "run_bytes e s st (xs @ ys) = run_bytes e s' st ys"
          using run_merge[of e s s' st xs ys] m 3 step_in_phase[OF w st bud' 3(2)] False by simp
        then show ?thesis
          using step c m 3(1) bud' by (simp add: run_bytes.simps[of e s st xs] run_bytes.simps[of e s' st "[]"])
      qed
    qed
  qed
qed

end
