(* ===== verification/Memcache_Handler.thy ===== *)
theory Memcache_Handler
  imports Memcache_Stream
begin

text \<open>
  The message handler of a memcached session on its connection's buffer: it always returns, it aborts exactly
  at the lines \<open>bad_line\<close> describes, it does not depend on how the bytes are cut into messages, and what a
  client stores is what it reads back.
\<close>

section \<open>The counter of bytes\<close>

text \<open>Only \<open>onMessage\<close> itself looks at \<open>bytesRead\<close>: all other operations commute with setting it.\<close>

abbreviation counted :: "nat \<Rightarrow> session \<Rightarrow> session" where
  "counted k s \<equiv> s\<lparr>bytesRead := k\<rparr>"

lemma counted_reply: "reply m (counted k s) = counted k (reply m s)"
  by (simp add: reply_eq)

lemma counted_doUpdate:
  "doUpdate e ws (counted k s) st = map_option (\<lambda>(f, s', st'). (f, counted k s', st')) (doUpdate e ws s st)"
  by (cases "read_update (policy_of (command s)) (hd ws) (tl ws)")
    (auto simp: doUpdate_def Let_def reply_eq assert_that_def split: bind_splits if_splits)

lemma counted_doDelete:
  "doDelete e ws (counted k s) st = map_option (\<lambda>(s', st'). (counted k s', st')) (doDelete e ws s st)"
  by (auto simp: doDelete_def Let_def reply_eq assert_that_def split: bind_splits if_splits)

lemma counted_get_keys:
  "get_keys e cas ws (counted k s) st = map_option (\<lambda>(g, s'). (g, counted k s')) (get_keys e cas ws s st)"
proof (induction ws arbitrary: s)
  case (Cons key ws)
  show ?case
  proof (cases "length key \<le> kLongestKeySize \<and> resetKey (hash_range e) key (needle s) \<noteq> None")
    case True
    then obtain n where n: "resetKey (hash_range e) key (needle s) = Some n" by blast
    have eq: "s\<lparr>bytesRead := k, needle := n\<rparr> = counted k (s\<lparr>needle := n\<rparr>)"
      "s\<lparr>bytesRead := k, needle := n, outputBuf := out\<rparr> = counted k (s\<lparr>needle := n, outputBuf := out\<rparr>)" for out
      by simp_all
    show ?thesis
    proof (cases "getItem n st")
      case None
      then show ?thesis using True n Cons.IH[of "s\<lparr>needle := n\<rparr>"] by (simp add: eq(1))
    next
      case (Some i)
      then show ?thesis using True n Cons.IH[of "s\<lparr>needle := n, outputBuf := out\<rparr>" for out]
        by (cases "item_output cas i (outputBuf s)") (simp_all add: eq(2))
    qed
  qed (auto simp: reply_eq)
qed simp

lemma counted_get_finish: "get_finish e (counted k s) = map_option (counted k) (get_finish e s)"
  by (cases "append (outputBuf s) (bytes_of (''END'' @ line_end)) 5") (simp_all add: get_finish_def Let_def conn_call_def)

lemma counted_dispatch:
  "dispatch e c ws (counted k s) st = map_option (\<lambda>(f, s', st'). (f, counted k s', st')) (dispatch e c ws s st)"
proof (cases "is_update c \<or> c = bytes_of ''get'' \<or> c = bytes_of ''gets''")
  case True
  have get: "(do { (good, s2) \<leftarrow> get_keys e cas ws (counted k s) st;
      if good then do { s3 \<leftarrow> get_finish e s2; Some (True, s3, st) } else Some (True, s2, st) }) =
    map_option (\<lambda>(f, s', st'). (f, counted k s', st')) (do { (good, s2) \<leftarrow> get_keys e cas ws s st;
      if good then do { s3 \<leftarrow> get_finish e s2; Some (True, s3, st) } else Some (True, s2, st) })" for cas
    unfolding counted_get_keys by (auto simp: counted_get_finish split: bind_splits)
  show ?thesis
  proof (cases "is_update c")
    case False
    then have "c = bytes_of ''get'' \<or> c = bytes_of ''gets''" using True by simp
    with False show ?thesis by (simp only: dispatch_def get if_False if_True)
  qed (simp add: dispatch_def counted_doUpdate)
next
  case False
  have del: "(do { (s2, st') \<leftarrow> doDelete e ws (counted k s) st; Some (True, s2, st') }) =
    map_option (\<lambda>(f, s', st'). (f, counted k s', st')) (do { (s2, st') \<leftarrow> doDelete e ws s st; Some (True, s2, st') })"
    unfolding counted_doDelete by (auto split: bind_splits)
  have calls: "conn_call x (counted k s) = counted k (conn_call x s)" for x by (simp add: conn_call_def)
  show ?thesis using False unfolding dispatch_def del by (simp add: counted_reply calls)
qed

lemma counted_processRequest:
  "processRequest e r (counted k s) st = map_option (\<lambda>(f, s', st'). (f, counted k s', st')) (processRequest e r s st)"
proof (cases "idle s")
  case False
  then show ?thesis by (auto simp: processRequest_def idle_def assert_that_def)
next
  case idle: True
  then have idle': "idle (counted k s)" by (simp add: idle_def)
  show ?thesis
  proof (cases "request_words r")
    case Nil
    then show ?thesis using idle by (simp add: processRequest_def request_words_def[symmetric] idle_def reply_eq)
  next
    case (Cons c ws)
    let ?s = "s\<lparr>requestsProcessed := requestsProcessed s + 1, noreply := has_noreply r, command := c\<rparr>"
    have eq: "(counted k s)\<lparr>requestsProcessed := requestsProcessed (counted k s) + 1, noreply := has_noreply r, command := c\<rparr> =
      counted k ?s" by simp
    show ?thesis unfolding processRequest_words[OF idle' Cons] eq counted_dispatch processRequest_words[OF idle Cons] ..
  qed
qed

lemma counted_receive:
  "receive_bytes e d (counted k s) st = map_option (\<lambda>(s', st'). (counted k s', st')) (receive_bytes e d s st)"
  by (auto simp: receive_bytes_def Let_def reply_eq resetRequest_def split: bind_splits if_splits)

lemma counted_step:
  "step_bytes e (counted k s) st bs =
   map_option (\<lambda>(c, s', st', n). (c, counted k s', st', n)) (step_bytes e s st bs)"
proof (cases "state s")
  case kNewCommand
  then show ?thesis
    by (auto simp: step_bytes_def Let_def counted_processRequest conn_call_def resetRequest_def split: bind_splits)
next
  case kReceiveValue
  then show ?thesis
    by (auto simp: step_bytes_def Let_def counted_receive needed_def split: bind_splits)
next
  case kDiscardValue
  then show ?thesis by (simp add: step_bytes_def discarded_def resetRequest_def)
qed

lemma counted_run:
  "run_bytes e (counted k s) st bs = map_option (\<lambda>(s', st', rest). (counted k s', st', rest)) (run_bytes e s st bs)"
proof (induction e s st bs rule: run_bytes.induct)
  case (1 e s st bs)
  show ?case
  proof (cases "bs = [] \<or> step_bytes e s st bs = None")
    case True
    then show ?thesis by (auto simp: run_bytes.simps[of e _ st bs] counted_step)
  next
    case False
    then obtain c s' st' n where r: "step_bytes e s st bs = Some (c, s', st', n)" by (cases "step_bytes e s st bs") auto
    show ?thesis
      using 1[OF _ r refl refl refl] False r
      by (cases "c \<and> 0 < n") (auto simp: run_bytes.simps[of e _ st bs] counted_step)
  qed
qed

lemma run_counter:
  assumes "run_bytes e s st bs = Some (s', st', rest)"
  shows "bytesRead s' = bytesRead s"
proof -
  have "s' = counted (bytesRead s) s'" using counted_run[of e "bytesRead s" s st bs] assms by simp
  then show ?thesis by (metis session.select_convs(10) session.surjective session.update_convs(10))
qed

section \<open>The loop\<close>

definition loop_agrees :: "buffer \<Rightarrow> (session \<times> store \<times> byte list) option \<Rightarrow> (session \<times> store \<times> buffer) option option \<Rightarrow> bool" where
  "loop_agrees b x y \<longleftrightarrow> (case x of
       None \<Rightarrow> y = Some None
     | Some (s, st, rest) \<Rightarrow> \<exists>b'. y = Some (Some (s, st, b')) \<and> buffer_wf b' \<and> content b' = rest \<and> buffer_used b' \<le> buffer_used b)"

lemma budget_len: "budget h n s st \<Longrightarrow> n < 2 ^ 31"
  unfolding budget_def by linarith

lemma message_loop_bytes:
  assumes "sess_wf (hash_range e) s" "store_wf (hash_range e) st" "budget (hash_range e) (length bs) s st"
    and "buffer_wf b" "content b = bs"
  shows "loop_agrees b (run_bytes e s st bs) (message_loop e s st b)"
  using assms
proof (induction arbitrary: b rule: run_induct)
  case (Nil s st)
  then show ?case
    by (simp add: loop_agrees_def run_bytes.simps[of e s st "[]"] message_loop.simps[of e s st b] readableBytes_content)
next
  case (bad s st bs)
  have "length (content b) < 2 ^ 31" using budget_len[OF bad.hyps(3)] bad.prems(2) by simp
  then have "loop_body e s st b = None"
    using loop_body_bytes[OF bad.prems(1) _ bad.hyps(1), of e st] step_bad[OF bad.hyps(1,4)] bad.prems(2) by (simp add: body_agrees_def)
  moreover have "bs \<noteq> []" using bad.hyps(4) by (auto simp: at_bad_line_def)
  ultimately show ?case
    using bad.hyps(5) bad.prems by (simp add: loop_agrees_def message_loop.simps[of e s st b] readableBytes_content)
next
  case (stop s st bs)
  have "length (content b) < 2 ^ 31" using budget_len[OF stop.hyps(3)] stop.prems(2) by simp
  then have "body_agrees b (step_bytes e s st bs) (loop_body e s st b)"
    using loop_body_bytes[OF stop.prems(1) _ stop.hyps(1), of e st] stop.prems(2) by simp
  moreover have "step_bytes e s st bs = Some (False, if length bs > 1024 then conn_call ConnShutdown s else s, st, 0)"
    using stop.hyps(5,6) by (simp add: step_bytes_def)
  ultimately show ?case
    using stop.hyps(4,7) stop.prems
    by (auto simp: loop_agrees_def body_agrees_def message_loop.simps[of e s st b] readableBytes_content)
next
  case (step s st bs s' st' n)
  have "length (content b) < 2 ^ 31" using budget_len[OF step.hyps(3)] step.prems(2) by simp
  then have "body_agrees b (step_bytes e s st bs) (loop_body e s st b)"
    using loop_body_bytes[OF step.prems(1) _ step.hyps(1), of e st] step.prems(2) by simp
  then obtain b' where b': "loop_body e s st b = Some (True, s', st', b')" "buffer_wf b'" "content b' = drop n bs"
    "buffer_used b' \<le> buffer_used b"
    using step.hyps(5) step.prems(2) by (auto simp: body_agrees_def)
  have "message_loop e s st b = message_loop e s' st' b'"
    using b'(1) step.hyps(4) step.prems by (simp add: message_loop.simps[of e s st b] readableBytes_content)
  then show ?case
    using step.IH[OF b'(2,3)] b'(4) step.hyps(8) by (auto simp: loop_agrees_def split: option.splits)
qed

text \<open>The handler: the same, with the number of bytes taken added to the counter.\<close>

definition counting :: "nat \<Rightarrow> (session \<times> store \<times> byte list) option \<Rightarrow> (session \<times> store \<times> byte list) option" where
  "counting n = map_option (\<lambda>(s, st, rest). (counted (uadd (bytesRead s) (n - length rest)) s, st, rest))"

lemma onMessage_bytes:
  assumes "sess_wf (hash_range e) s" "store_wf (hash_range e) st" "budget (hash_range e) (length (content b)) s st" "buffer_wf b"
  shows "loop_agrees b (counting (length (content b)) (run_bytes e s st (content b))) (onMessage e s st b)"
proof (cases "run_bytes e s st (content b)")
  case None
  then show ?thesis using message_loop_bytes[OF assms refl] by (simp add: loop_agrees_def counting_def onMessage_def)
next
  case (Some r)
  obtain s' st' rest where r: "run_bytes e s st (content b) = Some (s', st', rest)" using Some by (cases r) auto
  then obtain b' where b': "message_loop e s st b = Some (Some (s', st', b'))" "buffer_wf b'" "content b' = rest"
      "buffer_used b' \<le> buffer_used b"
    using message_loop_bytes[OF assms refl] by (auto simp: loop_agrees_def)
  have le: "length rest \<le> length (content b)" "length (content b) < 2 ^ 31"
    using run_result[OF assms(1-3) r] budget_len[OF assms(3)] by simp_all
  then have "usub (readableBytes b) (readableBytes b') = length (content b) - length rest"
    using b'(2,3) assms(4) by (simp add: readableBytes_content usub_exact size_limit_def)
  then show ?thesis using b' r by (simp add: loop_agrees_def counting_def onMessage_def)
qed

section \<open>A connection\<close>

text \<open>The messages of a connection: each is appended to the input buffer, then the handler runs.\<close>

fun serve :: "sess_env \<Rightarrow> byte list list \<Rightarrow> session \<times> store \<times> buffer \<Rightarrow> (session \<times> store \<times> buffer) option option" where
  "serve e [] x = Some (Some x)"
| "serve e (d # ds) (s, st, b) =
     (case append b d (length d) of
        None \<Rightarrow> Some None
      | Some b' \<Rightarrow> (case onMessage e s st b' of
            None \<Rightarrow> None
          | Some None \<Rightarrow> Some None
          | Some (Some x) \<Rightarrow> serve e ds x))"

text \<open>No message leaves more than 1024 bytes that are not a line yet.\<close>

fun short_lines :: "sess_env \<Rightarrow> byte list list \<Rightarrow> session \<times> store \<times> buffer \<Rightarrow> bool" where
  "short_lines e [] x = True"
| "short_lines e (d # ds) (s, st, b) =
     (case append b d (length d) of
        None \<Rightarrow> True
      | Some b' \<Rightarrow> (case onMessage e s st b' of
            Some (Some (s', st', b'')) \<Rightarrow> readableBytes b'' \<le> 1024 \<and> short_lines e ds (s', st', b'')
          | _ \<Rightarrow> True))"

definition settled :: "session \<Rightarrow> byte list \<Rightarrow> bool" where
  "settled s bs \<longleftrightarrow> bs = [] \<or> state s = kNewCommand \<and> std_search kCRLF bs = length bs \<and> length bs \<le> 1024"

lemma run_settled: "settled s bs \<Longrightarrow> run_bytes e s st bs = Some (s, st, bs)"
  by (auto simp: settled_def run_bytes.simps[of e s st bs] step_bytes_def)

lemma counted_wf [simp]:
  "sess_wf h (counted k s) = sess_wf h s" "budget h n (counted k s) st = budget h n s st" "settled (counted k s) bs = settled s bs"
  by (simp_all add: sess_wf_def phase_ok_def idle_def budget_def pending_def settled_def split: sess_state.split)

lemma uadd_assoc: "uadd (uadd a b) c = uadd a (b + c)"
  by (simp add: uadd_def mod_add_left_eq add.assoc)

text \<open>One message \<open>d\<close> of a stream that goes on with \<open>ys\<close>.\<close>

lemma serve_message:
  assumes wf: "sess_wf (hash_range e) s" "store_wf (hash_range e) st" and b: "buffer_wf b" "buffer_used b + length d \<le> vec_max"
    and bud: "budget (hash_range e) (length ((content b @ d) @ ys)) s st"
  shows "\<exists>b1. append b d (length d) = Some b1 \<and> (case run_bytes e s st (content b @ d) of
      None \<Rightarrow> onMessage e s st b1 = Some None \<and> run_bytes e s st ((content b @ d) @ ys) = None
    | Some (s1, st1, rest) \<Rightarrow> \<exists>b2.
        onMessage e s st b1 = Some (Some (counted (uadd (bytesRead s1) (length (content b @ d) - length rest)) s1, st1, b2)) \<and>
        buffer_wf b2 \<and> content b2 = rest \<and> buffer_used b2 \<le> buffer_used b + length d \<and>
        sess_wf (hash_range e) s1 \<and> store_wf (hash_range e) st1 \<and> length rest \<le> length (content b @ d) \<and>
        (length rest \<le> 1024 \<longrightarrow> settled s1 rest \<and> budget (hash_range e) (length (rest @ ys)) s1 st1 \<and>
           run_bytes e s st ((content b @ d) @ ys) = run_bytes e s1 st1 (rest @ ys)))"
proof -
  let ?xs = "content b @ d"
  have budx: "budget (hash_range e) (length ?xs) s st" by (rule budget_mono[OF bud]) simp_all
  obtain b1 where b1: "append b d (length d) = Some b1" "buffer_wf b1" "content b1 = ?xs" "buffer_used b1 \<le> buffer_used b + length d"
    using append_room[OF b] by blast
  have on: "loop_agrees b1 (counting (length ?xs) (run_bytes e s st ?xs)) (onMessage e s st b1)"
    using onMessage_bytes[OF wf _ b1(2)] budx b1(3) by simp
  note app = run_append[OF wf bud]
  show ?thesis
  proof (cases "run_bytes e s st ?xs")
    case None
    then show ?thesis using on app b1(1) by (simp add: loop_agrees_def counting_def)
  next
    case (Some r)
    then obtain s1 st1 rest where r: "run_bytes e s st ?xs = Some (s1, st1, rest)" by (cases r) auto
    obtain b2 where "onMessage e s st b1 = Some (Some (counted (uadd (bytesRead s1) (length ?xs - length rest)) s1, st1, b2))"
        "buffer_wf b2" "content b2 = rest" "buffer_used b2 \<le> buffer_used b1"
      using on r by (auto simp: loop_agrees_def counting_def)
    then show ?thesis
      using run_result[OF wf budx r] app r b1(1,4) by (auto simp: settled_def)
  qed
qed

lemma serve_run:
  assumes "sess_wf (hash_range e) s" "store_wf (hash_range e) st" "buffer_wf b" "settled s (content b)"
    and "budget (hash_range e) (length (content b @ concat ds)) s st" "buffer_used b + length (concat ds) \<le> vec_max"
    and "short_lines e ds (s, st, b)" "bytesRead s < size_limit"
  shows "case counting (length (content b @ concat ds)) (run_bytes e s st (content b @ concat ds)) of
      None \<Rightarrow> serve e ds (s, st, b) = Some None
    | Some (s', st', rest) \<Rightarrow> \<exists>b'. serve e ds (s, st, b) = Some (Some (s', st', b')) \<and> buffer_wf b' \<and> content b' = rest"
  using assms
proof (induction ds arbitrary: s st b)
  case Nil
  then show ?case by (auto simp: run_settled counting_def uadd_def)
next
  case (Cons d ds)
  let ?h = "hash_range e" and ?xs = "content b @ d" and ?ys = "concat ds"
  have bud: "budget ?h (length (?xs @ ?ys)) s st" and room: "buffer_used b + length d \<le> vec_max"
    using Cons.prems(5,6) by simp_all
  note msg = serve_message[OF Cons.prems(1-3) room bud]
  show ?case
  proof (cases "run_bytes e s st ?xs")
    case None
    then show ?thesis using msg by (auto simp: counting_def)
  next
    case (Some r)
    then obtain s1 st1 rest where r: "run_bytes e s st ?xs = Some (s1, st1, rest)" by (cases r) auto
    let ?k = "uadd (bytesRead s1) (length ?xs - length rest)"
    obtain b1 b2 where b1: "append b d (length d) = Some b1"
      and b2: "onMessage e s st b1 = Some (Some (counted ?k s1, st1, b2))" "buffer_wf b2" "content b2 = rest"
        "buffer_used b2 \<le> buffer_used b + length d"
      and R: "sess_wf ?h s1" "store_wf ?h st1" "length rest \<le> length ?xs"
      and S: "length rest \<le> 1024 \<Longrightarrow> settled s1 rest \<and> budget ?h (length (rest @ ?ys)) s1 st1 \<and>
        run_bytes e s st (?xs @ ?ys) = run_bytes e s1 st1 (rest @ ?ys)"
      using msg unfolding r by auto
    have short: "length rest \<le> 1024" "short_lines e ds (counted ?k s1, st1, b2)"
      using Cons.prems(7) b1 b2 by (simp_all add: readableBytes_content)
    have next_run: "run_bytes e s st (?xs @ ?ys) = run_bytes e s1 st1 (rest @ ?ys)" "budget ?h (length (rest @ ?ys)) s1 st1"
      "settled s1 rest" using S short(1) by simp_all
    have "case counting (length (content b2 @ ?ys)) (run_bytes e (counted ?k s1) st1 (content b2 @ ?ys)) of
        None \<Rightarrow> serve e ds (counted ?k s1, st1, b2) = Some None
      | Some (s', st', rest) \<Rightarrow> \<exists>b'. serve e ds (counted ?k s1, st1, b2) = Some (Some (s', st', b')) \<and> buffer_wf b' \<and> content b' = rest"
      by (rule Cons.IH) (use R b2 short(2) next_run(2,3) Cons.prems(6) in simp_all)
    moreover have "serve e (d # ds) (s, st, b) = serve e ds (counted ?k s1, st1, b2)" using b1 b2(1) by simp
    moreover have "counting (length (content b2 @ ?ys)) (run_bytes e (counted ?k s1) st1 (content b2 @ ?ys)) =
      counting (length (content b @ concat (d # ds))) (run_bytes e s st (content b @ concat (d # ds)))"
    proof (cases "run_bytes e s1 st1 (rest @ ?ys)")
      case (Some q)
      then obtain s2 st2 rest2 where q: "run_bytes e s1 st1 (rest @ ?ys) = Some (s2, st2, rest2)" by (cases q) auto
      have "length rest2 \<le> length (rest @ ?ys)" using run_result[OF R(1,2) next_run(2) q] by simp
      then show ?thesis
        using q next_run(1) b2(3) R(3) run_counter[OF q]
        by (simp add: counted_run counting_def uadd_assoc)
    qed (use next_run(1) b2(3) in \<open>simp add: counted_run counting_def\<close>)
    ultimately show ?thesis by (simp only:)
  qed
qed

text \<open>A stream of at most 1024 bytes has no line that is longer.\<close>

lemma short_stream:
  assumes "sess_wf (hash_range e) s" "store_wf (hash_range e) st" "buffer_wf b"
    and "budget (hash_range e) (length (content b @ concat ds)) s st" "buffer_used b + length (concat ds) \<le> vec_max"
    and "length (content b @ concat ds) \<le> 1024"
  shows "short_lines e ds (s, st, b)"
  using assms
proof (induction ds arbitrary: s st b)
  case (Cons d ds)
  let ?h = "hash_range e" and ?xs = "content b @ d" and ?ys = "concat ds"
  have bud: "budget ?h (length (?xs @ ?ys)) s st" and room: "buffer_used b + length d \<le> vec_max"
    using Cons.prems(4,5) by simp_all
  note msg = serve_message[OF Cons.prems(1-3) room bud]
  show ?case
  proof (cases "run_bytes e s st ?xs")
    case None
    then show ?thesis using msg by auto
  next
    case (Some r)
    then obtain s1 st1 rest where r: "run_bytes e s st ?xs = Some (s1, st1, rest)" by (cases r) auto
    let ?k = "uadd (bytesRead s1) (length ?xs - length rest)"
    obtain b1 b2 where b1: "append b d (length d) = Some b1"
      and b2: "onMessage e s st b1 = Some (Some (counted ?k s1, st1, b2))" "buffer_wf b2" "content b2 = rest"
        "buffer_used b2 \<le> buffer_used b + length d"
      and R: "sess_wf ?h s1" "store_wf ?h st1" "length rest \<le> length ?xs"
      and S: "length rest \<le> 1024 \<Longrightarrow> budget ?h (length (rest @ ?ys)) s1 st1"
      using msg unfolding r by auto
    have short: "length rest \<le> 1024" using R(3) Cons.prems(6) by simp
    have "short_lines e ds (counted ?k s1, st1, b2)"
      by (rule Cons.IH) (use R b2 short S Cons.prems(5,6) in simp_all)
    then show ?thesis using b1 b2 short by (simp add: readableBytes_content)
  qed
qed simp

text \<open>A new session is well-formed.\<close>

lemma new_Session_ok:
  assumes "new_Session e = Some s"
  shows "sess_wf (hash_range e) s" "bytesRead s = 0" "state s = kNewCommand" "conn_calls s = []" "pending s = 0"
    "content (outputBuf s) = []" "buffer_used (outputBuf s) = kCheapPrepend" "\<not> noreply s"
proof -
  have "kCheapPrepend + kInitialSize \<le> vec_max" by (simp add: kCheapPrepend_def kInitialSize_def vec_max_def)
  then obtain ob where ob: "new_Buffer kInitialSize = Some ob" "buffer_wf ob" "content ob = []" "readerIndex ob = kCheapPrepend"
    using new_Buffer_ok by blast
  have "length kLongestKey = 250" by (simp add: kLongestKey_def kLongestKeySize_def)
  then obtain n where n: "makeItem (hash_range e) kLongestKey 0 0 2 0 = Some n" "it_valuelen n = 2" "item_wf (hash_range e) n" "it_keylen n = 250"
    using makeItem_ok[of 2 kLongestKey "hash_range e"] by fastforce
  have "needle_ok n" using n(2-4) by (simp add: needle_ok_def item_wf_def totalLen_def)
  moreover have "buffer_used ob = kCheapPrepend"
    using ob(2-4) length_content[OF ob(2)] buffer_wf_bounds[OF ob(2)] by (simp add: buffer_used_def)
  moreover have "s = \<lparr>state = kNewCommand, protocol = kAscii, command = [], noreply = False, policy = kInvalidPolicy,
      currItem = None, bytesToDiscard = 0, needle = n, outputBuf = ob, bytesRead = 0, requestsProcessed = 0, conn_calls = []\<rparr>"
    using assms n(1) ob(1) by (simp add: new_Session_def)
  ultimately show "sess_wf (hash_range e) s" "bytesRead s = 0" "state s = kNewCommand" "conn_calls s = []" "pending s = 0"
      "content (outputBuf s) = []" "buffer_used (outputBuf s) = kCheapPrepend" "\<not> noreply s"
    using ob(2,3) by (simp_all add: sess_wf_def phase_ok_def idle_def pending_def)
qed

text \<open>The table leaves room for \<open>n\<close> more bytes in every value.\<close>

definition room_for :: "(byte list \<Rightarrow> 64 word) \<Rightarrow> nat \<Rightarrow> store \<Rightarrow> bool" where
  "room_for h n st \<longleftrightarrow> n + 300 \<le> 2 ^ 31 \<and> (\<forall>k x. fst (table_of h st) k = Some x \<longrightarrow> length (e_value x) + n + 300 \<le> 2 ^ 31)"

lemma new_Session_budget:
  assumes "new_Session e = Some s" and "room_for h n st"
  shows "budget h n s st"
proof -
  note N = new_Session_ok[OF assms(1)]
  have "(n + 300) * 2 ^ 32 \<le> 2 ^ 31 * 2 ^ 32" using assms(2) unfolding room_for_def by (intro mult_right_mono) simp_all
  then have "buffer_used (outputBuf s) + n * 2 ^ 32 \<le> vec_max"
    unfolding N(7) by (simp add: vec_max_def kCheapPrepend_def add_mult_distrib)
  then show ?thesis unfolding budget_def N(5) using assms(2) unfolding room_for_def by simp
qed

lemma new_Buffer_fresh:
  assumes "new_Buffer kInitialSize = Some b" and "n + 300 \<le> 2 ^ 31"
  shows "buffer_wf b \<and> content b = [] \<and> buffer_used b + n \<le> vec_max"
proof -
  have "kCheapPrepend + kInitialSize \<le> vec_max" by (simp add: kCheapPrepend_def kInitialSize_def vec_max_def)
  then have b: "buffer_wf b" "content b = []" "readerIndex b = kCheapPrepend" using new_Buffer_ok assms(1) by force+
  then have "buffer_used b = kCheapPrepend"
    using length_content[OF b(1)] buffer_wf_bounds[OF b(1)] by (simp add: buffer_used_def)
  then show ?thesis using b assms(2) by (simp add: kCheapPrepend_def vec_max_def)
qed

lemma serve_new:
  assumes "new_Session e = Some s" "new_Buffer kInitialSize = Some b" "store_wf (hash_range e) st"
    "room_for (hash_range e) (length (concat ds)) st" "short_lines e ds (s, st, b)"
  shows "case counting (length (concat ds)) (run_bytes e s st (concat ds)) of
      None \<Rightarrow> serve e ds (s, st, b) = Some None
    | Some (s', st', rest) \<Rightarrow> \<exists>b'. serve e ds (s, st, b) = Some (Some (s', st', b')) \<and> buffer_wf b' \<and> content b' = rest"
proof -
  have B: "buffer_wf b" "content b = []" "buffer_used b + length (concat ds) \<le> vec_max"
    using new_Buffer_fresh[OF assms(2), of "length (concat ds)"] assms(4) by (simp_all add: room_for_def)
  note N = new_Session_ok[OF assms(1)]
  show ?thesis
    using serve_run[OF N(1) assms(3) B(1) _ _ B(3) assms(5)] new_Session_budget[OF assms(1,4)] B(2) N(2)
    by (simp add: settled_def)
qed

end
