(* ===== verification/Memcache_Server.thy ===== *)
theory Memcache_Server
  imports Memcache_Handler
begin

text \<open>
  What a client of the memcached server sees on a new connection: when the server aborts, that the cutting of
  the stream into messages does not matter, and that a value stored is the value read.
\<close>

declare serve.simps(2) [simp del]

section \<open>When the server aborts\<close>

lemma step_prefix:
  assumes step: "step_bytes e s st bs = Some (True, s', st', n)" and "n \<le> m" "m \<le> length bs"
  shows "step_bytes e s st (take m bs) = Some (True, s', st', n)"
proof (cases "state s")
  case kNewCommand
  let ?i = "std_search kCRLF bs"
  have hit: "?i \<noteq> length bs" using step kNewCommand by (auto simp: step_bytes_def)
  then have n: "n = ?i + 2" using step kNewCommand by (auto simp: step_bytes_def Let_def split: bind_splits)
  have "prefix kCRLF (drop ?i bs)" using std_search_hit[of kCRLF bs] hit std_search_le[of kCRLF bs] by (simp add: nat_less_le)
  then obtain zs where "drop ?i bs = kCRLF @ zs" by (auto simp: prefix_def)
  then have "prefix kCRLF (take (m - ?i) (drop ?i bs))"
    using n assms(2) by simp
  then have "prefix kCRLF (drop ?i (take m bs))" by (simp add: drop_take)
  then have "std_search kCRLF (take m bs) \<noteq> length (take m bs)" using std_search_miss[of kCRLF "take m bs"] by auto
  then have "std_search kCRLF (take m bs) < length (take m bs)" using std_search_le[of kCRLF "take m bs"] by (simp add: nat_less_le)
  then have "std_search kCRLF (take m bs) = ?i" using std_search_append_hit[of kCRLF "take m bs" "drop m bs"] by simp
  then show ?thesis using step kNewCommand hit n assms(2,3) by (simp add: step_bytes_def Let_def min_def)
next
  case kReceiveValue
  have "n = min (length bs) (needed s)" using step unfolding step_receive_eq[OF kReceiveValue] by auto
  then have "min (length (take m bs)) (needed s) = min (length bs) (needed s)"
    "take (min (length bs) (needed s)) (take m bs) = take (min (length bs) (needed s)) bs"
    using assms(2,3) by (auto simp: min_def)
  then show ?thesis using step unfolding step_receive_eq[OF kReceiveValue] by (simp only:)
next
  case kDiscardValue
  then show ?thesis using assms by (auto simp: step_bytes_def min_def split: if_splits)
qed

lemma run_aborts:
  assumes "sess_wf (hash_range e) s" "store_wf (hash_range e) st" "budget (hash_range e) (length bs) s st"
    and "run_bytes e s st bs = None"
  shows "\<exists>n s' st'. n \<le> length bs \<and> run_bytes e s st (take n bs) = Some (s', st', []) \<and> at_bad_line s' (drop n bs)"
  using assms
proof (induction rule: run_induct)
  case (bad s st bs)
  then show ?case by (intro exI[of _ 0] exI[of _ s] exI[of _ st]) (simp add: run_bytes.simps[of e s st "[]"])
next
  case (step s st bs s1 st1 n)
  then obtain m s' st' where m: "m \<le> length (drop n bs)" "run_bytes e s1 st1 (take m (drop n bs)) = Some (s', st', [])"
      "at_bad_line s' (drop m (drop n bs))" by auto
  have n: "0 < n" "n \<le> length bs" using step.hyps(6) by (simp_all add: step_done_def)
  have "step_bytes e s st (take (n + m) bs) = Some (True, s1, st1, n)"
    using step_prefix[OF step.hyps(5), of "n + m"] m(1) n(2) by simp
  then have "run_bytes e s st (take (n + m) bs) = run_bytes e s1 st1 (take m (drop n bs))"
    using n step.hyps(4) by (simp add: run_bytes.simps[of e s st] drop_take)
  then show ?case using m n by (intro exI[of _ "n + m"]) (auto simp: add.commute)
qed (simp_all add: run_bytes.simps)

lemma run_aborts_iff:
  assumes "sess_wf (hash_range e) s" "store_wf (hash_range e) st" "budget (hash_range e) (length bs) s st"
  shows "run_bytes e s st bs = None \<longleftrightarrow>
    (\<exists>n s' st'. n \<le> length bs \<and> run_bytes e s st (take n bs) = Some (s', st', []) \<and> at_bad_line s' (drop n bs))"
proof
  assume "\<exists>n s' st'. n \<le> length bs \<and> run_bytes e s st (take n bs) = Some (s', st', []) \<and> at_bad_line s' (drop n bs)"
  then obtain n s' st' where n: "n \<le> length bs" "run_bytes e s st (take n bs) = Some (s', st', [])" "at_bad_line s' (drop n bs)" by blast
  have b: "budget (hash_range e) (length (take n bs)) s st" by (rule budget_mono[OF assms(3)]) simp_all
  have "run_bytes e s st bs = run_bytes e s' st' (drop n bs)"
    using run_append[OF assms(1,2), of "take n bs" "drop n bs"] assms(3) n(2) by simp
  moreover have "sess_wf (hash_range e) s'" using run_result[OF assms(1,2) b n(2)] by simp
  moreover have "drop n bs \<noteq> []" using n(3) by (auto simp: at_bad_line_def)
  ultimately show "run_bytes e s st bs = None" using step_bad n(3) by (simp add: run_bytes.simps[of e s'])
qed (rule run_aborts[OF assms])

lemma serve_single:
  assumes "new_Session e = Some s" "new_Buffer kInitialSize = Some b" "store_wf (hash_range e) st"
    "room_for (hash_range e) (length d) st"
  shows "case run_bytes e s st d of
      None \<Rightarrow> serve e [d] (s, st, b) = Some None
    | Some (s', st', rest) \<Rightarrow> \<exists>b'. serve e [d] (s, st, b) = Some (Some (counted (length d - length rest) s', st', b')) \<and> content b' = rest"
proof -
  note N = new_Session_ok[OF assms(1)]
  have B: "buffer_wf b" "content b = []" "buffer_used b + length d \<le> vec_max"
    using new_Buffer_fresh[OF assms(2), of "length d"] assms(4) by (simp_all add: room_for_def)
  have bud: "budget (hash_range e) (length ((content b @ d) @ [])) s st"
    using new_Session_budget[OF assms(1,4)] B(2) by simp
  have count: "uadd 0 (length d - n) = length d - n" for n
  proof -
    have "length d < 2 ^ 31" using assms(4) unfolding room_for_def by linarith
    then show ?thesis by (simp add: uadd_def size_limit_def)
  qed
  show ?thesis
  proof (cases "run_bytes e s st d")
    case None
    then show ?thesis using serve_message[OF N(1) assms(3) B(1,3) bud] B(2) by (auto simp: serve.simps)
  next
    case (Some r)
    then obtain s1 st1 rest where r: "run_bytes e s st d = Some (s1, st1, rest)" by (cases r) auto
    show ?thesis
      using serve_message[OF N(1) assms(3) B(1,3) bud] B(2) r run_counter[OF r] N(2) count[of "length rest"]
      by (auto simp: serve.simps)
  qed
qed

text \<open>
  C17. For every stream that a new connection sends in one message, the message handler returns; it aborts the
  server if and only if, at a point where a command is expected and nothing is left over, there comes a
  complete line that is an update or a deletion without a key, or an update with a negative number of
  bytes or with one that is too large to add 2 to it.
\<close>

theorem memcache_aborts:
  assumes "new_Session e = Some s" "new_Buffer kInitialSize = Some b" "store_wf (hash_range e) st"
    "room_for (hash_range e) (length d) st"
  shows "\<exists>r. serve e [d] (s, st, b) = Some r \<and>
    (r = None \<longleftrightarrow> (\<exists>p line q s' st' b'. d = p @ line @ kCRLF @ q \<and> std_search kCRLF (line @ kCRLF @ q) = length line \<and>
       bad_line line \<and> serve e [p] (s, st, b) = Some (Some (s', st', b')) \<and> content b' = [] \<and> state s' = kNewCommand))"
proof -
  note N = new_Session_ok[OF assms(1)] and B = new_Session_budget[OF assms(1,4)]
  have room: "room_for (hash_range e) n st" if "n \<le> length d" for n
    using assms(4) that unfolding room_for_def by fastforce
  have "run_bytes e s st d = None \<longleftrightarrow> (\<exists>p line q s' st' b'. d = p @ line @ kCRLF @ q \<and>
      std_search kCRLF (line @ kCRLF @ q) = length line \<and> bad_line line \<and>
      serve e [p] (s, st, b) = Some (Some (s', st', b')) \<and> content b' = [] \<and> state s' = kNewCommand)" (is "_ \<longleftrightarrow> ?bad")
  proof
    assume "run_bytes e s st d = None"
    then obtain n s' st' where n: "n \<le> length d" "run_bytes e s st (take n d) = Some (s', st', [])" "at_bad_line s' (drop n d)"
      using run_aborts[OF N(1) assms(3) B] by blast
    let ?i = "std_search kCRLF (drop n d)"
    have i: "?i < length (drop n d)" "state s' = kNewCommand" "bad_line (take ?i (drop n d))"
      using n(3) std_search_le[of kCRLF "drop n d"] by (simp_all add: at_bad_line_def nat_less_le)
    obtain q where q: "drop ?i (drop n d) = kCRLF @ q" using std_search_hit[OF i(1)] by (auto simp: prefix_def)
    have d: "drop n d = take ?i (drop n d) @ kCRLF @ q" using q append_take_drop_id[of ?i "drop n d"] by simp
    obtain b' where b': "serve e [take n d] (s, st, b) = Some (Some (counted n s', st', b'))" "content b' = []"
      using serve_single[OF assms(1-3) room, of "take n d"] n(1,2) by (auto simp: min_absorb2)
    have "d = take n d @ take ?i (drop n d) @ kCRLF @ q" using d append_take_drop_id[of n d] by simp
    moreover have "std_search kCRLF (take ?i (drop n d) @ kCRLF @ q) = length (take ?i (drop n d))" using d i(1) by simp
    ultimately show ?bad using b' i(2,3) by (metis (no_types, lifting) session.select_convs(1) session.update_convs(10) session.surjective)
  next
    assume ?bad
    then obtain p line q s' st' b' where d: "d = p @ line @ kCRLF @ q" "std_search kCRLF (line @ kCRLF @ q) = length line" "bad_line line"
      "serve e [p] (s, st, b) = Some (Some (s', st', b'))" "content b' = []" "state s' = kNewCommand" by blast
    obtain s1 where "run_bytes e s st p = Some (s1, st', [])" "state s1 = kNewCommand"
      using serve_single[OF assms(1-3) room, of p] d by (cases "run_bytes e s st p") auto
    then have "run_bytes e s st (take (length p) d) = Some (s1, st', [])" "at_bad_line s1 (drop (length p) d)" "length p \<le> length d"
      using d(1-3) by (simp_all add: at_bad_line_def)
    then show "run_bytes e s st d = None" using run_aborts_iff[OF N(1) assms(3) B] by blast
  qed
  then show ?thesis using serve_single[OF assms] by (cases "run_bytes e s st d") auto
qed

lemma new_Session_Some: "\<exists>s. new_Session e = Some s"
proof -
  have "kCheapPrepend + kInitialSize \<le> vec_max" by (simp add: kCheapPrepend_def kInitialSize_def vec_max_def)
  then obtain b where b: "new_Buffer kInitialSize = Some b" using new_Buffer_ok by blast
  obtain n where "makeItem (hash_range e) kLongestKey 0 0 2 0 = Some n"
    using makeItem_ok[of 2 kLongestKey "hash_range e"] by (fastforce simp: kLongestKey_def kLongestKeySize_def)
  then show ?thesis using b by (simp add: new_Session_def)
qed

definition sample_env :: sess_env where
  "sample_env = \<lparr>hash_range = (\<lambda>k. of_nat (length k)), out_writable = (\<lambda>cs. 0), is_connected = (\<lambda>cs. True)\<rparr>"

lemma sample_start: "\<exists>s b. new_Session sample_env = Some s \<and> new_Buffer kInitialSize = Some b"
  using new_Session_Some new_Buffer_ok[of kInitialSize] by (auto simp: kCheapPrepend_def kInitialSize_def vec_max_def)

lemma new_store_ok: "store_wf h (new_store t)" "n + 300 \<le> 2 ^ 31 \<Longrightarrow> room_for h n (new_store t)"
  by (simp_all add: store_wf_def new_store_def room_for_def table_of_def)

theorem memcache_aborts_witness:
  "\<exists>s b. new_Session sample_env = Some s \<and> new_Buffer kInitialSize = Some b \<and>
     serve sample_env [bytes_of ''set'' @ kCRLF] (s, new_store 0, b) = Some None"
proof -
  obtain s b where sb: "new_Session sample_env = Some s" "new_Buffer kInitialSize = Some b" using sample_start by blast
  have room: "room_for (hash_range sample_env) (length (bytes_of ''set'' @ kCRLF)) (new_store 0)"
    "room_for (hash_range sample_env) (length []) (new_store 0)"
    by (rule new_store_ok; simp)+
  obtain r where r: "serve sample_env [bytes_of ''set'' @ kCRLF] (s, new_store 0, b) = Some r"
    "(r = None \<longleftrightarrow> (\<exists>p line q s' st' b'. bytes_of ''set'' @ kCRLF = p @ line @ kCRLF @ q \<and> std_search kCRLF (line @ kCRLF @ q) = length line \<and>
       bad_line line \<and> serve sample_env [p] (s, new_store 0, b) = Some (Some (s', st', b')) \<and> content b' = [] \<and> state s' = kNewCommand))"
    using memcache_aborts[OF sb new_store_ok(1) room(1)] by blast
  obtain s' b' where e: "serve sample_env [[]] (s, new_store 0, b) = Some (Some (s', new_store 0, b'))" "content b' = []" "state s' = kNewCommand"
    using serve_single[OF sb new_store_ok(1) room(2)] new_Session_ok(3)[OF sb(1)] by (auto simp: run_bytes.simps)
  have "bytes_of ''set'' @ kCRLF = [] @ bytes_of ''set'' @ kCRLF @ []" by simp
  moreover have "std_search kCRLF (bytes_of ''set'' @ kCRLF @ []) = length (bytes_of ''set'')" "bad_line (bytes_of ''set'')"
    by code_simp+
  ultimately have "r = None" using r(2) e by blast
  then show ?thesis using r(1) sb by blast
qed

section \<open>Messages\<close>

text \<open>What there is to see after a message; the place of the bytes in the buffer's memory is left out.\<close>

fun view :: "session \<times> store \<times> buffer \<Rightarrow> session \<times> store \<times> byte list" where
  "view (s, st, b) = (s, st, content b)"

text \<open>
  C14. How a stream is cut into messages does not matter: if the same bytes arrive on a new connection in two
  different sequences of messages, and no message leaves more than 1024 bytes of an unfinished line, then the server
  aborts in both cases or in none, and otherwise the session with all its replies, the table and what is left
  in the buffer are the same.
\<close>

theorem memcache_stream:
  assumes "new_Session e = Some s" "new_Buffer kInitialSize = Some b" "store_wf (hash_range e) st"
    "room_for (hash_range e) (length (concat ds)) st" "concat ds = concat ds'"
    "short_lines e ds (s, st, b)" "short_lines e ds' (s, st, b)"
  shows "\<exists>r r'. serve e ds (s, st, b) = Some r \<and> serve e ds' (s, st, b) = Some r' \<and> map_option view r = map_option view r'"
proof -
  note 1 = serve_new[OF assms(1-4,6)] and 2 = serve_new[OF assms(1-3) assms(4)[unfolded assms(5)] assms(7)]
  show ?thesis
    using 1 2 unfolding assms(5)
    by (cases "counting (length (concat ds')) (run_bytes e s st (concat ds'))") auto
qed

theorem memcache_stream_witness:
  "\<exists>s b r r'. new_Session sample_env = Some s \<and> new_Buffer kInitialSize = Some b \<and>
     serve sample_env [bytes_of ''set k 0 0 1'' @ [13], [10] @ bytes_of ''v'' @ [13], [10]] (s, new_store 0, b) = Some r \<and>
     serve sample_env [bytes_of ''set k 0 0 1'' @ kCRLF @ bytes_of ''v'' @ kCRLF] (s, new_store 0, b) = Some r' \<and>
     map_option view r = map_option view r'"
proof -
  let ?ds = "[bytes_of ''set k 0 0 1'' @ [13], [10] @ bytes_of ''v'' @ [13], [10]]" and ?h = "hash_range sample_env"
  let ?ds' = "[bytes_of ''set k 0 0 1'' @ kCRLF @ bytes_of ''v'' @ kCRLF]"
  obtain s b where sb: "new_Session sample_env = Some s" "new_Buffer kInitialSize = Some b" using sample_start by blast
  have room: "room_for ?h (length (concat ?ds)) (new_store 0)" by (rule new_store_ok) simp
  have eq: "concat ?ds = concat ?ds'" by (simp add: kCRLF_def)
  have B: "buffer_wf b" "content b = []" "buffer_used b + length (concat ?ds) \<le> vec_max"
    using new_Buffer_fresh[OF sb(2), of "length (concat ?ds)"] by simp_all
  have short: "short_lines sample_env xs (s, new_store 0, b)" if "concat xs = concat ?ds" for xs
    by (rule short_stream[OF new_Session_ok(1)[OF sb(1)] new_store_ok(1) B(1)])
      (use that B new_Session_budget[OF sb(1) room] in simp_all)
  show ?thesis
    using memcache_stream[OF sb new_store_ok(1) room eq short[OF refl] short[OF eq[symmetric]]] sb by blast
qed

section \<open>Connections\<close>

text \<open>
  As long as no name is in use twice and every connection goes down once, a session is there exactly for the
  connections that are up.
\<close>

fun open_names :: "(bool \<times> string) list \<Rightarrow> string set \<Rightarrow> string set option" where
  "open_names [] ns = Some ns"
| "open_names ((up, n) # xs) ns =
     (if up \<longleftrightarrow> n \<notin> ns then open_names xs (if up then insert n ns else ns - {n}) else None)"

fun connections :: "sess_env \<Rightarrow> (bool \<times> string) list \<Rightarrow> (string \<rightharpoonup> session) \<Rightarrow> (string \<rightharpoonup> session) option" where
  "connections e [] m = Some m"
| "connections e ((up, n) # xs) m = Option.bind (server_onConnection e up n m) (connections e xs)"

lemma connections_sessions:
  "map_option dom (connections e xs m) = open_names xs (dom m)"
proof (induction xs arbitrary: m)
  case (Cons x xs)
  obtain up n where x: "x = (up, n)" by (cases x)
  obtain s where s: "new_Session e = Some s" using new_Session_Some by blast
  have d: "dom (\<lambda>a. if a = n then Some s else m a) = insert n (dom m)" "dom (\<lambda>a. if a = n then None else m a) = dom m - {n}"
    by (auto split: if_splits)
  show ?case
    using s by (cases up; cases "m n") (simp_all add: x server_onConnection_def Cons.IH domIff d)
qed simp

end
