(* ===== verification/Memcache_Roundtrip.thy ===== *)
theory Memcache_Roundtrip
  imports Memcache_Server
begin

text \<open>
  What a client stores with \<open>set\<close> it reads with \<open>get\<close>: the numbers of the command line are read back by \<open>strtoull\<close>
  and printed by \<open>LogStream\<close>, the value goes through the item and the table.
\<close>

section \<open>Numbers\<close>

lemma digit_byte:
  assumes "d < 10"
  shows "(of_nat (of_char (digit_char d)) :: byte) = of_nat (48 + d)" "is_digit (of_nat (of_char (digit_char d)))"
    "unat (of_nat (of_char (digit_char d)) :: byte) = 48 + d"
proof -
  have c: "(of_char (digit_char d) :: nat) = 48 + d" using assms by (simp add: digit_char_def)
  show u: "unat (of_nat (of_char (digit_char d)) :: byte) = 48 + d" unfolding c using assms by (simp only: unsigned_of_nat) (simp add: take_bit_nat_def)
  show "(of_nat (of_char (digit_char d)) :: byte) = of_nat (48 + d)" by (simp only: c)
  show "is_digit (of_nat (of_char (digit_char d)))"
    unfolding is_digit_def word_le_nat_alt u using assms by simp
qed

lemma digits_show: "list_all is_digit (bytes_of (show_nat n))"
  using show_base_digits[of _ 10 n] digit_byte(2) by (fastforce simp: bytes_of_def list_all_iff)

lemma dec_value_append: "dec_value (xs @ [c]) = dec_value xs * 10 + (unat c - 48)"
  by (simp add: dec_value_def)

lemma dec_value_show: "dec_value (bytes_of (show_nat n)) = n"
proof (induction n rule: less_induct)
  case (less n)
  show ?case
  proof (cases "n < 10")
    case True
    then show ?thesis using digit_byte(3)[of n] by (simp add: show_base.simps dec_value_def bytes_of_def)
  next
    case False
    then have "show_nat n = show_nat (n div 10) @ [digit_char (n mod 10)]" by (subst show_base.simps) simp
    moreover have "dec_value (bytes_of (show_nat (n div 10))) = n div 10" using less False by simp
    moreover have "unat (of_nat (of_char (digit_char (n mod 10))) :: byte) = 48 + n mod 10" by (rule digit_byte(3)) simp
    ultimately show ?thesis by (simp add: bytes_of_def[of "[_]"] dec_value_append)
  qed
qed

lemma is_digit_neq: "is_digit c \<Longrightarrow> \<not> is_white c \<and> c \<noteq> 45 \<and> c \<noteq> 43 \<and> c \<noteq> 32 \<and> c \<noteq> 13 \<and> c \<noteq> 121"
  by (auto simp: is_digit_def is_white_def word_le_nat_alt)

lemma strtoull_show:
  assumes "n < 2 ^ 64"
  shows "strtoull (bytes_of (show_nat n)) = Some (word_of_nat n)"
proof -
  let ?s = "bytes_of (show_nat n)"
  have ne: "?s \<noteq> []" by (simp add: bytes_of_def)
  then have "is_digit (hd ?s)" using digits_show[of n] by (cases ?s) simp_all
  note D = is_digit_neq[OF this]
  have "dropWhile is_white ?s = ?s" using D ne by (cases ?s) simp_all
  then show ?thesis using D ne digits_show[of n] dec_value_show[of n] assms by (simp add: strtoull_def)
qed

section \<open>Words\<close>

lemma tokens_word:
  assumes "w \<noteq> []" "32 \<notin> set w"
  shows "tokens w = [w]" "tokens (w @ 32 # r) = w # tokens r"
proof -
  have "hd w \<noteq> 32" using assms by (cases w) auto
  then have d: "dropWhile (\<lambda>c. c = 32) (w @ x) = w @ x" for x using assms(1) by (cases w) simp_all
  have t: "takeWhile (\<lambda>c. c \<noteq> 32) (w @ 32 # r) = w" "dropWhile (\<lambda>c. c \<noteq> 32) (w @ 32 # r) = 32 # r"
    "takeWhile (\<lambda>c. c \<noteq> 32) (w @ []) = w" "dropWhile (\<lambda>c. c \<noteq> 32) (w @ []) = []"
    using assms(2) by (auto simp: takeWhile_append dropWhile_append dropWhile_eq_Nil_conv takeWhile_eq_all_conv)
  have "tokens (32 # r) = tokens r" by (subst (1 2) tokens.simps) simp
  then show "tokens (w @ 32 # r) = w # tokens r"
    using assms(1) t(1,2) d[of "32 # r"] by (subst tokens.simps) simp
  have "tokens [] = []" by (simp add: tokens.simps[of "[]"])
  then show "tokens w = [w]" using assms(1) t(3,4)[unfolded append_Nil2] d[of "[]"] tokens.simps[of w] by (simp only: append_Nil2 Let_def if_False)
qed

text \<open>The last word of a line.\<close>

lemma last_word:
  assumes "xs @ (32::byte) # k = ys @ 32 # k'" and "32 \<notin> set k" "32 \<notin> set k'"
  shows "k = k'"
proof -
  have "rev k @ 32 # rev xs = rev k' @ 32 # rev ys" using arg_cong[OF assms(1), of rev] by simp
  then have "takeWhile (\<lambda>c. c \<noteq> 32) (rev k @ 32 # rev xs) = takeWhile (\<lambda>c. c \<noteq> 32) (rev k' @ 32 # rev ys)" by simp
  moreover have "takeWhile (\<lambda>c. c \<noteq> 32) (rev x @ 32 # y) = rev x" if "32 \<notin> set x" for x y :: "byte list"
    using that by (auto simp: takeWhile_append)
  ultimately have "rev k = rev k'" using assms(2,3) by simp
  then show ?thesis by simp
qed

lemma noreply_suffix:
  assumes "32 \<notin> set k" and "k \<noteq> bytes_of ''noreply''"
  shows "\<not> has_noreply (xs @ 32 # k)"
proof
  assume h: "has_noreply (xs @ 32 # k)"
  let ?l = "xs @ 32 # k"
  have "?l = take (length ?l - 8) ?l @ bytes_of '' noreply''"
    using h append_take_drop_id[of "length ?l - 8" ?l] by (simp add: has_noreply_def)
  moreover have "bytes_of '' noreply'' = 32 # bytes_of ''noreply''" by (simp add: bytes_of_def)
  ultimately have "xs @ 32 # k = take (length ?l - 8) ?l @ 32 # bytes_of ''noreply''" by (simp only:)
  moreover have "32 \<notin> set (bytes_of ''noreply'')" by (simp add: bytes_of_def)
  ultimately show False using last_word assms by blast
qed

text \<open>A word that \<open>set\<close> and \<open>get\<close> take for a key.\<close>

definition is_key :: "byte list \<Rightarrow> bool" where
  "is_key k \<longleftrightarrow> k \<noteq> [] \<and> length k \<le> 250 \<and> 32 \<notin> set k \<and> 13 \<notin> set k \<and> k \<noteq> bytes_of ''noreply''"

definition set_line :: "byte list \<Rightarrow> 32 word \<Rightarrow> nat \<Rightarrow> byte list" where
  "set_line k f n = bytes_of ''set'' @ [32] @ k @ [32] @ bytes_of (show_nat (unat f)) @ [32] @ bytes_of ''0'' @ [32] @ bytes_of (show_nat n)"

definition get_line :: "byte list \<Rightarrow> byte list" where
  "get_line k = bytes_of ''get'' @ [32] @ k"

lemma show_word: "bytes_of (show_nat n) \<noteq> [] \<and> 32 \<notin> set (bytes_of (show_nat n)) \<and> 13 \<notin> set (bytes_of (show_nat n)) \<and>
    bytes_of (show_nat n) \<noteq> bytes_of ''noreply''"
proof -
  have "\<not> list_all is_digit (bytes_of ''noreply'')" by code_simp
  then show ?thesis using digits_show[of n] is_digit_neq by (auto simp: list_all_iff simp del: show_base.simps) (simp add: bytes_of_def)
qed

lemma fixed_words [simp]:
  "bytes_of ''set'' = [115, 101, 116]" "bytes_of ''get'' = [103, 101, 116]" "bytes_of ''0'' = [48]"
  by (simp_all add: bytes_of_def)

lemma set_words:
  assumes "is_key k"
  shows "request_words (set_line k f n) = [bytes_of ''set'', k, bytes_of (show_nat (unat f)), bytes_of ''0'', bytes_of (show_nat n)]"
    "\<not> has_noreply (set_line k f n)" "13 \<notin> set (set_line k f n)"
proof -
  note S = show_word[of n] show_word[of "unat f"]
  show h: "\<not> has_noreply (set_line k f n)"
    using noreply_suffix[of "bytes_of (show_nat n)" "bytes_of ''set'' @ [32] @ k @ [32] @ bytes_of (show_nat (unat f)) @ [32] @ bytes_of ''0''"] S
    by (simp add: set_line_def)
  show "13 \<notin> set (set_line k f n)" using S assms by (simp add: set_line_def is_key_def)
  have "tokens (set_line k f n) = [bytes_of ''set'', k, bytes_of (show_nat (unat f)), bytes_of ''0'', bytes_of (show_nat n)]"
    using S assms tokens_word(2)[of "bytes_of ''set''"] tokens_word(2)[of k] tokens_word(2)[of "bytes_of (show_nat (unat f))"]
      tokens_word(2)[of "bytes_of ''0''"] tokens_word(1)[of "bytes_of (show_nat n)"]
    by (simp add: set_line_def is_key_def)
  then show "request_words (set_line k f n) = [bytes_of ''set'', k, bytes_of (show_nat (unat f)), bytes_of ''0'', bytes_of (show_nat n)]"
    using h by (simp add: request_words_def)
qed

lemma get_words:
  assumes "is_key k"
  shows "request_words (get_line k) = [bytes_of ''get'', k]" "\<not> has_noreply (get_line k)" "13 \<notin> set (get_line k)"
proof -
  show h: "\<not> has_noreply (get_line k)"
    using noreply_suffix[of k "bytes_of ''get''"] assms by (simp add: get_line_def is_key_def)
  show "13 \<notin> set (get_line k)" using assms by (simp add: get_line_def is_key_def)
  have "tokens (get_line k) = [bytes_of ''get'', k]"
    using assms tokens_word(2)[of "bytes_of ''get''"] tokens_word(1)[of k] by (simp add: get_line_def is_key_def)
  then show "request_words (get_line k) = [bytes_of ''get'', k]" using h by (simp add: request_words_def)
qed

lemma search_line: "13 \<notin> set l \<Longrightarrow> std_search kCRLF (l @ kCRLF @ r) = length l"
  by (induction l) (simp_all add: kCRLF_def)

section \<open>The requests\<close>

lemma read_set:
  assumes "is_key k" and "n \<le> 1024 * 1024"
  shows "read_update kSet k [bytes_of (show_nat (unat f)), bytes_of ''0'', bytes_of (show_nat n)] = Some (f, 0, int n, 0)"
proof -
  have f: "unat f < 2 ^ 64" using unsigned_less[of f, where ?'a = nat] by simp
  have z: "bytes_of ''0'' = bytes_of (show_nat 0)" by (simp add: show_base.simps)
  have "(ucast (word_of_nat (unat f) :: 64 word) :: 32 word) = f"
    using f by (simp add: word_unat_eq_iff unsigned_of_nat unsigned_ucast_eq take_bit_nat_def take_bit_word_eq_self)
  moreover have "to_int (word_of_nat n) = int n"
  proof -
    have "(ucast (word_of_nat n :: 64 word) :: 32 word) = word_of_nat n"
      using assms(2) by (simp add: word_unat_eq_iff unsigned_of_nat unsigned_ucast_eq unsigned_take_bit_eq take_bit_nat_def)
    moreover have "sint (word_of_nat n :: 32 word) = int n" using to_int32_exact[of n] assms(2) by (simp add: to_int32_def)
    ultimately show ?thesis by (simp only: to_int_def)
  qed
  ultimately show ?thesis
    using assms f strtoull_show[of "unat f"] strtoull_show[of n] strtoull_show[of 0] unfolding z
    by (simp add: read_update_def is_key_def kLongestKeySize_def)
qed

text \<open>The session after the line: it waits for a value of \<open>n\<close> bytes.\<close>

definition awaits :: "sess_env \<Rightarrow> byte list \<Rightarrow> 32 word \<Rightarrow> nat \<Rightarrow> session \<Rightarrow> session \<Rightarrow> bool" where
  "awaits e k f n s s1 \<longleftrightarrow> (\<exists>i. s1 = s\<lparr>requestsProcessed := requestsProcessed s + 1, noreply := False, command := bytes_of ''set'',
       policy := kSet, currItem := Some i, state := kReceiveValue\<rparr> \<and>
     item_wf (hash_range e) i \<and> it_data i = k \<and> it_receivedBytes i = length k \<and> item_key i = k \<and> it_keylen i = length k \<and>
     it_valuelen i = int n + 2 \<and> it_flags i = f)"

lemma set_request:
  assumes wf: "sess_wf (hash_range e) s" "state s = kNewCommand" and k: "is_key k" and n: "n \<le> 1024 * 1024"
  shows "\<exists>s1. processRequest e (set_line k f n) s st = Some (False, s1, st) \<and> awaits e k f n s s1"
proof -
  let ?s = "s\<lparr>requestsProcessed := requestsProcessed s + 1, noreply := has_noreply (set_line k f n), command := bytes_of ''set''\<rparr>"
  have idle: "idle s" using wf by (simp add: sess_wf_def phase_ok_def)
  have p: "policy_of (bytes_of ''set'') = kSet" "is_update (bytes_of ''set'')" by (simp_all add: policy_of_def is_update_def)
  obtain i where i: "makeItem (hash_range e) k f (rel_exptime (startTime st) 0) (int n + 2) 0 = Some i" "item_wf (hash_range e) i"
    "it_data i = k" "it_receivedBytes i = length k" "item_key i = k" "it_keylen i = length k" "it_valuelen i = int n + 2" "it_flags i = f"
    using makeItem_ok[of "int n + 2" k "hash_range e" f] k n by (fastforce simp: is_key_def)
  let ?s1 = "?s\<lparr>policy := kSet, currItem := Some i, state := kReceiveValue\<rparr>"
  have "doUpdate e [k, bytes_of (show_nat (unat f)), bytes_of ''0'', bytes_of (show_nat n)] ?s st = Some (False, ?s1, st)"
    using p(1) read_set[OF k n, of f] i(1) n by (simp add: doUpdate_def Let_def del: fixed_words)
  then have "processRequest e (set_line k f n) s st = Some (False, ?s1, st)"
    unfolding processRequest_words[OF idle set_words(1)[OF k]] dispatch_def using p(2) by (simp del: fixed_words)
  moreover have "awaits e k f n s ?s1" using i set_words(2)[OF k] by (auto simp: awaits_def)
  ultimately show ?thesis by blast
qed

lemma set_value:
  assumes wf: "awaits e k f (length v) s s1" and st: "store_wf (hash_range e) st" and k: "is_key k"
    and n: "length v \<le> 1024 * 1024"
  shows "\<exists>st' x. step_bytes e s1 st (v @ kCRLF @ r) =
      Some (True, (resetRequest (reply (''STORED'' @ line_end) s1))\<lparr>state := kNewCommand\<rparr>, st', length v + 2) \<and>
    store_wf (hash_range e) st' \<and> fst (table_of (hash_range e) st') = (fst (table_of (hash_range e) st))(k \<mapsto> x) \<and>
    e_value x = v \<and> e_flags x = f"
proof -
  let ?h = "hash_range e"
  obtain i where i: "currItem s1 = Some i" "policy s1 = kSet" "state s1 = kReceiveValue" "item_wf ?h i" "it_data i = k"
    "it_receivedBytes i = length k" "item_key i = k" "it_keylen i = length k" "it_valuelen i = int (length v) + 2" "it_flags i = f"
    using wf by (auto simp: awaits_def)
  have need: "needed s1 = length v + 2"
    using i(1,6,8,9) neededBytes_wf[OF i(4)] by (simp add: needed_def totalLen_def)
  have "int (it_receivedBytes i + length (v @ kCRLF)) \<le> totalLen i" using i(6,8,9) by (simp add: totalLen_def)
  then obtain i' where i': "item_append (v @ kCRLF) i = Some i'" "item_wf ?h i'" "it_data i' = k @ v @ kCRLF"
    "it_receivedBytes i' = length k + length v + 2" "totalLen i' = totalLen i" "item_key i' = k" "it_keylen i' = length k"
    "it_valuelen i' = int (length v) + 2" "it_flags i' = f"
    using item_append_ok[OF i(4), of "v @ kCRLF"] i(5-10) by auto
  have full: "complete i'" using i'(4,7,8) by (simp add: complete_def totalLen_def)
  have need': "neededBytes i' = 0" using full neededBytes_complete[OF i'(2)] by simp
  have crlf: "endsWithCRLF i'"
    using i'(3,4,7,8) by (simp add: endsWithCRLF_def totalLen_def kCRLF_def nth_append nat_add_distrib)
  have stb: "storable ?h i'" using i'(2) full crlf by (simp add: storable_def)
  have pay: "payload i' = v" using i'(3,7,8) by (simp add: payload_def item_value_def)
  obtain st' where so: "storeItem ?h i' kSet st = Some (True, fst (table_of ?h st) k \<noteq> None, st')" "store_wf ?h st'"
    "table_of ?h st' = spec_put k (entry_of i') (table_of ?h st)"
    using storeItem_refines[OF st stb, of kSet] i'(6) by (auto simp: fits_after_def)
  have "receive_bytes e (v @ kCRLF) s1 st = Some ((resetRequest (reply (''STORED'' @ line_end) s1))\<lparr>state := kNewCommand\<rparr>, st')"
    using i(1,2) i'(1) need' crlf so(1) by (simp add: receive_bytes_def stored_reply_def reply_eq resetRequest_def)
  moreover have "take (length v + 2) (v @ kCRLF @ r) = v @ kCRLF" by simp
  moreover have "min (length (v @ kCRLF @ r)) (needed s1) = length v + 2" using need by simp
  ultimately have "step_bytes e s1 st (v @ kCRLF @ r) =
      Some (True, (resetRequest (reply (''STORED'' @ line_end) s1))\<lparr>state := kNewCommand\<rparr>, st', length v + 2)"
    unfolding step_receive_eq[OF i(3)] by simp
  moreover have "fst (table_of ?h st') = (fst (table_of ?h st))(k \<mapsto> (entry_of i')\<lparr>e_cas := snd (table_of ?h st) + 1\<rparr>)"
    using so(3) by (simp add: spec_put_def)
  moreover have "e_value (entry_of i'\<lparr>e_cas := snd (table_of ?h st) + 1\<rparr>) = v" "e_flags (entry_of i'\<lparr>e_cas := snd (table_of ?h st) + 1\<rparr>) = f"
    using pay i'(9) by (simp_all add: entry_of_def)
  ultimately show ?thesis using so(2) by blast
qed

lemma get_request:
  assumes wf: "sess_wf (hash_range e) s" "state s = kNewCommand" and st: "store_wf (hash_range e) st" and k: "is_key k"
    and fits: "buffer_used (outputBuf s) + 2 * 2 ^ 32 \<le> vec_max" and out: "content (outputBuf s) = []"
    and x: "fst (table_of (hash_range e) st) k = Some x"
  shows "\<exists>s' calls. processRequest e (get_line k) s st = Some (True, s', st) \<and>
    conn_calls s' = conn_calls s @ calls @ [ConnSend (entry_text False k x @ bytes_of (''END'' @ line_end))] \<and>
    set calls \<subseteq> range ConnShrinkOutput"
proof -
  let ?s = "s\<lparr>requestsProcessed := requestsProcessed s + 1, noreply := has_noreply (get_line k), command := bytes_of ''get''\<rparr>"
  have idle: "idle s" and s: "needle_ok (needle ?s)" "buffer_wf (outputBuf ?s)" using wf by (simp_all add: sess_wf_def phase_ok_def)
  have c: "\<not> is_update (bytes_of ''get'')" "bytes_of ''get'' \<noteq> bytes_of ''gets''" by (simp_all add: is_update_def bytes_of_def)
  have good: "list_all good_key [k]" using k by (simp add: good_key_def is_key_def kLongestKeySize_def)
  have "buffer_used (outputBuf ?s) + length [k] * 2 ^ 32 \<le> vec_max" using fits by simp
  then obtain n o1 where g: "get_keys e False [k] ?s st = Some (True, ?s\<lparr>needle := n, outputBuf := o1\<rparr>)" "buffer_wf o1"
      "content o1 = found_text (fst (table_of (hash_range e) st)) False [k]" "buffer_used o1 \<le> buffer_used (outputBuf s) + 2 ^ 32"
    using get_keys_ok[OF st s, of "[k]" False] good out by auto
  let ?s2 = "?s\<lparr>needle := n, outputBuf := o1\<rparr>"
  have text1: "content o1 = entry_text False k x" using g(3) x by (simp add: found_text_def)
  have "buffer_used (outputBuf ?s2) + 5 \<le> vec_max" using g(4) fits by simp
  then obtain o2 calls where f: "get_finish e ?s2 = Some (?s2\<lparr>outputBuf := o2, conn_calls := conn_calls ?s2 @ calls @
      [ConnSend (content (outputBuf ?s2) @ bytes_of (''END'' @ line_end))]\<rparr>)" "set calls \<subseteq> range ConnShrinkOutput"
    using get_finish_ok[of ?s2 e] g(2) by auto
  have "processRequest e (get_line k) s st = Some (True, ?s2\<lparr>outputBuf := o2, conn_calls := conn_calls ?s2 @ calls @
      [ConnSend (content (outputBuf ?s2) @ bytes_of (''END'' @ line_end))]\<rparr>, st)"
    unfolding processRequest_words[OF idle get_words(1)[OF k]] dispatch_def using c g(1) f(1) by (simp del: fixed_words)
  then show ?thesis using f(2) text1 by (simp del: fixed_words)
qed

section \<open>The stream\<close>

lemma run_line:
  assumes "state s = kNewCommand" "13 \<notin> set l" "processRequest e l s st = Some (fin, s1, st')"
  shows "run_bytes e s st (l @ kCRLF @ r) = run_bytes e (if fin then resetRequest s1 else s1) st' r"
proof -
  have "step_bytes e s st (l @ kCRLF @ r) = Some (True, if fin then resetRequest s1 else s1, st', length l + 2)"
    using assms search_line[OF assms(2), of r] by (simp add: step_bytes_def Let_def)
  moreover have "drop (length l + 2) (l @ kCRLF @ r) = r" by simp
  ultimately show ?thesis by (subst run_bytes.simps) (simp add: kCRLF_def)
qed

lemma run_set_get:
  assumes wf: "sess_wf (hash_range e) s" "state s = kNewCommand" and st: "store_wf (hash_range e) st" and k: "is_key k"
    and n: "length v \<le> 1024 * 1024" and fits: "buffer_used (outputBuf s) + 2 * 2 ^ 32 \<le> vec_max" and out: "content (outputBuf s) = []"
  shows "\<exists>s' st' x calls. run_bytes e s st (set_line k f (length v) @ kCRLF @ v @ kCRLF @ get_line k @ kCRLF) = Some (s', st', []) \<and>
    conn_calls s' = conn_calls s @ [ConnSend (bytes_of (''STORED'' @ line_end))] @ calls @
      [ConnSend (entry_text False k x @ bytes_of (''END'' @ line_end))] \<and>
    set calls \<subseteq> range ConnShrinkOutput \<and> e_value x = v \<and> e_flags x = f \<and>
    fst (table_of (hash_range e) st') = (fst (table_of (hash_range e) st))(k \<mapsto> x)"
proof -
  let ?h = "hash_range e" and ?r = "get_line k @ kCRLF"
  obtain s1 where s1: "processRequest e (set_line k f (length v)) s st = Some (False, s1, st)" "awaits e k f (length v) s s1"
    using set_request[OF wf k n] by blast
  let ?s2 = "(resetRequest (reply (''STORED'' @ line_end) s1))\<lparr>state := kNewCommand\<rparr>"
  obtain st' x where v: "step_bytes e s1 st (v @ kCRLF @ ?r) = Some (True, ?s2, st', length v + 2)" "store_wf ?h st'"
      "fst (table_of ?h st') = (fst (table_of ?h st))(k \<mapsto> x)" "e_value x = v" "e_flags x = f"
    using set_value[OF s1(2) st k n] by blast
  have s2: "conn_calls ?s2 = conn_calls s @ [ConnSend (bytes_of (''STORED'' @ line_end))]" "state ?s2 = kNewCommand"
      "outputBuf ?s2 = outputBuf s" "sess_wf ?h ?s2"
    using s1(2) wf by (auto simp: awaits_def reply_eq resetRequest_def sess_wf_def phase_ok_def idle_def)
  obtain s' calls where g: "processRequest e (get_line k) ?s2 st' = Some (True, s', st')"
      "conn_calls s' = conn_calls ?s2 @ calls @ [ConnSend (entry_text False k x @ bytes_of (''END'' @ line_end))]"
      "set calls \<subseteq> range ConnShrinkOutput"
    using get_request[OF s2(4,2) v(2) k, unfolded s2(3), OF fits out, of x] v(3) by auto
  have "run_bytes e s1 st (v @ kCRLF @ ?r) = run_bytes e ?s2 st' ?r"
    using v(1) by (subst run_bytes.simps) (simp add: kCRLF_def)
  moreover have "run_bytes e ?s2 st' (?r @ []) = run_bytes e (resetRequest s') st' []"
    using run_line[OF s2(2) get_words(3)[OF k] g(1), of "[]"] by simp
  ultimately have "run_bytes e s st (set_line k f (length v) @ kCRLF @ v @ kCRLF @ ?r) = Some (resetRequest s', st', [])"
    using run_line[OF wf(2) set_words(3)[OF k] s1(1), of "v @ kCRLF @ ?r"] by (simp add: run_bytes.simps[of e _ _ "[]"])
  moreover have "conn_calls (resetRequest s') = conn_calls s @ [ConnSend (bytes_of (''STORED'' @ line_end))] @ calls @
      [ConnSend (entry_text False k x @ bytes_of (''END'' @ line_end))]"
    using g(2) s2(1) by (simp add: resetRequest_def)
  ultimately show ?thesis using g(3) v(3-5) by blast
qed

text \<open>
  C16. A client that sends \<open>set\<close> with any key, flags and value of at most one MiB, of whatever bytes, and then \<open>get\<close> with
  the same key, is told that the value was stored and reads it back with its flags and length, whatever the
  table held before; no other key of the table changes.  The key must not be the word \<open>noreply\<close>, which
  \<open>get\<close> does not take for a key.
\<close>

theorem memcache_set_get:
  assumes "new_Session e = Some s" "new_Buffer kInitialSize = Some b" "store_wf (hash_range e) st"
    and "room_for (hash_range e) (length (set_line k f (length v) @ kCRLF @ v @ kCRLF @ get_line k @ kCRLF)) st"
    and "is_key k" "length v \<le> 1024 * 1024"
  shows "\<exists>s' st' b' x calls. serve e [set_line k f (length v) @ kCRLF @ v @ kCRLF @ get_line k @ kCRLF] (s, st, b) = Some (Some (s', st', b')) \<and>
    content b' = [] \<and> set calls \<subseteq> range ConnShrinkOutput \<and>
    conn_calls s' = [ConnSend (bytes_of (''STORED'' @ line_end))] @ calls @
      [ConnSend (bytes_of ''VALUE '' @ k @ bytes_of ('' '' @ show_nat (unat f) @ '' '' @ show_nat (length v) @ line_end) @ v @
         bytes_of (line_end @ ''END'' @ line_end))] \<and>
    fst (table_of (hash_range e) st') = (fst (table_of (hash_range e) st))(k \<mapsto> x) \<and> e_value x = v \<and> e_flags x = f"
proof -
  note N = new_Session_ok[OF assms(1)]
  have fits: "buffer_used (outputBuf s) + 2 * 2 ^ 32 \<le> vec_max" unfolding N(7) by (simp add: kCheapPrepend_def vec_max_def)
  obtain s' st' x calls where r: "run_bytes e s st (set_line k f (length v) @ kCRLF @ v @ kCRLF @ get_line k @ kCRLF) = Some (s', st', [])"
      "conn_calls s' = [ConnSend (bytes_of (''STORED'' @ line_end))] @ calls @ [ConnSend (entry_text False k x @ bytes_of (''END'' @ line_end))]"
      "set calls \<subseteq> range ConnShrinkOutput" "e_value x = v" "e_flags x = f"
      "fst (table_of (hash_range e) st') = (fst (table_of (hash_range e) st))(k \<mapsto> x)"
    using run_set_get[OF N(1,3) assms(3,5,6) fits N(6), of f] N(4) by auto
  have "entry_text False k x @ bytes_of (''END'' @ line_end) = bytes_of ''VALUE '' @ k @
      bytes_of ('' '' @ show_nat (unat f) @ '' '' @ show_nat (length v) @ line_end) @ v @ bytes_of (line_end @ ''END'' @ line_end)"
    using r(4,5) by (simp add: entry_text_def line_end_def) (simp add: bytes_of_def)
  then show ?thesis using serve_single[OF assms(1-4)] r by (auto intro!: exI[of _ calls])
qed

theorem memcache_set_get_witness:
  "\<exists>s b s' st' b' x calls. new_Session sample_env = Some s \<and> new_Buffer kInitialSize = Some b \<and>
    serve sample_env [set_line (bytes_of ''k'') 7 3 @ kCRLF @ [0, 13, 10] @ kCRLF @ get_line (bytes_of ''k'') @ kCRLF] (s, new_store 0, b) =
      Some (Some (s', st', b')) \<and> set calls \<subseteq> range ConnShrinkOutput \<and>
    conn_calls s' = [ConnSend (bytes_of (''STORED'' @ line_end))] @ calls @
      [ConnSend (bytes_of ''VALUE '' @ bytes_of ''k'' @ bytes_of ('' '' @ show_nat (unat (7 :: 32 word)) @ '' '' @ show_nat 3 @ line_end) @ [0, 13, 10] @
         bytes_of (line_end @ ''END'' @ line_end))] \<and>
    fst (table_of (hash_range sample_env) st') = (fst (table_of (hash_range sample_env) (new_store 0)))(bytes_of ''k'' \<mapsto> x)"
proof -
  let ?v = "[0, 13, 10] :: byte list" and ?k = "bytes_of ''k''"
  obtain s b where sb: "new_Session sample_env = Some s" "new_Buffer kInitialSize = Some b" using sample_start by blast
  have k: "is_key ?k" by code_simp
  have v: "length ?v = 3" by simp
  have len: "length (show_nat (unat (7 :: 32 word))) = 1" "length (show_nat 3) = 1" by (simp_all add: show_base.simps)
  have room: "room_for (hash_range sample_env) (length (set_line ?k 7 (length ?v) @ kCRLF @ ?v @ kCRLF @ get_line ?k @ kCRLF)) (new_store 0)"
    unfolding v by (intro new_store_ok) (simp add: set_line_def get_line_def len[simplified])
  have "3 \<le> (1024 * 1024 :: nat)" by simp
  then show ?thesis
    using memcache_set_get[OF sb new_store_ok(1) room k, unfolded v] sb by blast
qed

end
