(* ===== verification/Spec2Isabelle.thy ===== *)
theory Spec2Isabelle
  imports Buffer_Ops Timer_Queue Pollers Event_Loop_Thread Tcp_Connection Tcp_Client Tcp_Server Http Time_Zone Thread_Pool
    Async_Logging Protobuf_Codec Memcache_Roundtrip
begin

text \<open>
  A verification development of muduo, a C++ library for event-driven TCP servers and clients
  (\<open>muduo/base\<close>, \<open>muduo/net\<close>).  One thread runs an \<open>EventLoop\<close>: it waits in a poller for events of file
  descriptors, calls the handlers of the \<open>Channel\<close>s that have some, and runs the functors other threads
  queued.  Timers, connections, connectors and acceptors are objects of one loop each; a server spreads
  its connections over the loops of a thread pool.  Everything is modelled by functions on records, with
  \<open>None\<close> for a failed assertion, an exception, a read outside a container or the use of a deleted object,
  so that a theorem that a call returns \<open>Some\<close> states that none of these happens.  What the kernel
  answers is an argument; code of users is a parameter.  Concurrency is a step relation whose steps are
  the pieces of code between two points at which another thread can interfere, and the theorems hold for
  every sequence of steps.

  \<^bold>\<open>Base.\<close>
  \<^item> \<open>Muduo_Prelude\<close>: assertions, \<open>size_t\<close> arithmetic modulo \<open>2 ^ 64\<close>, vectors, ordered sets, \<open>find\<close> and \<open>search\<close>.
  \<^item> \<open>Formatting\<close>, \<open>Log_Stream\<close> (\<open>LogStream.h\<close>, \<open>LogStream.cc\<close>): decimal and hexadecimal conversion against a
    specification of \<open>printf\<close>, and the fixed buffer, which never overflows and drops whole items only.
  \<^item> \<open>Dates\<close> (\<open>Date.h\<close>, \<open>Date.cc\<close>) and \<open>Time_Zone\<close> (\<open>TimeZone.h\<close>, \<open>TimeZone.cc\<close>): Julian day numbers against
    the Gregorian calendar; UTC and local time, with the reading of zone files.  The conversions are over
    unbounded integers; \<open>getYearMonthDay_no_overflow\<close> gives the range in which 32 bits are enough.
  \<^item> \<open>Timestamps\<close> (\<open>Timestamp.h\<close>, \<open>Timer.h\<close>): microseconds; \<open>addTime\<close> with the rounding of \<open>double\<close>.
  \<^item> \<open>Blocking_Queues\<close> (\<open>CountDownLatch\<close>, \<open>BlockingQueue\<close>, \<open>BoundedBlockingQueue\<close>) and \<open>Thread_Pool\<close>
    (\<open>ThreadPool.h\<close>, \<open>ThreadPool.cc\<close>): monitors.  The locale \<open>waker\<close> is the contract of a way to wake waiting
    threads, interpreted for \<open>notify\<close> and \<open>notifyAll\<close>; from it follows that no wakeup is lost.
  \<^item> \<open>Log_File\<close> (\<open>LogFile\<close>, \<open>FileUtil::AppendFile\<close>) and \<open>Async_Logging\<close> (\<open>AsyncLogging\<close>): rolling log files and
    the thread that writes them.  The locale \<open>log_sink\<close> is what the asynchronous log needs of a file: what is
    appended arrives, in order.  \<open>LogFile\<close> interprets it for every clock and every behaviour of \<open>fwrite\<close>
    that makes progress.

  \<^bold>\<open>Net.\<close>
  \<^item> \<open>Net_Endian\<close> (\<open>Endian.h\<close>), \<open>Net_Buffer\<close> (\<open>Buffer.h\<close>, \<open>Buffer.cc\<close>): the buffer as a byte queue, with its
    integers in network byte order on hosts of either order, and its limits at \<open>2 ^ 31\<close> and \<open>2 ^ 32\<close>.
    \<open>Buffer_Ops\<close> states of all operations at once that they keep the indices in order.
  \<^item> \<open>Timer_Queue\<close> (\<open>TimerQueue.h\<close>, \<open>TimerQueue.cc\<close>): the two sets of timers, the heap and the timerfd.
  \<^item> \<open>Net_Channel\<close>, \<open>Net_Poller\<close>, \<open>Pollers\<close> (\<open>Channel\<close>, \<open>poller/PollPoller\<close>, \<open>poller/EPollPoller\<close>): what
    the kernel watches is what the channels ask for.  The locale of \<open>Net_Poller\<close> states what a channel
    relies on of a poller; both pollers interpret it.
  \<^item> \<open>Event_Loop\<close> (\<open>EventLoop.h\<close>, \<open>EventLoop.cc\<close>): functors run in order, once, and no wakeup is lost.
    \<open>Event_Loop_Thread\<close> (\<open>EventLoopThread\<close>) is the thread that runs one: its start, and the races of its end.
  \<^item> \<open>Tcp_Connection\<close> (\<open>TcpConnection.h\<close>, \<open>TcpConnection.cc\<close>): the state machine of a connection, its byte
    stream, its watermark and its callbacks.
  \<^item> \<open>Tcp_Client\<close> (\<open>Connector\<close>, \<open>TcpClient\<close>) and \<open>Tcp_Server\<close> (\<open>EventLoopThreadPool\<close>, \<open>Acceptor\<close>, \<open>TcpServer\<close>):
    sockets are handed over or closed once, connections are created and removed in the right loops.
  \<^item> \<open>Http\<close> (\<open>http/\<close>): the request parser on a \<open>Buffer\<close>, the response and the message handler.  The loop of
    \<open>parseRequest\<close> is a partial function, because it does not end in every state; the theorems show in
    which states it ends.
  \<^item> \<open>Protobuf_Codec\<close> (\<open>protobuf/ProtobufCodecLite\<close>): the framing of messages, against a specification of the
    wire format.  Serialisation of messages and Adler-32 belong to other libraries and are parameters.

  \<^bold>\<open>The memcached server\<close> (\<open>examples/memcached/server\<close>), an application of the library.
  \<^item> \<open>Memcache_Store\<close> (\<open>Item\<close>, \<open>MemcacheServer\<close>): items and the sharded table.  The table refines a map from keys
    to versioned values; the locale \<open>versioned_table\<close> is the contract from which the safety of
    compare-and-swap follows, and the table interprets it.
  \<^item> \<open>Memcache_Session\<close> (\<open>Session\<close>): the text protocol of one connection.  \<open>Memcache_Protocol\<close> shows which
    lines abort the server and that all others keep the session well-formed.  \<open>Memcache_Stream\<close> gives the loop
    of the message handler as a function on bytes and \<open>Memcache_Handler\<close> shows that the handler on its buffer is
    that function.  \<open>Memcache_Server\<close> and \<open>Memcache_Roundtrip\<close> state what a client sees: when the server aborts,
    that the cutting of the stream does not matter, and that \<open>get\<close> returns what \<open>set\<close> stored.

  \<^bold>\<open>Bounds.\<close>  Where a container may grow, the hypothesis is that the total stays below the largest size of a
  vector; no fuel is used.  Loops are structural, have a termination proof, or are partial functions for
  which it is proved that they return.

  \<^bold>\<open>Not modelled.\<close>  The assembly of one log record (\<open>Logging\<close>), thin wrappers of system calls (\<open>Socket\<close>,
  \<open>SocketsOps\<close>, \<open>InetAddress\<close>, \<open>Thread\<close>, \<open>ProcessInfo\<close>, \<open>FileUtil::ReadSmallFile\<close>), which have no state of
  their own, the inspector (\<open>inspect/\<close>), which prints what the kernel reports, remote procedure calls
  (\<open>protorpc/\<close>), which rest on generated classes, compression (\<open>ZlibStream\<close>, \<open>GzipFile\<close>), which calls zlib,
  and the other programs under \<open>examples\<close> and \<open>contrib\<close>, which are clients of the library.
\<close>

end
